(* ===== verification/Prelude.thy ===== *)
theory Prelude
  imports Main "HOL-Library.Word"
begin

text \<open>
  Shared vocabulary of the development: the C integer types the program uses, the ways a
  C++ operation can end the process instead of returning (\<open>abort\<close>), counted loops, and
  generic facts on lists and updates that several components need.
\<close>

unbundle bit_operations_syntax

section \<open>Machine types\<close>

text \<open>\<open>uint8\<close>/\<open>gf\<close>, \<open>uint16\<close>, \<open>uint32\<close> and \<open>int\<close> of the source. A C \<open>int\<close> that is used
  as a signed quantity is an \<^typ>\<open>int\<close>; one that only ever counts or indexes is a \<^typ>\<open>nat\<close>.\<close>

type_synonym u8 = "8 word"
type_synonym u16 = "16 word"
type_synonym u32 = "32 word"

lemma unat_u32_less: "unat (x :: u32) < 4294967296"
  using unsigned_less [of x] by simp

lemma unat_u32_next: "unat (h :: u32) < unat (t :: u32) \<Longrightarrow> unat (h + 1) = unat h + 1"
  using unat_u32_less [of t] unat_add_lem [of h 1] by simp

section \<open>Abnormal ends\<close>

text \<open>
  What the code does instead of returning: a failed \<open>assert\<close> aborts the process, \<open>Perror\<close>
  prints and calls \<open>exit(-1)\<close>, a refused connection calls \<open>exit(0)\<close>, and a memory access outside its object or through a null or
  never initialised pointer is undefined behaviour. An operation that can end this way returns \<open>abort + 'a\<close>.
\<close>

datatype abort = Assert_Failed | Perror_Exit | Out_Of_Bounds | Null_Deref | Exit_Zero

type_synonym 'a outcome = "abort + 'a"

abbreviation ok :: "'a \<Rightarrow> 'a outcome" where "ok \<equiv> Inr"
abbreviation abort :: "abort \<Rightarrow> 'a outcome" where "abort \<equiv> Inl"

definition and_then :: "'a outcome \<Rightarrow> ('a \<Rightarrow> 'b outcome) \<Rightarrow> 'b outcome" where
  "and_then r f = (case r of Inl e \<Rightarrow> Inl e | Inr x \<Rightarrow> f x)"

lemma and_then_simps [simp]:
  "and_then (Inl e) f = Inl e"
  "and_then (Inr x) f = f x"
  by (simp_all add: and_then_def)

lemma and_then_assoc: "and_then (and_then r f) g = and_then r (\<lambda>x. and_then (f x) g)"
  by (cases r) simp_all

lemma and_then_eq_ok: "and_then r f = Inr y \<longleftrightarrow> (\<exists>x. r = Inr x \<and> f x = Inr y)"
  by (cases r) auto

section \<open>Counted loops\<close>

text \<open>\<open>for (i = lo; i < hi; i++) s = body(i, s)\<close>.\<close>

abbreviation for_range :: "nat \<Rightarrow> nat \<Rightarrow> (nat \<Rightarrow> 's \<Rightarrow> 's) \<Rightarrow> 's \<Rightarrow> 's" where
  "for_range lo hi body s \<equiv> fold body [lo..<hi] s"

text \<open>The invariant rule of the counted loop.\<close>

lemma for_range_invariant:
  assumes "lo \<le> hi" and "P lo s"
    and "\<And>i s. lo \<le> i \<Longrightarrow> i < hi \<Longrightarrow> P i s \<Longrightarrow> P (Suc i) (body i s)"
  shows "P hi (for_range lo hi body s)"
  using assms
proof (induction "hi - lo" arbitrary: lo s)
  case 0
  then show ?case by simp
next
  case (Suc d)
  then have lt: "lo < hi" and d: "d = hi - Suc lo" by simp_all
  have "P hi (for_range (Suc lo) hi body (body lo s))"
    using lt Suc.prems by (intro Suc.hyps(1) [OF d]) auto
  then show ?case using lt by (simp add: upt_conv_Cons)
qed

section \<open>Lists\<close>

lemma fold_invariant_mem:
  assumes "P s" and "\<And>x s. x \<in> set xs \<Longrightarrow> P s \<Longrightarrow> P (f x s)"
  shows "P (fold f xs s)"
  using assms by (induction xs arbitrary: s) auto

end
