(* ===== verification/GF256.thy ===== *)
theory GF256
  imports Prelude
begin

text \<open>
  The finite field of \<open>src/fec.cc\<close>: \<open>generate_gf\<close> fills the tables \<open>gf_exp\<close>, \<open>gf_log\<close> and
  \<open>inverse\<close>, \<open>init_mul_table\<close> the 256 by 256 multiplication table. The definitions follow
  the loops of the code on byte lists; the lemmas show that the tables they compute make
  the bytes, with exclusive or as addition, a field.
\<close>

section \<open>The tables\<close>

definition GF_BITS :: nat where "GF_BITS = 8"
definition GF_SIZE :: nat where "GF_SIZE = 2 ^ GF_BITS - 1"

lemma GF_SIZE_eq [simp]: "GF_SIZE = 255"
  by (simp add: GF_SIZE_def GF_BITS_def)

definition allPp :: "string option list" where
  "allPp = [None, None, Some ''111'', Some ''1101'', Some ''11001'', Some ''101001'',
     Some ''1100001'', Some ''10010001'', Some ''101110001'', Some ''1000100001'',
     Some ''10010000001'', Some ''101000000001'', Some ''1100101000001'',
     Some ''11011000000001'', Some ''110000100010001'', Some ''1100000000000001'',
     Some ''11010000000010001'']"

record gf_tables =
  gf_exp :: "u8 list"
  gf_log :: "nat list"
  inverse_tab :: "u8 list"

text \<open>Static arrays start zeroed.\<close>

definition gf_tables_static :: gf_tables where
  "gf_tables_static = \<lparr>gf_exp = replicate (2 * GF_SIZE) 0, gf_log = replicate (GF_SIZE + 1) 0,
     inverse_tab = replicate (GF_SIZE + 1) 0\<rparr>"

abbreviation set_exp :: "nat \<Rightarrow> u8 \<Rightarrow> gf_tables \<Rightarrow> gf_tables" where
  "set_exp i v t \<equiv> t\<lparr>gf_exp := (gf_exp t)[i := v]\<rparr>"

abbreviation set_log :: "nat \<Rightarrow> nat \<Rightarrow> gf_tables \<Rightarrow> gf_tables" where
  "set_log i v t \<equiv> t\<lparr>gf_log := (gf_log t)[i := v]\<rparr>"

abbreviation set_inverse :: "nat \<Rightarrow> u8 \<Rightarrow> gf_tables \<Rightarrow> gf_tables" where
  "set_inverse i v t \<equiv> t\<lparr>inverse_tab := (inverse_tab t)[i := v]\<rparr>"

text \<open>
  First loop of \<open>generate_gf\<close>: the powers below \<open>GF_BITS\<close> are single bits, and the bits of
  the primitive polynomial are collected in \<open>gf_exp[GF_BITS]\<close>.
\<close>

definition gf_low_step :: "string \<Rightarrow> nat \<Rightarrow> u8 \<times> gf_tables \<Rightarrow> u8 \<times> gf_tables" where
  "gf_low_step Pp i s =
     (let (msk, t) = s;
          t = set_exp i msk t;
          t = set_log (unat (gf_exp t ! i)) i t;
          t = (if Pp ! i = CHR ''1'' then set_exp GF_BITS (gf_exp t ! GF_BITS XOR msk) t else t)
      in (push_bit 1 msk, t))"

text \<open>Second loop: shift left by one bit, reducing when the top bit falls out.\<close>

definition gf_high_step :: "u8 \<Rightarrow> nat \<Rightarrow> gf_tables \<Rightarrow> gf_tables" where
  "gf_high_step msk i t =
     (let t = (if gf_exp t ! (i - 1) \<ge> msk
               then set_exp i (gf_exp t ! GF_BITS XOR push_bit 1 (gf_exp t ! (i - 1) XOR msk)) t
               else set_exp i (push_bit 1 (gf_exp t ! (i - 1))) t)
      in set_log (unat (gf_exp t ! i)) i t)"

definition gf_dup_step :: "nat \<Rightarrow> gf_tables \<Rightarrow> gf_tables" where
  "gf_dup_step i t = set_exp (i + GF_SIZE) (gf_exp t ! i) t"

definition gf_inv_step :: "nat \<Rightarrow> gf_tables \<Rightarrow> gf_tables" where
  "gf_inv_step i t = set_inverse i (gf_exp t ! (GF_SIZE - gf_log t ! i)) t"

definition generate_gf :: "gf_tables \<Rightarrow> gf_tables" where
  "generate_gf t =
     (let Pp = the (allPp ! GF_BITS);
          t = set_exp GF_BITS 0 t;
          (_, t) = for_range 0 GF_BITS (gf_low_step Pp) (1, t);
          t = set_log (unat (gf_exp t ! GF_BITS)) GF_BITS t;
          msk = push_bit (GF_BITS - 1) 1;
          t = for_range (GF_BITS + 1) GF_SIZE (gf_high_step msk) t;
          t = set_log 0 GF_SIZE t;
          t = for_range 0 GF_SIZE gf_dup_step t;
          t = set_inverse 0 0 t;
          t = set_inverse 1 1 t
      in for_range 2 (GF_SIZE + 1) gf_inv_step t)"

text \<open>\<open>modnn(x)\<close>: \<open>x % GF_SIZE\<close> without a division.\<close>

function modnn :: "nat \<Rightarrow> nat" where
  "modnn x =
     (if x \<ge> GF_SIZE
      then let x = x - GF_SIZE in modnn (drop_bit GF_BITS x + (x AND GF_SIZE))
      else x)"
  by pat_completeness auto

lemma drop_bit_GF_BITS: "drop_bit GF_BITS x = x div 256" for x :: nat
  by (simp add: GF_BITS_def drop_bit_eq_div)

lemma and_GF_SIZE: "x AND 255 = x mod 256" for x :: nat
proof -
  have "(255 :: nat) = mask 8"
    by (simp add: mask_eq_exp_minus_1)
  then have "x AND 255 = x AND mask 8"
    by simp
  then show ?thesis
    by (simp add: take_bit_eq_mask [symmetric] take_bit_eq_mod)
qed

lemma div_add_mod_le: "y div 256 + y mod 256 \<le> (y :: nat)"
proof -
  have "y = 256 * (y div 256) + y mod 256" by simp
  then show ?thesis by linarith
qed

termination modnn
proof (relation "measure id")
  fix x y :: nat
  assume "x \<ge> GF_SIZE" and "y = x - GF_SIZE"
  then have "y < x" by simp
  then show "(drop_bit GF_BITS y + (y AND GF_SIZE), x) \<in> measure id"
    using div_add_mod_le [of y] by (simp add: drop_bit_GF_BITS and_GF_SIZE)
qed simp

declare modnn.simps [simp del]

lemma modnn_eq_mod: "modnn x = x mod GF_SIZE"
proof (induction x rule: modnn.induct)
  case (1 x)
  show ?case
  proof (cases "x \<ge> GF_SIZE")
    case True
    let ?y = "x - GF_SIZE"
    have "modnn x = (?y div 256 + ?y mod 256) mod GF_SIZE"
      using True "1.IH" by (subst modnn.simps) (simp add: drop_bit_GF_BITS and_GF_SIZE Let_def)
    also have "\<dots> = ?y mod GF_SIZE"
    proof -
      have "?y = ?y div 256 + ?y mod 256 + GF_SIZE * (?y div 256)" by simp
      then show ?thesis by (metis mod_mult_self2)
    qed
    also have "\<dots> = x mod GF_SIZE"
      using True by (simp add: le_mod_geq)
    finally show ?thesis .
  next
    case False
    then show ?thesis by (subst modnn.simps) simp
  qed
qed

text \<open>
  \<open>init_mul_table\<close> fills \<open>gf_mul_table\<close> from the logarithms and then clears row and column
  zero. The assignment \<open>a = b = 0\<close> of the second loop stores to \<open>b\<close> first.
\<close>

definition mul_fill_cell :: "gf_tables \<Rightarrow> nat \<Rightarrow> nat \<Rightarrow> u8 list list \<Rightarrow> u8 list list" where
  "mul_fill_cell t i j m = m[i := (m ! i)[j := gf_exp t ! modnn (gf_log t ! i + gf_log t ! j)]]"

definition mul_zero_cell :: "nat \<Rightarrow> u8 list list \<Rightarrow> u8 list list" where
  "mul_zero_cell j m = (let m = m[j := (m ! j)[0 := 0]] in m[0 := (m ! 0)[j := 0]])"

definition init_mul_table :: "gf_tables \<Rightarrow> u8 list list \<Rightarrow> u8 list list" where
  "init_mul_table t m =
     (let m = for_range 0 (GF_SIZE + 1) (\<lambda>i. for_range 0 (GF_SIZE + 1) (mul_fill_cell t i)) m
      in for_range 0 (GF_SIZE + 1) mul_zero_cell m)"

text \<open>The file's static variables and \<open>init_fec\<close>.\<close>

record fec_globals =
  gf_tabs :: gf_tables
  gf_mul_table :: "u8 list list"
  fec_initialized :: bool

definition fec_globals_static :: fec_globals where
  "fec_globals_static = \<lparr>gf_tabs = gf_tables_static,
     gf_mul_table = replicate (GF_SIZE + 1) (replicate (GF_SIZE + 1) 0), fec_initialized = False\<rparr>"

definition init_fec :: "fec_globals \<Rightarrow> fec_globals" where
  "init_fec g =
     (let g = g\<lparr>gf_tabs := generate_gf (gf_tabs g)\<rparr>;
          g = g\<lparr>gf_mul_table := init_mul_table (gf_tabs g) (gf_mul_table g)\<rparr>
      in g\<lparr>fec_initialized := True\<rparr>)"

text \<open>
  Every routine that reads the tables is called with a descriptor made by \<open>fec_new\<close>, which
  runs \<open>init_fec\<close> first; the tables never change afterwards. The readers below therefore
  read the initialised globals.
\<close>

definition fec_ready :: fec_globals where
  "fec_ready = init_fec fec_globals_static"

definition gf_mul :: "u8 \<Rightarrow> u8 \<Rightarrow> u8" where
  "gf_mul x y = gf_mul_table fec_ready ! unat x ! unat y"

definition gf_inverse :: "u8 \<Rightarrow> u8" where
  "gf_inverse x = inverse_tab (gf_tabs fec_ready) ! unat x"

definition gf_exp_at :: "nat \<Rightarrow> u8" where
  "gf_exp_at i = gf_exp (gf_tabs fec_ready) ! i"

section \<open>The powers of the generator\<close>

definition shl1 :: "u8 \<Rightarrow> u8" where "shl1 x = push_bit 1 x"

definition xtime :: "u8 \<Rightarrow> u8" where
  "xtime x = (if x \<ge> 128 then 29 XOR shl1 (x XOR 128) else shl1 x)"

lemma unat_u8_less: "unat (x :: u8) < 256"
  using unsigned_less [of x] by simp

lemma ge_128_iff_bit: "(128 :: u8) \<le> x \<longleftrightarrow> bit x 7"
proof -
  have "bit x 7 \<longleftrightarrow> bit (unat x) 7"
    by (simp add: bit_unsigned_iff)
  also have "\<dots> \<longleftrightarrow> odd (unat x div 2 ^ 7)"
    by (rule bit_iff_odd)
  also have "unat x div 2 ^ 7 = (if 128 \<le> unat x then 1 else 0)"
    using unat_u8_less [of x] by (simp add: div_nat_eqI)
  finally show ?thesis
    by (simp add: word_le_nat_alt)
qed

lemma bit_shl1: "bit (shl1 x) n \<longleftrightarrow> 0 < n \<and> n < 8 \<and> bit x (n - 1)"
  unfolding shl1_def bit_push_bit_iff by (auto simp: Suc_le_eq)

lemma bit_128: "bit (128 :: u8) n \<longleftrightarrow> n = 7"
proof -
  have "(128 :: u8) = 2 ^ 7" by simp
  then show ?thesis by (simp only: bit_exp_iff) auto
qed

lemma shl1_xor: "shl1 (x XOR y) = shl1 x XOR shl1 y"
  unfolding shl1_def by (rule push_bit_xor)

lemma xtime_alt: "xtime x = shl1 x XOR (if bit x 7 then 29 else 0)"
proof -
  have "shl1 (x XOR 128) = shl1 x"
  proof (rule bit_eqI)
    fix n
    have "n < 8 \<Longrightarrow> \<not> bit (128 :: u8) (n - 1)"
      by (simp only: bit_128)
    then show "bit (shl1 (x XOR 128)) n \<longleftrightarrow> bit (shl1 x) n"
      unfolding bit_shl1 bit_xor_iff by blast
  qed
  then show ?thesis
    by (auto simp: xtime_def ge_128_iff_bit xor.commute)
qed

lemma xtime_xor: "xtime (x XOR y) = xtime x XOR xtime y"
  by (simp add: xtime_alt shl1_xor bit_xor_iff ac_simps)

lemma xor_eq_0_iff: "a XOR b = 0 \<longleftrightarrow> a = (b :: u8)"
  by (metis xor.left_neutral xor_self_eq xor.assoc xor.commute)

lemma xtime_eq_0: 
  assumes "xtime x = 0" shows "x = 0"
proof -
  have eq: "shl1 x = (if bit x 7 then 29 else 0)"
    using assms by (auto simp: xtime_alt xor_eq_0_iff split: if_splits)
  have "bit (29 :: u8) 0" by simp
  with eq bit_shl1 [of x 0] have "\<not> bit x 7"
    by (auto split: if_splits)
  with eq have 0: "shl1 x = 0" by simp
  have "\<not> bit x n" for n
    using bit_shl1 [of x "Suc n"] \<open>\<not> bit x 7\<close> bit_imp_le_length [of x n] unfolding 0
    by (cases "n = 7") auto
  then show "x = 0" by (intro bit_eqI) auto
qed

primrec alpha :: "nat \<Rightarrow> u8" where
  "alpha 0 = 1"
| "alpha (Suc n) = xtime (alpha n)"

fun orbit_avoids_one :: "nat \<Rightarrow> u8 \<Rightarrow> bool" where
  "orbit_avoids_one 0 x = True"
| "orbit_avoids_one (Suc n) x = (x \<noteq> 1 \<and> orbit_avoids_one n (xtime x))"

fun orbit_end :: "nat \<Rightarrow> u8 \<Rightarrow> u8" where
  "orbit_end 0 x = x"
| "orbit_end (Suc n) x = orbit_end n (xtime x)"

lemma orbit_avoids_one_254: "orbit_avoids_one 254 (xtime 1)"
  by code_simp

lemma orbit_end_255: "orbit_end 255 1 = 1"
  by code_simp

lemma orbit_avoids_oneD: "orbit_avoids_one n (alpha m) \<Longrightarrow> i < n \<Longrightarrow> alpha (m + i) \<noteq> 1"
proof (induction n arbitrary: m i)
  case (Suc n)
  then show ?case
    using Suc.IH [of "Suc m" "i - 1"] by (cases i) auto
qed simp

lemma orbit_end_alpha: "orbit_end n (alpha m) = alpha (m + n)"
  by (induction n arbitrary: m) (simp_all flip: alpha.simps(2))

lemma alpha_255: "alpha 255 = 1"
  using orbit_end_alpha [of 255 0] orbit_end_255 by simp

lemma alpha_neq_1: "0 < m \<Longrightarrow> m < 255 \<Longrightarrow> alpha m \<noteq> 1"
  using orbit_avoids_oneD [of 254 1 "m - 1"] orbit_avoids_one_254 by simp

lemma alpha_nonzero: "alpha n \<noteq> 0"
  by (induction n) (auto dest: xtime_eq_0)

lemma alpha_add_255: "alpha (n + 255) = alpha n"
  by (induction n) (simp_all only: alpha_255 add_0 add_Suc alpha.simps)

lemma alpha_mod: "alpha (n mod 255) = alpha n"
proof (induction n rule: less_induct)
  case (less n)
  then show ?case
    by (cases "n < 255") (auto simp: le_mod_geq not_less alpha_add_255 [of "n - 255", symmetric])
qed

lemma xtime_inj: "xtime x = xtime y \<Longrightarrow> x = y"
  using xtime_eq_0 [of "x XOR y"] by (simp add: xtime_xor xor_eq_0_iff)

lemma alpha_shift_inj: "alpha (m + i) = alpha (m + j) \<Longrightarrow> alpha i = alpha j"
  by (induction m) (auto dest: xtime_inj)

lemma alpha_inj_aux: "i < j \<Longrightarrow> j < 255 \<Longrightarrow> alpha i \<noteq> alpha j"
  using alpha_shift_inj [of i 0 "j - i"] alpha_neq_1 [of "j - i"] by auto

lemma alpha_inj: "i < 255 \<Longrightarrow> j < 255 \<Longrightarrow> alpha i = alpha j \<longleftrightarrow> i = j"
  using alpha_inj_aux by (metis linorder_neqE_nat)

lemma inj_on_alpha: "inj_on alpha {..<255}"
  by (auto simp: inj_on_def alpha_inj)

lemma alpha_onto:
  assumes "x \<noteq> 0" shows "\<exists>i<255. alpha i = x"
proof -
  have "card (alpha ` {..<255}) = card (UNIV - {0 :: u8})"
    by (simp add: card_image inj_on_alpha card_Diff_singleton card_word)
  moreover have "alpha ` {..<255} \<subseteq> UNIV - {0}"
    using alpha_nonzero by auto
  ultimately have "alpha ` {..<255} = UNIV - {0}"
    by (intro card_subset_eq) auto
  then have "x \<in> alpha ` {..<255}"
    using assms by simp
  then show ?thesis by auto
qed

definition tables_upto :: "nat \<Rightarrow> gf_tables \<Rightarrow> bool" where
  "tables_upto i t \<longleftrightarrow> length (gf_exp t) = 510 \<and> length (gf_log t) = 256 \<and> length (inverse_tab t) = 256
     \<and> (\<forall>j<i. gf_exp t ! j = alpha j \<and> gf_log t ! unat (alpha j) = j)"


lemma tables_upto_step:
  assumes "tables_upto i t" "i < 255"
  shows "tables_upto (Suc i) (set_log (unat (alpha i)) i (set_exp i (alpha i) t))"
proof -
  have "unat (alpha i) \<noteq> unat (alpha j)" if "j < i" for j
    using that assms(2) alpha_inj [of j i] by (simp add: word_unat_eq_iff)
  with assms show ?thesis
    using unat_u8_less [of "alpha i"]
    by (auto simp: tables_upto_def less_Suc_eq nth_list_update)
qed

lemma tables_upto_set_exp: "tables_upto i t \<Longrightarrow> i \<le> j \<Longrightarrow> tables_upto i (set_exp j v t)"
  by (simp add: tables_upto_def)

lemma alpha_low:
  "alpha 0 = 1" "alpha 1 = 2" "alpha (Suc 0) = 2" "alpha (Suc (Suc 0)) = 4" "alpha 2 = 4" "alpha 3 = 8" "alpha 4 = 16"
  "alpha 5 = 32" "alpha 6 = 64" "alpha 7 = 128" "alpha 8 = 29"
  by code_simp+

definition pp_partial :: "nat \<Rightarrow> u8" where
  "pp_partial i = [0, 1, 1, 5, 13, 29, 29, 29, 29] ! i"

lemma less_8_cases:
  "i < 8 \<Longrightarrow> i = 0 \<or> i = 1 \<or> i = 2 \<or> i = 3 \<or> i = 4 \<or> i = 5 \<or> i = 6 \<or> i = (7 :: nat)"
  by arith

definition low_inv :: "nat \<Rightarrow> u8 \<times> gf_tables \<Rightarrow> bool" where
  "low_inv i s \<longleftrightarrow> fst s = (if i < 8 then alpha i else 0) \<and> tables_upto i (snd s)
     \<and> gf_exp (snd s) ! 8 = pp_partial i"

lemma low_mask_step: "i < 8 \<Longrightarrow> push_bit 1 (alpha i) = (if Suc i < 8 then alpha (Suc i) else 0)"
  by (drule less_8_cases) (elim disjE; simp add: alpha_low del: alpha.simps(2))

lemma low_poly_step:
  "i < 8 \<Longrightarrow> (if ''101110001'' ! i = CHR ''1'' then pp_partial i XOR alpha i else pp_partial i)
     = pp_partial (Suc i)"
  by (drule less_8_cases) (elim disjE; simp add: alpha_low pp_partial_def del: alpha.simps(2))


lemma low_inv_step:
  assumes "i < 8" "low_inv i s"
  shows "low_inv (Suc i) (gf_low_step ''101110001'' i s)"
proof -
  obtain msk t where s: "s = (msk, t)" by (cases s)
  let ?t = "set_log (unat (alpha i)) i (set_exp i (alpha i) t)"
  from assms s have msk: "msk = alpha i" and up: "tables_upto i t" and pp: "gf_exp t ! 8 = pp_partial i"
    by (simp_all add: low_inv_def)
  have "tables_upto (Suc i) ?t"
    using up assms(1) by (intro tables_upto_step) auto
  moreover have "gf_exp ?t ! i = alpha i"
    using up assms(1) by (simp add: tables_upto_def)
  moreover have "gf_exp ?t ! 8 = pp_partial i" "length (gf_exp ?t) = 510"
    using up pp assms(1) by (simp_all add: tables_upto_def)
  ultimately show ?thesis
    using assms(1) low_poly_step [OF assms(1)] low_mask_step [OF assms(1)]
    by (auto simp: s msk gf_low_step_def low_inv_def Let_def GF_BITS_def tables_upto_def simp del: alpha.simps
        split: if_splits)
qed

lemma high_step:
  assumes "tables_upto i t" "9 \<le> i" "i < 255"
  shows "tables_upto (Suc i) (gf_high_step 128 i t)"
proof -
  have prev: "gf_exp t ! (i - 1) = alpha (i - 1)" and g8: "gf_exp t ! 8 = 29"
    using assms alpha_low(11) by (simp_all add: tables_upto_def)
  have "xtime (alpha (i - 1)) = alpha i"
    using assms(2) by (cases i) simp_all
  then have "gf_high_step 128 i t = set_log (unat (alpha i)) i (set_exp i (alpha i) t)"
    using assms by (auto simp: gf_high_step_def GF_BITS_def prev g8 xtime_def shl1_def Let_def tables_upto_def
        simp del: push_bit_Suc)
  then show ?thesis
    using tables_upto_step [OF assms(1,3)] by simp
qed

definition gf_dup_inv :: "nat \<Rightarrow> gf_tables \<Rightarrow> bool" where
  "gf_dup_inv i t \<longleftrightarrow> tables_upto 255 t \<and> gf_log t ! 0 = 255 \<and> (\<forall>j<i. gf_exp t ! (j + 255) = alpha j)"

lemma dup_step: "gf_dup_inv i t \<Longrightarrow> i < 255 \<Longrightarrow> gf_dup_inv (Suc i) (gf_dup_step i t)"
  by (auto simp: gf_dup_inv_def gf_dup_step_def tables_upto_def less_Suc_eq nth_list_update)

definition gf_inv_inv :: "nat \<Rightarrow> gf_tables \<Rightarrow> bool" where
  "gf_inv_inv i t \<longleftrightarrow> gf_dup_inv 255 t \<and> inverse_tab t ! 0 = 0 \<and>
     (\<forall>j. 1 \<le> j \<and> j < i \<longrightarrow> inverse_tab t ! j = gf_exp t ! (GF_SIZE - gf_log t ! j))"

lemma tables_upto_set_inverse [simp]:
  "length (inverse_tab t) = 256 \<Longrightarrow> length vs = 256 \<Longrightarrow>
     tables_upto i (t\<lparr>inverse_tab := vs\<rparr>) = tables_upto i t"
  by (simp add: tables_upto_def)

lemma gf_dup_inv_set_inverse [simp]:
  "length (inverse_tab t) = 256 \<Longrightarrow> length vs = 256 \<Longrightarrow>
     gf_dup_inv i (t\<lparr>inverse_tab := vs\<rparr>) = gf_dup_inv i t"
  by (simp add: gf_dup_inv_def)

lemma inv_step:
  assumes "gf_inv_inv i t" "2 \<le> i" "i < 256"
  shows "gf_inv_inv (Suc i) (gf_inv_step i t)"
proof -
  have len: "length (inverse_tab t) = 256"
    using assms(1) by (simp add: gf_inv_inv_def gf_dup_inv_def tables_upto_def)
  have "inverse_tab (gf_inv_step i t) ! j = gf_exp t ! (GF_SIZE - gf_log t ! j)"
    if "1 \<le> j" "j < Suc i" for j
  proof (cases "j = i")
    case True
    show ?thesis unfolding True gf_inv_step_def using len assms(3) by simp
  next
    case False
    with that have "1 \<le> j \<and> j < i" by simp
    then have "inverse_tab t ! j = gf_exp t ! (GF_SIZE - gf_log t ! j)"
      using assms(1) unfolding gf_inv_inv_def by blast
    then show ?thesis unfolding gf_inv_step_def using False by simp
  qed
  moreover have "gf_dup_inv 255 (gf_inv_step i t)" "inverse_tab (gf_inv_step i t) ! 0 = 0"
    using assms len by (simp_all add: gf_inv_step_def gf_inv_inv_def)
  moreover have "gf_exp (gf_inv_step i t) = gf_exp t" "gf_log (gf_inv_step i t) = gf_log t"
    by (simp_all add: gf_inv_step_def)
  ultimately show ?thesis by (simp add: gf_inv_inv_def)
qed

lemma gf_tables_static_lengths:
  "length (gf_exp gf_tables_static) = 510" "length (gf_log gf_tables_static) = 256"
  "length (inverse_tab gf_tables_static) = 256"
  by (simp_all only: gf_tables_static_def gf_tables.simps length_replicate GF_SIZE_eq)

lemma generate_gf_static: "gf_inv_inv 256 (generate_gf gf_tables_static)"
proof -
  obtain m t1 where 1: "for_range 0 GF_BITS (gf_low_step ''101110001'') (1, set_exp GF_BITS 0 gf_tables_static) = (m, t1)"
    by (cases "for_range 0 GF_BITS (gf_low_step ''101110001'') (1, set_exp GF_BITS 0 gf_tables_static)")
  have "low_inv 0 (1, set_exp GF_BITS 0 gf_tables_static)"
    by (simp add: low_inv_def tables_upto_def gf_tables_static_lengths pp_partial_def GF_BITS_def)
  then have "low_inv 8 (m, t1)"
    unfolding 1 [symmetric] GF_BITS_def
    by (rule for_range_invariant [where P = low_inv, rotated]) (rule low_inv_step, assumption+, simp)
  then have up8: "tables_upto 8 t1" and g8: "gf_exp t1 ! 8 = 29"
    by (simp_all add: low_inv_def pp_partial_def)
  define t2 where "t2 = set_log (unat (gf_exp t1 ! GF_BITS)) GF_BITS t1"
  have "t2 = set_log (unat (alpha 8)) 8 (set_exp 8 (alpha 8) t1)"
    using up8 g8 list_update_id [of "gf_exp t1" 8] by (simp add: t2_def GF_BITS_def alpha_low(11))
  then have up9: "tables_upto 9 t2"
    using tables_upto_step [OF up8] by simp
  define t3 where "t3 = for_range (GF_BITS + 1) GF_SIZE (gf_high_step (push_bit (GF_BITS - 1) 1)) t2"
  have "tables_upto 255 (for_range 9 255 (gf_high_step 128) t2)"
    using up9 by (intro for_range_invariant [where P = tables_upto]) (simp_all add: high_step)
  then have "tables_upto 255 t3"
    by (simp add: t3_def GF_BITS_def)
  then have "gf_dup_inv 0 (set_log 0 GF_SIZE t3)"
    using alpha_nonzero by (auto simp: gf_dup_inv_def tables_upto_def nth_list_update unat_eq_0)
  then have "gf_dup_inv 255 (for_range 0 GF_SIZE gf_dup_step (set_log 0 GF_SIZE t3))" (is "gf_dup_inv _ ?t4")
    unfolding GF_SIZE_eq
    by (intro for_range_invariant [where P = gf_dup_inv]) (simp_all add: dup_step)
  then have dup: "gf_dup_inv 255 ?t4" .
  then have len: "length (inverse_tab ?t4) = 256"
    by (simp add: gf_dup_inv_def tables_upto_def)
  have "gf_exp ?t4 ! (0 + 255) = 1" "gf_log ?t4 ! unat (alpha 0) = 0"
    using dup unfolding gf_dup_inv_def tables_upto_def by (metis alpha.simps(1) zero_less_numeral)+
  then have one: "gf_exp ?t4 ! (GF_SIZE - gf_log ?t4 ! 1) = 1"
    by simp
  have "gf_inv_inv 2 (set_inverse 1 1 (set_inverse 0 0 ?t4))"
    unfolding gf_inv_inv_def
  proof (intro conjI allI impI)
    fix j :: nat assume "1 \<le> j \<and> j < 2"
    then have "j = 1" by simp
    then show "inverse_tab (set_inverse 1 1 (set_inverse 0 0 ?t4)) ! j
        = gf_exp (set_inverse 1 1 (set_inverse 0 0 ?t4)) ! (GF_SIZE - gf_log (set_inverse 1 1 (set_inverse 0 0 ?t4)) ! j)"
      using one len by simp
  qed (use dup len in simp_all)
  then have "gf_inv_inv 256 (for_range 2 256 gf_inv_step (set_inverse 1 1 (set_inverse 0 0 ?t4)))"
    by (intro for_range_invariant [where P = gf_inv_inv]) (simp_all add: inv_step)
  moreover have "generate_gf gf_tables_static = for_range 2 256 gf_inv_step (set_inverse 1 1 (set_inverse 0 0 ?t4))"
    using 1 by (simp add: generate_gf_def t2_def t3_def allPp_def GF_BITS_def Let_def)
  ultimately show ?thesis by simp
qed
section \<open>The tables after initialisation\<close>

lemma fec_ready_tabs: "gf_tabs fec_ready = generate_gf gf_tables_static"
  by (simp add: fec_ready_def init_fec_def fec_globals_static_def Let_def)

lemma fec_ready_mul: "gf_mul_table fec_ready = init_mul_table (generate_gf gf_tables_static)
    (replicate 256 (replicate 256 0))"
  by (simp add: fec_ready_def init_fec_def fec_globals_static_def Let_def)

definition gf_dlog :: "u8 \<Rightarrow> nat" where
  "gf_dlog x = gf_log (gf_tabs fec_ready) ! unat x"

lemma gf_exp_at_alpha: "i < 510 \<Longrightarrow> gf_exp_at i = alpha i"
proof -
  assume i: "i < 510"
  have "gf_dup_inv 255 (gf_tabs fec_ready)"
    using generate_gf_static by (simp add: gf_inv_inv_def fec_ready_tabs)
  then have lo: "i < 255 \<Longrightarrow> gf_exp_at i = alpha i"
    and hi: "\<And>j. j < 255 \<Longrightarrow> gf_exp_at (j + 255) = alpha j"
    by (simp_all add: gf_dup_inv_def tables_upto_def gf_exp_at_def)
  show ?thesis
  proof (cases "i < 255")
    case False
    then show ?thesis using hi [of "i - 255"] i alpha_add_255 [of "i - 255"] by simp
  qed (rule lo)
qed

lemma gf_dlog_alpha: "i < 255 \<Longrightarrow> gf_dlog (alpha i) = i"
  using generate_gf_static
  by (simp add: gf_inv_inv_def gf_dup_inv_def tables_upto_def gf_dlog_def fec_ready_tabs)

lemma gf_dlog_zero: "gf_dlog 0 = 255"
  using generate_gf_static
  by (simp add: gf_inv_inv_def gf_dup_inv_def gf_dlog_def fec_ready_tabs)

lemma alpha_dlog: "x \<noteq> 0 \<Longrightarrow> gf_dlog x < 255 \<and> alpha (gf_dlog x) = x"
  using alpha_onto [of x] gf_dlog_alpha by auto

lemma gf_inverse_alpha:
  assumes "x \<noteq> 0" shows "gf_inverse x = alpha (255 - gf_dlog x)"
proof -
  have "1 \<le> unat x" using assms by (simp add: unat_gt_0 Suc_le_eq)
  then have "gf_inverse x = gf_exp_at (255 - gf_dlog x)"
    using generate_gf_static unat_u8_less [of x]
    by (simp add: gf_inv_inv_def gf_inverse_def gf_exp_at_def gf_dlog_def fec_ready_tabs)
  then show ?thesis by (simp add: gf_exp_at_alpha)
qed

lemma gf_inverse_zero [simp]: "gf_inverse 0 = 0"
  using generate_gf_static by (simp add: gf_inv_inv_def gf_inverse_def fec_ready_tabs)

text \<open>The multiplication table.\<close>

definition square256 :: "u8 list list \<Rightarrow> bool" where
  "square256 m \<longleftrightarrow> length m = 256 \<and> (\<forall>a<256. length (m ! a) = 256)"

lemma mul_fill_row:
  assumes "square256 m" "i < 256"
  shows "square256 (for_range 0 256 (mul_fill_cell t i) m)
    \<and> (\<forall>b<256. for_range 0 256 (mul_fill_cell t i) m ! i ! b = gf_exp t ! modnn (gf_log t ! i + gf_log t ! b))
    \<and> (\<forall>a<256. a \<noteq> i \<longrightarrow> for_range 0 256 (mul_fill_cell t i) m ! a = m ! a)"
  (is "?Q (for_range 0 256 _ m)")
proof -
  let ?P = "\<lambda>j n. square256 n \<and> (\<forall>b<j. n ! i ! b = gf_exp t ! modnn (gf_log t ! i + gf_log t ! b))
    \<and> (\<forall>a<256. a \<noteq> i \<longrightarrow> n ! a = m ! a)"
  have "?P 256 (for_range 0 256 (mul_fill_cell t i) m)"
  proof (rule for_range_invariant [where P = ?P])
    fix j n assume "j < 256" "?P j n"
    then show "?P (Suc j) (mul_fill_cell t i j n)"
      using assms(2) by (auto simp: mul_fill_cell_def square256_def less_Suc_eq nth_list_update)
  qed (use assms in simp_all)
  then show ?thesis .
qed

lemma mul_fill_all:
  assumes "square256 m"
  shows "square256 (for_range 0 256 (\<lambda>i. for_range 0 256 (mul_fill_cell t i)) m)
    \<and> (\<forall>a<256. \<forall>b<256. for_range 0 256 (\<lambda>i. for_range 0 256 (mul_fill_cell t i)) m ! a ! b
         = gf_exp t ! modnn (gf_log t ! a + gf_log t ! b))"
proof -
  let ?P = "\<lambda>i n. square256 n \<and> (\<forall>a<i. \<forall>b<256. n ! a ! b = gf_exp t ! modnn (gf_log t ! a + gf_log t ! b))"
  have "?P 256 (for_range 0 256 (\<lambda>i. for_range 0 256 (mul_fill_cell t i)) m)"
  proof (rule for_range_invariant [where P = ?P])
    fix i n assume i: "i < 256" and P: "?P i n"
    note row = mul_fill_row [of n i t]
    let ?n = "for_range 0 256 (mul_fill_cell t i) n"
    have "?n ! a ! b = gf_exp t ! modnn (gf_log t ! a + gf_log t ! b)" if "a < Suc i" "b < 256" for a b
    proof (cases "a = i")
      case True
      show ?thesis using row P i that(2) unfolding True by blast
    next
      case False
      with that i have a: "a < i" "a < 256" by simp_all
      then have "?n ! a = n ! a" using row P i False by blast
      with a P that(2) show ?thesis by simp
    qed
    moreover have "square256 ?n" using row P i by blast
    ultimately show "?P (Suc i) ?n" by blast
  qed (use assms in simp_all)
  then show ?thesis .
qed

lemma mul_zero_cell_nth:
  assumes "square256 n" "j < 256" "a < 256" "b < 256"
  shows "mul_zero_cell j n ! a ! b = (if a = 0 \<and> b = j \<or> b = 0 \<and> a = j then 0 else n ! a ! b)"
  using assms by (cases "a = 0"; cases "j = 0"; cases "a = j")
    (simp_all add: mul_zero_cell_def square256_def Let_def nth_list_update)

lemma mul_zero_cell_square: "square256 n \<Longrightarrow> j < 256 \<Longrightarrow> square256 (mul_zero_cell j n)"
  by (auto simp: mul_zero_cell_def square256_def Let_def nth_list_update)

lemma mul_zero_all:
  assumes "square256 m"
  shows "\<forall>a<256. \<forall>b<256. for_range 0 256 mul_zero_cell m ! a ! b = (if a = 0 \<or> b = 0 then 0 else m ! a ! b)"
proof -
  let ?P = "\<lambda>j n. square256 n \<and> (\<forall>a<256. \<forall>b<256. n ! a ! b
     = (if a = 0 \<and> b < j \<or> b = 0 \<and> a < j then 0 else m ! a ! b))"
  have "?P 256 (for_range 0 256 mul_zero_cell m)"
  proof (rule for_range_invariant [where P = ?P])
    fix j n assume j: "j < 256" and P: "?P j n"
    have "mul_zero_cell j n ! a ! b = (if a = 0 \<and> b < Suc j \<or> b = 0 \<and> a < Suc j then 0 else m ! a ! b)"
      if "a < 256" "b < 256" for a b
      using P that mul_zero_cell_nth [of n j a b] j by (simp add: less_Suc_eq)
    then show "?P (Suc j) (mul_zero_cell j n)"
      using P j mul_zero_cell_square by blast
  qed (use assms in simp_all)
  then show ?thesis by auto
qed

lemma gf_mul_alt:
  "gf_mul x y = (if x = 0 \<or> y = 0 then 0 else alpha ((gf_dlog x + gf_dlog y) mod 255))"
proof -
  let ?t = "generate_gf gf_tables_static"
  let ?m = "replicate 256 (replicate 256 (0 :: u8))"
  have sq: "square256 ?m" by (simp add: square256_def)
  note fill = mul_fill_all [OF sq, of ?t]
  then have "gf_mul x y = (if unat x = 0 \<or> unat y = 0 then 0
      else gf_exp ?t ! modnn (gf_log ?t ! unat x + gf_log ?t ! unat y))"
    using mul_zero_all [of "for_range 0 256 (\<lambda>i. for_range 0 256 (mul_fill_cell ?t i)) ?m"]
      unat_u8_less [of x] unat_u8_less [of y]
    unfolding gf_mul_def fec_ready_mul init_mul_table_def Let_def by (simp)
  also have "gf_exp ?t ! modnn (gf_log ?t ! unat x + gf_log ?t ! unat y)
      = gf_exp_at ((gf_dlog x + gf_dlog y) mod 255)"
    by (simp add: gf_exp_at_def gf_dlog_def fec_ready_tabs modnn_eq_mod)
  finally show ?thesis
    by (simp add: gf_exp_at_alpha unat_eq_0 less_trans [OF mod_less_divisor [of 255]])
qed
section \<open>The field laws\<close>

text \<open>Multiplication by a fixed factor is an iterated shift, hence linear.\<close>

lemma xtime_pow_alpha: "(xtime ^^ n) (alpha m) = alpha (n + m)"
  by (induction n) simp_all

lemma xtime_zero [simp]: "xtime 0 = 0"
  using xtime_xor [of 0 0] by simp

lemma xtime_pow_zero: "(xtime ^^ n) 0 = 0"
  by (induction n) simp_all

lemma xtime_pow_xor: "(xtime ^^ n) (a XOR b) = (xtime ^^ n) a XOR (xtime ^^ n) b"
  by (induction n) (simp_all add: xtime_xor)

lemma gf_mul_xtime: "x \<noteq> 0 \<Longrightarrow> gf_mul x y = (xtime ^^ gf_dlog x) y"
proof (cases "y = 0")
  case False
  assume "x \<noteq> 0"
  then have "gf_mul x y = alpha (gf_dlog x + gf_dlog y)"
    using False by (simp add: gf_mul_alt alpha_mod)
  also have "\<dots> = (xtime ^^ gf_dlog x) y"
    using alpha_dlog [OF False] xtime_pow_alpha [of "gf_dlog x" "gf_dlog y"] by simp
  finally show ?thesis .
qed (simp add: gf_mul_alt xtime_pow_zero)

text \<open>
  What the coding routines need of the byte arithmetic: with exclusive or as addition, a
  multiplication and an inversion that make the bytes a field.
\<close>

locale byte_field =
  fixes mul :: "u8 \<Rightarrow> u8 \<Rightarrow> u8" and inv :: "u8 \<Rightarrow> u8"
  assumes mul_assoc: "mul (mul a b) c = mul a (mul b c)"
    and mul_commute: "mul a b = mul b a"
    and mul_one: "mul 1 a = a"
    and mul_xor: "mul a (b XOR c) = mul a b XOR mul a c"
    and mul_inv: "a \<noteq> 0 \<Longrightarrow> mul (inv a) a = 1"
    and inv_zero: "inv 0 = 0"
begin

lemma xor_mul: "mul (a XOR b) c = mul a c XOR mul b c"
  by (simp add: mul_commute [of _ c] mul_xor)

lemma mul_zero: "mul a 0 = 0"
  using mul_xor [of a 0 0] by simp

lemma mul_eq_zero: "mul a b = 0 \<longleftrightarrow> a = 0 \<or> b = 0"
proof
  assume 0: "mul a b = 0"
  show "a = 0 \<or> b = 0"
  proof (rule ccontr)
    assume nz: "\<not> (a = 0 \<or> b = 0)"
    have "b = mul (mul (inv a) a) b" using nz by (simp add: mul_inv mul_one)
    also have "\<dots> = mul (inv a) (mul a b)" by (rule mul_assoc)
    also have "\<dots> = 0" by (simp add: 0 mul_zero)
    finally show False using nz by simp
  qed
qed (auto simp: mul_zero mul_commute [of 0])

lemma mul_left_cancel: "a \<noteq> 0 \<Longrightarrow> mul a b = mul a c \<Longrightarrow> b = c"
  by (metis mul_assoc mul_inv mul_one)

lemma inv_unique: "mul b a = 1 \<Longrightarrow> inv a = b"
  by (metis mul_commute mul_eq_zero mul_inv mul_left_cancel zero_neq_one)

end

lemma gf_dlog_mul:
  assumes "x \<noteq> 0" "y \<noteq> 0"
  shows "gf_mul x y \<noteq> 0" and "gf_dlog (gf_mul x y) = (gf_dlog x + gf_dlog y) mod 255"
  using assms by (simp_all add: gf_mul_alt alpha_nonzero gf_dlog_alpha)

lemma gf_mul_assoc: "gf_mul (gf_mul a b) c = gf_mul a (gf_mul b c)"
proof (cases "a = 0 \<or> b = 0 \<or> c = 0")
  case True
  then show ?thesis by (auto simp: gf_mul_alt)
next
  case False
  then show ?thesis
    by (simp add: gf_mul_alt [of "gf_mul a b"] gf_mul_alt [of a "gf_mul b c"] gf_dlog_mul
        mod_add_left_eq mod_add_right_eq add.assoc)
qed

lemma gf_dlog_one: "gf_dlog 1 = 0"
  using gf_dlog_alpha [of 0] by simp

lemma gf_mul_one: "gf_mul 1 a = a"
  using alpha_dlog [of a] by (auto simp: gf_mul_alt gf_dlog_one)

lemma gf_mul_inverse:
  assumes "a \<noteq> 0" shows "gf_mul (gf_inverse a) a = 1"
proof -
  have d: "gf_dlog a < 255" using alpha_dlog [OF assms] by simp
  have "gf_dlog (gf_inverse a) = (255 - gf_dlog a) mod 255"
    using gf_inverse_alpha [OF assms] alpha_mod [of "255 - gf_dlog a"]
      gf_dlog_alpha [of "(255 - gf_dlog a) mod 255"] by simp
  then have "gf_mul (gf_inverse a) a = alpha ((255 - gf_dlog a + gf_dlog a) mod 255)"
    using assms gf_inverse_alpha [OF assms] alpha_nonzero
    by (simp add: gf_mul_alt mod_add_left_eq)
  then show ?thesis using d by simp
qed

interpretation gf_bytes: byte_field gf_mul gf_inverse
proof unfold_locales
  fix a b c :: u8
  show "gf_mul a b = gf_mul b a"
    by (simp add: gf_mul_alt add.commute)
  show "gf_mul a (b XOR c) = gf_mul a b XOR gf_mul a c"
    by (cases "a = 0") (simp_all add: gf_mul_xtime xtime_pow_xor, simp add: gf_mul_alt)
qed (simp_all add: gf_mul_assoc gf_mul_one gf_mul_inverse)

section \<open>Field elements\<close>

text \<open>
  The C type \<open>gf\<close>. Its arithmetic operators are the code's: \<open>+\<close> is \<open>^\<close> (exclusive or), \<open>*\<close>
  is the table lookup \<open>gf_mul\<close>, \<^const>\<open>inverse\<close> the table \<open>inverse[]\<close>. Subtraction, which
  the code never writes, coincides with addition.
\<close>

datatype gf = GF (gf_byte: u8)

lemma gf_eq_iff: "x = y \<longleftrightarrow> gf_byte x = gf_byte y"
  by (cases x; cases y) simp

instantiation gf :: field
begin

definition zero_gf :: gf where "0 = GF 0"
definition one_gf :: gf where "1 = GF 1"
definition plus_gf :: "gf \<Rightarrow> gf \<Rightarrow> gf" where "x + y = GF (gf_byte x XOR gf_byte y)"
definition uminus_gf :: "gf \<Rightarrow> gf" where "- x = (x :: gf)"
definition minus_gf :: "gf \<Rightarrow> gf \<Rightarrow> gf" where "x - y = GF (gf_byte x XOR gf_byte y)"
definition times_gf :: "gf \<Rightarrow> gf \<Rightarrow> gf" where "x * y = GF (gf_mul (gf_byte x) (gf_byte y))"
definition inverse_gf :: "gf \<Rightarrow> gf" where "inverse x = GF (gf_inverse (gf_byte x))"
definition divide_gf :: "gf \<Rightarrow> gf \<Rightarrow> gf" where "x div y = x * inverse (y :: gf)"

lemmas gf_ops = zero_gf_def one_gf_def plus_gf_def uminus_gf_def minus_gf_def times_gf_def
  inverse_gf_def divide_gf_def

instance
proof
  fix a b c :: gf
  show "a * b * c = a * (b * c)" by (simp add: gf_ops gf_bytes.mul_assoc)
  show "a * b = b * a" by (simp add: gf_ops gf_bytes.mul_commute)
  show "1 * a = a" by (simp add: gf_ops gf_bytes.mul_one)
  show "(a + b) * c = a * c + b * c" by (simp add: gf_ops gf_bytes.xor_mul)
  show "a + b + c = a + (b + c)" by (simp add: gf_ops xor.assoc)
  show "a + b = b + a" by (simp add: gf_ops xor.commute)
  show "a \<noteq> 0 \<Longrightarrow> inverse a * a = 1"
    by (cases a) (simp add: gf_ops gf_bytes.mul_inv)
  show "inverse (0 :: gf) = 0" by (simp add: gf_ops gf_bytes.inv_zero)
qed (simp_all add: gf_ops)

end

lemma gf_add_self [simp]: "x + x = (0 :: gf)"
  by (simp add: gf_ops)

lemma gf_minus_eq_plus [simp]: "x - y = x + (y :: gf)"
  by (simp add: gf_ops)

lemma gf_uminus [simp]: "- x = (x :: gf)"
  by (simp add: uminus_gf_def)
end
