(* ===== verification/Gf_Linear.thy ===== *)
theory Gf_Linear
  imports GF256
begin

text \<open>
  Linear algebra over the field \<^typ>\<open>gf\<close> that the matrix routines of \<open>src/fec.cc\<close> rest on,
  free of any code: the exchange step behind the in-place Gauss-Jordan elimination, and
  polynomials as coefficient lists (synthetic division, the root bound) behind the
  Vandermonde inversion.
\<close>

section \<open>Transpositions\<close>

definition swp :: "nat \<Rightarrow> nat \<Rightarrow> nat \<Rightarrow> nat" where
  "swp a b j = (if j = a then b else if j = b then a else j)"

lemma swp_swp [simp]: "swp a b (swp a b j) = j"
  by (simp add: swp_def)

lemma swp_same [simp]: "swp a a = id"
  by (auto simp: swp_def)

lemma swp_less: "a < k \<Longrightarrow> b < k \<Longrightarrow> swp a b j < k \<longleftrightarrow> j < k"
  by (auto simp: swp_def)

lemma bij_swp: "a < k \<Longrightarrow> b < k \<Longrightarrow> bij_betw (swp a b) {..<k} {..<k}"
  by (rule bij_betw_byWitness [where f' = "swp a b"]) (auto simp: swp_less)

lemma sum_swp:
  fixes f :: "nat \<Rightarrow> 'a :: comm_monoid_add"
  assumes "a < k" "b < k"
  shows "(\<Sum>j<k. f (swp a b j)) = (\<Sum>j<k. f j)"
  using sum.reindex_bij_betw [OF bij_swp [OF assms], of f] .

lemma all_swp: "a < k \<Longrightarrow> b < k \<Longrightarrow> (\<forall>i<k. P (swp a b i)) \<longleftrightarrow> (\<forall>i<k. P i)"
  by (metis swp_less swp_swp)

section \<open>Linear maps and the exchange step\<close>

definition lin :: "nat \<Rightarrow> (nat \<Rightarrow> nat \<Rightarrow> gf) \<Rightarrow> (nat \<Rightarrow> gf) \<Rightarrow> nat \<Rightarrow> gf" where
  "lin k M u i = (\<Sum>j<k. M i j * u j)"

lemma lin_cong: "(\<And>j. j < k \<Longrightarrow> M i j = N i j) \<Longrightarrow> (\<And>j. j < k \<Longrightarrow> u j = v j) \<Longrightarrow> lin k M u i = lin k N v i"
  by (simp add: lin_def)

text \<open>
  In the course of the elimination the columns in \<open>P\<close> have been pivoted: for them the roles
  of input and output are exchanged. \<open>p\<close> is the row permutation done so far. The current
  matrix \<open>M\<close> maps the mixed inputs to the mixed outputs exactly when \<open>y = A x\<close>.
\<close>

definition mixed_in :: "nat set \<Rightarrow> (nat \<Rightarrow> nat) \<Rightarrow> (nat \<Rightarrow> gf) \<Rightarrow> (nat \<Rightarrow> gf) \<Rightarrow> nat \<Rightarrow> gf" where
  "mixed_in P p x y j = (if j \<in> P then y (p j) else x j)"

definition mixed_out :: "nat set \<Rightarrow> (nat \<Rightarrow> nat) \<Rightarrow> (nat \<Rightarrow> gf) \<Rightarrow> (nat \<Rightarrow> gf) \<Rightarrow> nat \<Rightarrow> gf" where
  "mixed_out P p x y j = (if j \<in> P then x j else y (p j))"

definition exchanged :: "nat \<Rightarrow> (nat \<Rightarrow> nat \<Rightarrow> gf) \<Rightarrow> nat set \<Rightarrow> (nat \<Rightarrow> nat) \<Rightarrow> (nat \<Rightarrow> nat \<Rightarrow> gf) \<Rightarrow> bool" where
  "exchanged k A P p M \<longleftrightarrow>
     (\<forall>x y. (\<forall>i<k. y i = lin k A x i) \<longleftrightarrow>
            (\<forall>i<k. mixed_out P p x y i = lin k M (mixed_in P p x y) i))"

lemma exchanged_start: "exchanged k A {} id A"
  by (simp add: exchanged_def mixed_in_def mixed_out_def lin_def)

lemma exchanged_cong:
  "exchanged k A P p M \<Longrightarrow> (\<And>i j. i < k \<Longrightarrow> j < k \<Longrightarrow> N i j = M i j) \<Longrightarrow> exchanged k A P p N"
  by (simp add: exchanged_def lin_def)

text \<open>Swapping two rows that are not yet pivoted.\<close>

lemma exchanged_swap:
  assumes ex: "exchanged k A P p M" and "a < k" "b < k" "a \<notin> P" "b \<notin> P"
  shows "exchanged k A P (p \<circ> swp a b) (\<lambda>i. M (swp a b i))"
proof -
  have "mixed_in P (p \<circ> swp a b) x y = mixed_in P p x y" for x y
    using assms(4,5) by (auto simp: mixed_in_def swp_def)
  moreover have "mixed_out P (p \<circ> swp a b) x y i = mixed_out P p x y (swp a b i)" for x y i
    using assms(4,5) by (auto simp: mixed_out_def swp_def)
  moreover have "lin k (\<lambda>i. M (swp a b i)) u i = lin k M u (swp a b i)" for u i
    by (simp add: lin_def)
  moreover have "(\<forall>i<k. mixed_out P p x y (swp a b i) = lin k M (mixed_in P p x y) (swp a b i))
      \<longleftrightarrow> (\<forall>i<k. mixed_out P p x y i = lin k M (mixed_in P p x y) i)" for x y
    using all_swp [OF assms(2,3)] .
  ultimately show ?thesis
    using ex by (simp add: exchanged_def)
qed

text \<open>One pivot: the matrix the code leaves behind after scaling and eliminating.\<close>

definition pivoted :: "nat \<Rightarrow> (nat \<Rightarrow> nat \<Rightarrow> gf) \<Rightarrow> nat \<Rightarrow> nat \<Rightarrow> gf" where
  "pivoted c M i j =
     (let row = (\<lambda>j. inverse (M c c) * (if j = c then 1 else M c j))
      in if i = c then row j else (if j = c then 0 else M i j) + M i c * row j)"

lemma sum_split_at:
  fixes f :: "nat \<Rightarrow> 'a :: comm_monoid_add"
  shows "c < k \<Longrightarrow> (\<Sum>j<k. f j) = f c + (\<Sum>j\<in>{..<k} - {c}. f j)"
  by (simp add: sum.remove)

lemma gf_add_swap: "(a :: gf) = b + d \<longleftrightarrow> b = a + d"
  by (metis add.assoc gf_add_self add.right_neutral)

lemma exchange_equations:
  assumes c: "c < k" and nz: "M c c \<noteq> 0"
  shows "(\<forall>i<k. v i = lin k M u i)
     \<longleftrightarrow> (\<forall>i<k. (v(c := u c)) i = lin k (pivoted c M) (u(c := v c)) i)"
proof -
  let ?S = "{..<k} - {c}"
  let ?N = "pivoted c M"
  define R where "R i = (\<Sum>j\<in>?S. M i j * u j)" for i
  have old: "lin k M u i = M i c * u c + R i" for i
    unfolding lin_def R_def by (rule sum_split_at [OF c])
  have newc: "lin k ?N (u(c := v c)) c = inverse (M c c) * (v c + R c)"
  proof -
    have "(\<Sum>j\<in>?S. ?N c j * (u(c := v c)) j) = inverse (M c c) * R c"
      unfolding R_def sum_distrib_left by (rule sum.cong) (auto simp: pivoted_def mult.assoc)
    then show ?thesis
      unfolding lin_def sum_split_at [OF c] by (simp add: pivoted_def distrib_left)
  qed
  have new: "lin k ?N (u(c := v c)) i = R i + M i c * lin k ?N (u(c := v c)) c" if "i \<noteq> c" for i
  proof -
    have "(\<Sum>j\<in>?S. ?N i j * (u(c := v c)) j) = (\<Sum>j\<in>?S. M i j * u j + M i c * (?N c j * (u(c := v c)) j))"
      using that by (intro sum.cong) (auto simp: pivoted_def Let_def algebra_simps)
    also have "\<dots> = R i + M i c * (\<Sum>j\<in>?S. ?N c j * (u(c := v c)) j)"
      by (simp add: R_def sum.distrib sum_distrib_left)
    finally show ?thesis
      using that unfolding lin_def sum_split_at [OF c]
      by (simp add: pivoted_def Let_def algebra_simps)
  qed
  have pivot_row: "v c = M c c * u c + R c \<longleftrightarrow> u c = inverse (M c c) * (v c + R c)"
  proof -
    have "v c = M c c * u c + R c \<longleftrightarrow> M c c * u c = v c + R c"
      by (rule gf_add_swap)
    also have "\<dots> \<longleftrightarrow> u c = inverse (M c c) * (v c + R c)"
      using nz by (auto simp: field_simps)
    finally show ?thesis .
  qed
  let ?w = "lin k ?N (u(c := v c))"
  have "(\<forall>i<k. v i = lin k M u i) \<longleftrightarrow> u c = ?w c \<and> (\<forall>i<k. i \<noteq> c \<longrightarrow> v i = lin k M u i)"
    using c old [of c] pivot_row newc by metis
  also have "\<dots> \<longleftrightarrow> u c = ?w c \<and> (\<forall>i<k. i \<noteq> c \<longrightarrow> v i = ?w i)"
    using old new by (metis add.commute)
  also have "\<dots> \<longleftrightarrow> (\<forall>i<k. (v(c := u c)) i = ?w i)"
    using c by auto
  finally show ?thesis .
qed

lemma exchanged_pivot:
  assumes ex: "exchanged k A P p M" and "c < k" "c \<notin> P" "M c c \<noteq> 0"
  shows "exchanged k A (insert c P) p (pivoted c M)"
proof -
  have "mixed_in (insert c P) p x y = (mixed_in P p x y)(c := mixed_out P p x y c)"
    and "mixed_out (insert c P) p x y = (mixed_out P p x y)(c := mixed_in P p x y c)" for x y
    using assms(3) by (auto simp: mixed_in_def mixed_out_def)
  then show ?thesis
    using ex exchange_equations [of c k M, OF assms(2,4)] by (simp add: exchanged_def)
qed

text \<open>
  If every unpivoted row is zero in every unpivoted column, the matrix is singular: it
  kills a vector that is not zero.
\<close>

definition kills :: "nat \<Rightarrow> (nat \<Rightarrow> nat \<Rightarrow> gf) \<Rightarrow> (nat \<Rightarrow> gf) \<Rightarrow> bool" where
  "kills k A x \<longleftrightarrow> (\<forall>i<k. lin k A x i = 0)"

definition singular :: "nat \<Rightarrow> (nat \<Rightarrow> nat \<Rightarrow> gf) \<Rightarrow> bool" where
  "singular k A \<longleftrightarrow> (\<exists>x. kills k A x \<and> (\<exists>j<k. x j \<noteq> 0))"

lemma exchanged_stuck:
  assumes ex: "exchanged k A P p M" and bij: "bij_betw p {..<k} {..<k}"
    and j0: "j0 < k" "j0 \<notin> P"
    and zero: "\<And>i j. i < k \<Longrightarrow> j < k \<Longrightarrow> i \<notin> P \<Longrightarrow> j \<notin> P \<Longrightarrow> M i j = 0"
  shows "singular k A"
proof -
  define x where "x j = (if j \<in> P then M j j0 else if j = j0 then 1 else 0)" for j
  have in_eq: "mixed_in P p x (\<lambda>_. 0) = (\<lambda>j. if j = j0 then 1 else 0)"
    using j0 by (auto simp: mixed_in_def x_def)
  have "mixed_out P p x (\<lambda>_. 0) i = lin k M (mixed_in P p x (\<lambda>_. 0)) i" if "i < k" for i
    using that j0 zero [of i j0]
    by (simp add: in_eq lin_def if_distrib [of "\<lambda>z. _ * z"] mixed_out_def x_def cong: if_cong)
  then have "\<forall>i<k. 0 = lin k A x i"
    using ex unfolding exchanged_def by metis
  then have "kills k A x" by (simp add: kills_def)
  moreover have "x j0 \<noteq> 0" using j0 by (simp add: x_def)
  ultimately show ?thesis using j0 unfolding singular_def by blast
qed

text \<open>When every column is pivoted the matrix is the inverse up to the column order.\<close>

lemma exchanged_finish:
  assumes "exchanged k A {..<k} p M"
  shows "(\<forall>i<k. y i = lin k A x i) \<longleftrightarrow> (\<forall>i<k. x i = (\<Sum>j<k. M i j * y (p j)))"
proof -
  have "lin k M (mixed_in {..<k} p x y) i = (\<Sum>j<k. M i j * y (p j))" for i
    by (simp add: lin_def mixed_in_def)
  then show ?thesis
    using assms by (simp add: exchanged_def mixed_out_def)
qed

section \<open>Polynomials as coefficient lists\<close>

fun horner :: "gf list \<Rightarrow> gf \<Rightarrow> gf" where
  "horner [] x = 0"
| "horner (a # as) x = a + x * horner as x"

lemma horner_sum: "horner as x = (\<Sum>j<length as. as ! j * x ^ j)"
proof (induction as)
  case (Cons a as)
  have "(\<Sum>j<length (a # as). (a # as) ! j * x ^ j) = a + (\<Sum>j<length as. as ! j * x ^ Suc j)"
    by (simp only: list.size sum.lessThan_Suc_shift add_0_right add_Suc_right) simp
  also have "(\<Sum>j<length as. as ! j * x ^ Suc j) = x * horner as x"
    by (simp add: Cons.IH sum_distrib_left mult.left_commute)
  finally show ?case by simp
qed simp

lemma horner_append: "horner (as @ bs) x = horner as x + x ^ length as * horner bs x"
  by (induction as) (simp_all add: algebra_simps)

lemma horner_zeros: "horner (replicate m 0) x = 0"
  by (induction m) simp_all

text \<open>Quotient of the division by \<open>x - r\<close>; the remainder is the value at \<open>r\<close>.\<close>

fun quot :: "gf list \<Rightarrow> gf \<Rightarrow> gf list" where
  "quot [] r = []"
| "quot [a] r = []"
| "quot (a # b # as) r = horner (b # as) r # quot (b # as) r"

lemma length_quot: "length (quot as r) = length as - 1"
  by (induction as r rule: quot.induct) simp_all

lemma quot_nth: "j + 1 < length as \<Longrightarrow> quot as r ! j = horner (drop (j + 1) as) r"
  by (induction as r arbitrary: j rule: quot.induct) (auto simp: nth_Cons split: nat.splits)

lemma horner_quot: "horner as x = horner as r + (x + r) * horner (quot as r) x"
proof (induction as r rule: quot.induct)
  case (3 a b as r)
  let ?h = "horner (b # as)"
  have IH: "?h x = ?h r + (x + r) * horner (quot (b # as) r) x" by (rule "3.IH")
  have cancel: "x * z = r * z + (x + r) * z" for z :: gf
    by (metis (no_types, opaque_lifting) add.assoc add.commute add.right_neutral distrib_right gf_add_self)
  have "horner (a # b # as) x = a + x * (?h r + (x + r) * horner (quot (b # as) r) x)"
    using IH by simp
  also have "\<dots> = a + (r * ?h r + (x + r) * ?h r) + (x + r) * (x * horner (quot (b # as) r) x)"
    using cancel [of "?h r"] by (simp add: distrib_left mult.left_commute add.assoc)
  finally show ?case
    by (simp add: distrib_left add.assoc del: horner.simps(2)) (simp add: algebra_simps)
qed (simp_all)

lemma quot_zero: "set (quot as r) \<subseteq> {0} \<Longrightarrow> horner as r = 0 \<Longrightarrow> set as \<subseteq> {0}"
  by (induction as r rule: quot.induct) auto

theorem root_bound:
  assumes "finite R" "length as \<le> card R" "\<And>r. r \<in> R \<Longrightarrow> horner as r = 0"
  shows "set as \<subseteq> {0}"
  using assms
proof (induction "length as" arbitrary: as R)
  case (Suc n)
  then obtain r where r: "r \<in> R" by (metis card.empty ex_in_conv le_zero_eq nat.distinct(1))
  have "set (quot as r) \<subseteq> {0}"
  proof (rule Suc.hyps(1) [of _ "R - {r}"])
    show "n = length (quot as r)" using Suc.hyps(2) by (simp add: length_quot)
    then show "length (quot as r) \<le> card (R - {r})" using Suc.hyps(2) Suc.prems r by simp
    fix z assume z: "z \<in> R - {r}"
    then have "(z + r) * horner (quot as r) z = 0"
      using horner_quot [of as z r] Suc.prems(3) r by simp
    moreover have "z + r \<noteq> 0" using z gf_add_swap [of 0 z r] by auto
    ultimately show "horner (quot as r) z = 0" by simp
  qed (use Suc.prems in auto)
  then show ?case using quot_zero Suc.prems(3) [OF r] by blast
qed simp

end
