(* ===== verification/Fec_Matrix.thy ===== *)
theory Fec_Matrix
  imports Gf_Linear
begin

text \<open>
  The linear algebra routines of \<open>src/fec.cc\<close> on flat, row-major \<open>gf\<close> arrays: \<open>addmul1\<close>,
  \<open>matmul\<close>, \<open>invert_mat\<close> (in-place Gauss-Jordan elimination) and \<open>invert_vdm\<close> (inversion of
  a Vandermonde matrix), each translated loop by loop.
\<close>

section \<open>addmul1: add a multiple of a packet\<close>

definition UNROLL :: nat where "UNROLL = 16"

text \<open>\<open>GF_ADDMULC(dst[i], src[i])\<close> with the multiplier \<open>c\<close> selected by \<open>GF_MULC0(c)\<close>.\<close>

definition gf_addmulc :: "gf \<Rightarrow> gf list \<Rightarrow> nat \<Rightarrow> gf list \<Rightarrow> gf list" where
  "gf_addmulc c src i dst = dst[i := dst ! i + c * src ! i]"

text \<open>
  The unrolled loop: \<open>dst < lim\<close> with \<open>lim = dst1 + (sz - UNROLL + 1)\<close>, sixteen updates a
  round; \<open>pos\<close> is the offset of the moving pointers.
\<close>

function addmul_blocks :: "gf \<Rightarrow> gf list \<Rightarrow> nat \<Rightarrow> nat \<Rightarrow> gf list \<Rightarrow> nat \<times> gf list" where
  "addmul_blocks c src sz pos dst =
     (if int pos < int sz - int UNROLL + 1
      then addmul_blocks c src sz (pos + UNROLL)
             (gf_addmulc c src (pos + 15) (gf_addmulc c src (pos + 14)
             (gf_addmulc c src (pos + 13) (gf_addmulc c src (pos + 12)
             (gf_addmulc c src (pos + 11) (gf_addmulc c src (pos + 10)
             (gf_addmulc c src (pos + 9) (gf_addmulc c src (pos + 8)
             (gf_addmulc c src (pos + 7) (gf_addmulc c src (pos + 6)
             (gf_addmulc c src (pos + 5) (gf_addmulc c src (pos + 4)
             (gf_addmulc c src (pos + 3) (gf_addmulc c src (pos + 2)
             (gf_addmulc c src (pos + 1) (gf_addmulc c src pos dst))))))))))))))))
      else (pos, dst))"
  by pat_completeness auto
termination
  by (relation "measure (\<lambda>(c, src, sz, pos, dst). sz - pos)") (auto simp: UNROLL_def)

declare addmul_blocks.simps [simp del]

definition addmul1 :: "gf list \<Rightarrow> gf list \<Rightarrow> gf \<Rightarrow> nat \<Rightarrow> gf list" where
  "addmul1 dst src c sz =
     (let (pos, dst) = addmul_blocks c src sz 0 dst
      in for_range pos sz (gf_addmulc c src) dst)"

text \<open>The macro \<open>addmul\<close> skips a zero multiplier.\<close>

definition addmul :: "gf list \<Rightarrow> gf list \<Rightarrow> gf \<Rightarrow> nat \<Rightarrow> gf list" where
  "addmul dst src c sz = (if c \<noteq> 0 then addmul1 dst src c sz else dst)"

text \<open>Both loops are one plain loop over the positions.\<close>

lemma length_gf_addmulc [simp]: "length (gf_addmulc c src i dst) = length dst"
  by (simp add: gf_addmulc_def)

lemma addmul_blocks_eq:
  "pos \<le> sz \<Longrightarrow> (case addmul_blocks c src sz pos dst of (p, d) \<Rightarrow> for_range p sz (gf_addmulc c src) d)
     = for_range pos sz (gf_addmulc c src) dst"
proof (induction c src sz pos dst rule: addmul_blocks.induct)
  case (1 c src sz pos dst)
  show ?case
  proof (cases "int pos < int sz - int UNROLL + 1")
    case True
    then have le: "pos + 16 \<le> sz" by (simp add: UNROLL_def)
    have "[pos..<sz] = [pos..<pos + 16] @ [pos + 16..<sz]"
      using upt_add_eq_append [of pos "pos + 16" "sz - (pos + 16)"] le by simp
    moreover have "[pos..<pos + 16] = [pos, pos + 1, pos + 2, pos + 3, pos + 4, pos + 5, pos + 6, pos + 7,
        pos + 8, pos + 9, pos + 10, pos + 11, pos + 12, pos + 13, pos + 14, pos + 15]"
      by (simp add: upt_rec numeral_eq_Suc)
    ultimately show ?thesis
      using True "1.IH" le by (subst addmul_blocks.simps) (simp add: UNROLL_def)
  next
    case False
    then show ?thesis by (subst addmul_blocks.simps) simp
  qed
qed

lemma addmul1_loop: "addmul1 dst src c sz = for_range 0 sz (gf_addmulc c src) dst"
  using addmul_blocks_eq [of 0 sz c src dst] by (simp add: addmul1_def)

lemma addmul_range_nth:
  assumes "sz \<le> length dst"
  shows "length (for_range 0 sz (gf_addmulc c src) dst) = length dst
    \<and> (\<forall>i<length dst. for_range 0 sz (gf_addmulc c src) dst ! i = (if i < sz then dst ! i + c * src ! i else dst ! i))"
  (is "?P sz (for_range 0 sz _ dst)")
proof -
  let ?Q = "\<lambda>m d. length d = length dst \<and> (\<forall>i<length dst. d ! i = (if i < m then dst ! i + c * src ! i else dst ! i))"
  have "?Q sz (for_range 0 sz (gf_addmulc c src) dst)"
  proof (rule for_range_invariant [where P = ?Q])
    fix i d assume "i < sz" "?Q i d"
    then show "?Q (Suc i) (gf_addmulc c src i d)"
      using assms by (auto simp: gf_addmulc_def nth_list_update less_Suc_eq)
  qed simp_all
  then show ?thesis .
qed

lemma length_addmul: "sz \<le> length dst \<Longrightarrow> length (addmul dst src c sz) = length dst"
  using addmul_range_nth [of sz dst c src] by (simp add: addmul_def addmul1_loop)

lemma addmul_nth:
  "sz \<le> length dst \<Longrightarrow> i < length dst \<Longrightarrow>
     addmul dst src c sz ! i = (if i < sz then dst ! i + c * src ! i else dst ! i)"
  using addmul_range_nth [of sz dst c src] by (simp add: addmul_def addmul1_loop)

section \<open>Row-major matrices\<close>

definition el :: "nat \<Rightarrow> gf list \<Rightarrow> nat \<Rightarrow> nat \<Rightarrow> gf" where
  "el k m r c = m ! (r * k + c)"

lemma flat_less: "r < n \<Longrightarrow> c < k \<Longrightarrow> r * k + c < n * (k :: nat)"
proof -
  assume "r < n" "c < k"
  then have "r * k + c < r * k + k" by simp
  also have "\<dots> = Suc r * k" by simp
  also have "\<dots> \<le> n * k" using \<open>r < n\<close> by (intro mult_le_mono1) simp
  finally show ?thesis .
qed

lemma flat_inj: "c < k \<Longrightarrow> c' < k \<Longrightarrow> r * k + c = r' * k + c' \<longleftrightarrow> r = r' \<and> c = (c' :: nat)"
  by (metis add.commute div_mult_self3 div_less less_nat_zero_code add.right_neutral mod_mult_self3 mod_less)

text \<open>\<open>acc ^= gf_mul(*pa, *pb)\<close> over the inner dimension, for every cell of the product.\<close>

definition matmul_cell :: "gf list \<Rightarrow> gf list \<Rightarrow> nat \<Rightarrow> nat \<Rightarrow> nat \<Rightarrow> nat \<Rightarrow> gf" where
  "matmul_cell a b k m row col = for_range 0 k (\<lambda>i acc. acc + a ! (row * k + i) * b ! (col + i * m)) 0"

definition matmul :: "gf list \<Rightarrow> gf list \<Rightarrow> gf list \<Rightarrow> nat \<Rightarrow> nat \<Rightarrow> nat \<Rightarrow> gf list" where
  "matmul a b c n k m =
     for_range 0 n (\<lambda>row. for_range 0 m (\<lambda>col c. c[row * m + col := matmul_cell a b k m row col])) c"

lemma for_range_sum: "for_range 0 k (\<lambda>i acc. acc + f i) (z :: gf) = z + (\<Sum>i<k. f i)"
  by (induction k) (simp_all add: add.assoc)

lemma matmul_cell_eq: "matmul_cell a b k m row col = (\<Sum>i<k. el k a row i * el m b i col)"
  unfolding matmul_cell_def for_range_sum el_def by (simp add: add.commute)

text \<open>Filling a matrix cell by cell.\<close>

lemma fill_row:
  assumes "length c = n * m" "row < n"
  shows "length (for_range 0 m (\<lambda>col c. c[row * m + col := f col]) c) = n * m
    \<and> (\<forall>r<n. \<forall>j<m. for_range 0 m (\<lambda>col c. c[row * m + col := f col]) c ! (r * m + j)
        = (if r = row then f j else c ! (r * m + j)))"
proof -
  let ?P = "\<lambda>i d. length d = n * m \<and> (\<forall>r<n. \<forall>j<m. d ! (r * m + j)
     = (if r = row \<and> j < i then f j else c ! (r * m + j)))"
  have "?P m (for_range 0 m (\<lambda>col c. c[row * m + col := f col]) c)"
  proof (rule for_range_invariant [where P = ?P])
    fix i d assume i: "i < m" and P: "?P i d"
    have "d[row * m + i := f i] ! (r * m + j) = (if r = row \<and> j < Suc i then f j else c ! (r * m + j))"
      if "r < n" "j < m" for r j
      using P that i flat_less [of r n j m] flat_inj [of i m j row r]
      by (auto simp: nth_list_update less_Suc_eq)
    then show "?P (Suc i) (d[row * m + i := f i])" using P by simp
  qed (use assms in simp_all)
  then show ?thesis by auto
qed

lemma fill_matrix:
  assumes "length c = n * m"
  shows "length (for_range 0 n (\<lambda>row. for_range 0 m (\<lambda>col c. c[row * m + col := f row col])) c) = n * m
    \<and> (\<forall>r<n. \<forall>j<m. for_range 0 n (\<lambda>row. for_range 0 m (\<lambda>col c. c[row * m + col := f row col])) c ! (r * m + j)
        = f r j)"
proof -
  let ?P = "\<lambda>i d. length d = n * m \<and> (\<forall>r<n. \<forall>j<m. r < i \<longrightarrow> d ! (r * m + j) = f r j)"
  have "?P n (for_range 0 n (\<lambda>row. for_range 0 m (\<lambda>col c. c[row * m + col := f row col])) c)"
  proof (rule for_range_invariant [where P = ?P])
    fix i d assume i: "i < n" and P: "?P i d"
    then show "?P (Suc i) (for_range 0 m (\<lambda>col c. c[i * m + col := f i col]) d)"
      using fill_row [of d n m i "f i"] by (simp add: less_Suc_eq)
  qed (use assms in simp_all)
  then show ?thesis by auto
qed

lemma matmul_el:
  assumes "length c = n * m" "row < n" "col < m"
  shows "el m (matmul a b c n k m) row col = (\<Sum>i<k. el k a row i * el m b i col)"
  using fill_matrix [OF assms(1), of "\<lambda>row col. matmul_cell a b k m row col"] assms
  by (simp add: matmul_def el_def [of m "for_range 0 n _ c"] matmul_cell_eq)

lemma length_matmul: "length c = n * m \<Longrightarrow> length (matmul a b c n k m) = n * m"
  using fill_matrix [of c n m "\<lambda>row col. matmul_cell a b k m row col"] by (simp add: matmul_def)

lemma el_update:
  assumes "length m = k * k" "r < k" "c < k" "i < k" "j < k"
  shows "el k (m[r * k + c := v]) i j = (if i = r \<and> j = c then v else el k m i j)"
  using assms flat_less [of i k j k] flat_inj [of j k c i r] by (auto simp: el_def nth_list_update)

end
