(* ===== verification/Gauss_Jordan.thy ===== *)
theory Gauss_Jordan
  imports Fec_Matrix
begin

text \<open>
  \<open>invert_mat\<close> of \<open>src/fec.cc\<close>: in-place Gauss-Jordan elimination with full pivoting over a
  flat matrix. The main result says that it fails exactly on singular matrices and
  otherwise leaves the inverse.
\<close>

section \<open>The routine\<close>

record gj_state =
  src :: "gf list"
  indxc :: "nat list"
  indxr :: "nat list"
  ipiv :: "nat list"
  id_row :: "gf list"

text \<open>How the search for a pivot ends: \<open>goto found_piv\<close> with \<open>irow\<close> and \<open>icol\<close>, \<open>goto fail\<close>
  on an entry of \<open>ipiv\<close> above one, or neither.\<close>

datatype pivot = Found_Piv nat nat | Singular_Fail | No_Pivot

fun scan_cols :: "nat \<Rightarrow> gj_state \<Rightarrow> nat \<Rightarrow> nat list \<Rightarrow> pivot" where
  "scan_cols k s row [] = No_Pivot"
| "scan_cols k s row (ix # ixs) =
     (if ipiv s ! ix = 0
      then if src s ! (row * k + ix) \<noteq> 0 then Found_Piv row ix else scan_cols k s row ixs
      else if ipiv s ! ix > 1 then Singular_Fail else scan_cols k s row ixs)"

fun scan_rows :: "nat \<Rightarrow> gj_state \<Rightarrow> nat list \<Rightarrow> pivot" where
  "scan_rows k s [] = No_Pivot"
| "scan_rows k s (row # rows) =
     (if ipiv s ! row \<noteq> 1
      then case scan_cols k s row [0..<k] of No_Pivot \<Rightarrow> scan_rows k s rows | p \<Rightarrow> p
      else scan_rows k s rows)"

definition find_pivot :: "nat \<Rightarrow> nat \<Rightarrow> gj_state \<Rightarrow> pivot" where
  "find_pivot k col s =
     (if ipiv s ! col \<noteq> 1 \<and> src s ! (col * k + col) \<noteq> 0 then Found_Piv col col
      else scan_rows k s [0..<k])"

definition swap_cells :: "nat \<Rightarrow> nat \<Rightarrow> gf list \<Rightarrow> gf list" where
  "swap_cells i j m = (let tmp = m ! i; m = m[i := m ! j] in m[j := tmp])"

definition get_row :: "nat \<Rightarrow> gf list \<Rightarrow> nat \<Rightarrow> gf list" where
  "get_row k m r = take k (drop (r * k) m)"

definition set_row :: "nat \<Rightarrow> gf list \<Rightarrow> nat \<Rightarrow> gf list \<Rightarrow> gf list" where
  "set_row k m r v = take (r * k) m @ v @ drop (r * k + k) m"

definition scale_row :: "nat \<Rightarrow> nat \<Rightarrow> gf \<Rightarrow> gf list \<Rightarrow> gf list" where
  "scale_row k icol c m =
     (let m = m[icol * k + icol := 1]
      in for_range 0 k (\<lambda>ix m. m[icol * k + ix := c * m ! (icol * k + ix)]) m)"

definition eliminate_row :: "nat \<Rightarrow> nat \<Rightarrow> nat \<Rightarrow> gf list \<Rightarrow> gf list" where
  "eliminate_row k icol ix m =
     (if ix \<noteq> icol
      then let c = m ! (ix * k + icol);
               m = m[ix * k + icol := 0]
           in set_row k m ix (addmul (get_row k m ix) (get_row k m icol) c k)
      else m)"

definition gj_column :: "nat \<Rightarrow> nat \<Rightarrow> gj_state \<Rightarrow> gj_state option" where
  "gj_column k col s =
     (case find_pivot k col s of
        Singular_Fail \<Rightarrow> None
      | No_Pivot \<Rightarrow> None
      | Found_Piv irow icol \<Rightarrow>
          let s = s\<lparr>ipiv := (ipiv s)[icol := ipiv s ! icol + 1]\<rparr>;
              s = (if irow \<noteq> icol
                   then s\<lparr>src := for_range 0 k (\<lambda>ix. swap_cells (irow * k + ix) (icol * k + ix)) (src s)\<rparr>
                   else s);
              s = s\<lparr>indxr := (indxr s)[col := irow]\<rparr>;
              s = s\<lparr>indxc := (indxc s)[col := icol]\<rparr>;
              c = src s ! (icol * k + icol)
          in if c = 0 then None
             else
               let s = (if c \<noteq> 1 then s\<lparr>src := scale_row k icol (inverse c) (src s)\<rparr> else s);
                   s = s\<lparr>id_row := (id_row s)[icol := 1]\<rparr>;
                   s = (if get_row k (src s) icol \<noteq> take k (id_row s)
                        then s\<lparr>src := for_range 0 k (eliminate_row k icol) (src s)\<rparr>
                        else s)
               in Some (s\<lparr>id_row := (id_row s)[icol := 0]\<rparr>))"

fun gj_columns :: "nat \<Rightarrow> nat list \<Rightarrow> gj_state \<Rightarrow> gj_state option" where
  "gj_columns k [] s = Some s"
| "gj_columns k (col # cols) s =
     (case gj_column k col s of None \<Rightarrow> None | Some s \<Rightarrow> gj_columns k cols s)"

text \<open>The final loop undoes the row swaps as column swaps, last pivot first.\<close>

definition unscramble_col :: "nat \<Rightarrow> nat list \<Rightarrow> nat list \<Rightarrow> nat \<Rightarrow> gf list \<Rightarrow> gf list" where
  "unscramble_col k ir ic col m =
     (if ir ! col \<ge> k then m
      else if ic ! col \<ge> k then m
      else if ir ! col \<noteq> ic ! col
      then for_range 0 k (\<lambda>row. swap_cells (row * k + ir ! col) (row * k + ic ! col)) m
      else m)"

text \<open>
  \<open>invert_mat\<close> returns the error flag; on success the matrix is replaced. The work arrays
  \<open>indxr\<close> and \<open>indxc\<close> come from \<open>malloc\<close>; the model starts them with zeros, which no result
  depends on, because every entry is written before it is read. On failure the caller frees the matrix.
\<close>

definition gj_init :: "nat \<Rightarrow> gf list \<Rightarrow> gj_state" where
  "gj_init k m = \<lparr>src = m, indxc = replicate k 0, indxr = replicate k 0,
     ipiv = replicate k 0, id_row = replicate k 0\<rparr>"

definition invert_mat :: "gf list \<Rightarrow> nat \<Rightarrow> gf list option" where
  "invert_mat m k =
     (case gj_columns k [0..<k] (gj_init k m) of
        None \<Rightarrow> None
      | Some s \<Rightarrow> Some (fold (unscramble_col k (indxr s) (indxc s)) (rev [0..<k]) (src s)))"

section \<open>Cell-wise effect of the loops\<close>

lemma length_swap_cells [simp]: "length (swap_cells i j m) = length m"
  by (simp add: swap_cells_def Let_def)

lemma swap_cells_nth:
  "i < length m \<Longrightarrow> j < length m \<Longrightarrow> n < length m \<Longrightarrow> swap_cells i j m ! n = m ! swp i j n"
  by (auto simp: swap_cells_def Let_def nth_list_update swp_def)

lemma swap_rows_loop:
  assumes "length m = k * k" "a < k" "b < k" "a \<noteq> b"
  shows "length (for_range 0 k (\<lambda>ix. swap_cells (a * k + ix) (b * k + ix)) m) = k * k
    \<and> (\<forall>i<k. \<forall>j<k. el k (for_range 0 k (\<lambda>ix. swap_cells (a * k + ix) (b * k + ix)) m) i j = el k m (swp a b i) j)"
proof -
  let ?P = "\<lambda>x d. length d = k * k \<and> (\<forall>i<k. \<forall>j<k. el k d i j = (if j < x then el k m (swp a b i) j else el k m i j))"
  have "?P k (for_range 0 k (\<lambda>ix. swap_cells (a * k + ix) (b * k + ix)) m)"
  proof (rule for_range_invariant [where P = ?P])
    fix x d assume x: "x < k" and P: "?P x d"
    have lt: "a * k + x < length d" "b * k + x < length d"
      using P x assms flat_less by metis+
    have "el k (swap_cells (a * k + x) (b * k + x) d) i j = (if j < Suc x then el k m (swp a b i) j else el k m i j)"
      if ij: "i < k" "j < k" for i j
    proof (cases "j = x")
      case True
      have "el k (swap_cells (a * k + x) (b * k + x) d) i j = d ! swp (a * k + x) (b * k + x) (i * k + x)"
        unfolding el_def True using lt P flat_less [OF ij(1) x] by (intro swap_cells_nth) auto
      also have "swp (a * k + x) (b * k + x) (i * k + x) = swp a b i * k + x"
        using flat_inj [OF x x] by (auto simp: swp_def)
      also have "d ! (swp a b i * k + x) = el k d (swp a b i) x" by (simp add: el_def)
      finally show ?thesis using P ij x True assms by (simp add: swp_less)
    next
      case False
      have "el k (swap_cells (a * k + x) (b * k + x) d) i j = d ! swp (a * k + x) (b * k + x) (i * k + j)"
        unfolding el_def using lt P flat_less [OF ij] by (intro swap_cells_nth) auto
      also have "swp (a * k + x) (b * k + x) (i * k + j) = i * k + j"
        using flat_inj [OF ij(2) x] False by (auto simp: swp_def)
      also have "d ! (i * k + j) = el k d i j" by (simp add: el_def)
      finally show ?thesis using P ij False by simp
    qed
    then show "?P (Suc x) (swap_cells (a * k + x) (b * k + x) d)" using P by simp
  qed (use assms in simp_all)
  then show ?thesis by simp
qed

lemma swap_cols_loop:
  assumes "length m = k * k" "a < k" "b < k"
  shows "length (for_range 0 k (\<lambda>row. swap_cells (row * k + a) (row * k + b)) m) = k * k
    \<and> (\<forall>i<k. \<forall>j<k. el k (for_range 0 k (\<lambda>row. swap_cells (row * k + a) (row * k + b)) m) i j = el k m i (swp a b j))"
proof -
  let ?P = "\<lambda>x d. length d = k * k \<and> (\<forall>i<k. \<forall>j<k. el k d i j = (if i < x then el k m i (swp a b j) else el k m i j))"
  have "?P k (for_range 0 k (\<lambda>row. swap_cells (row * k + a) (row * k + b)) m)"
  proof (rule for_range_invariant [where P = ?P])
    fix x d assume x: "x < k" and P: "?P x d"
    have lt: "x * k + a < length d" "x * k + b < length d"
      using P x assms flat_less by metis+
    have "el k (swap_cells (x * k + a) (x * k + b) d) i j = (if i < Suc x then el k m i (swp a b j) else el k m i j)"
      if ij: "i < k" "j < k" for i j
    proof -
      have "el k (swap_cells (x * k + a) (x * k + b) d) i j = d ! swp (x * k + a) (x * k + b) (i * k + j)"
        unfolding el_def using lt P flat_less [OF ij] by (intro swap_cells_nth) auto
      also have "swp (x * k + a) (x * k + b) (i * k + j) = i * k + (if i = x then swp a b j else j)"
        using flat_inj [OF ij(2) assms(2)] flat_inj [OF ij(2) assms(3)] by (auto simp: swp_def)
      also have "d ! \<dots> = el k d i (if i = x then swp a b j else j)" by (simp add: el_def)
      finally show ?thesis using P ij assms by (simp add: swp_less less_Suc_eq)
    qed
    then show "?P (Suc x) (swap_cells (x * k + a) (x * k + b) d)" using P by simp
  qed (use assms in simp_all)
  then show ?thesis by simp
qed

lemma scale_row_el:
  assumes "length m = k * k" "c < k"
  shows "length (scale_row k c z m) = k * k
    \<and> (\<forall>i<k. \<forall>j<k. el k (scale_row k c z m) i j
        = (if i = c then z * (if j = c then 1 else el k m c j) else el k m i j))"
proof -
  let ?m = "m[c * k + c := 1]"
  let ?f = "\<lambda>ix m. m[c * k + ix := z * m ! (c * k + ix)]"
  let ?P = "\<lambda>x d. length d = k * k \<and> (\<forall>i<k. \<forall>j<k. el k d i j
     = (if i = c \<and> j < x then z * el k ?m i j else el k ?m i j))"
  have "?P k (for_range 0 k ?f ?m)"
  proof (rule for_range_invariant [where P = ?P])
    fix x d assume x: "x < k" and P: "?P x d"
    have "el k (?f x d) i j = (if i = c \<and> j < Suc x then z * el k ?m i j else el k ?m i j)"
      if "i < k" "j < k" for i j
    proof -
      have "el k (?f x d) i j = (if i = c \<and> j = x then z * el k d c x else el k d i j)"
        using that P x assms by (subst el_update) (auto simp: el_def)
      then show ?thesis using P that x assms(2) by (auto simp: less_Suc_eq)
    qed
    then show "?P (Suc x) (?f x d)" using P by simp
  qed (use assms in simp_all)
  then show ?thesis
    using assms by (simp add: scale_row_def el_update)
qed

lemma get_row_nth: "length m = k * k \<Longrightarrow> r < k \<Longrightarrow> j < k \<Longrightarrow> get_row k m r ! j = el k m r j"
  using flat_less [of r k j k] by (simp add: get_row_def el_def)

lemma length_get_row: "length m = k * k \<Longrightarrow> r < k \<Longrightarrow> length (get_row k m r) = k"
proof -
  assume "length m = k * k" "r < k"
  then have "Suc r * k \<le> length m" by (metis Suc_leI mult_le_mono1)
  then show ?thesis by (simp add: get_row_def)
qed

lemma set_row_el:
  assumes "length m = k * k" "r < k" "length v = k"
  shows "length (set_row k m r v) = k * k"
    and "i < k \<Longrightarrow> j < k \<Longrightarrow> el k (set_row k m r v) i j = (if i = r then v ! j else el k m i j)"
proof -
  have le: "r * k + k \<le> k * k" using assms(2) mult_le_mono1 [of "Suc r" k k] by simp
  then show "length (set_row k m r v) = k * k" using assms by (simp add: set_row_def)
  assume ij: "i < k" "j < k"
  have "i < r \<Longrightarrow> i * k + j < r * k" using flat_less [OF _ ij(2)] by simp
  moreover have "r < i \<Longrightarrow> r * k + k \<le> i * k + j"
    using mult_le_mono1 [of "Suc r" i k] by simp
  ultimately show "el k (set_row k m r v) i j = (if i = r then v ! j else el k m i j)"
    using assms le ij flat_less [OF ij] by (cases i r rule: linorder_cases) (auto simp: el_def set_row_def nth_append)
qed

lemma eliminate_row_el:
  assumes "length m = k * k" "c < k" "x < k"
  shows "length (eliminate_row k c x m) = k * k
    \<and> (\<forall>i<k. \<forall>j<k. el k (eliminate_row k c x m) i j
        = (if i = x \<and> x \<noteq> c then (if j = c then 0 else el k m x j) + el k m x c * el k m c j else el k m i j))"
proof (cases "x = c")
  case True
  then show ?thesis using assms by (auto simp: eliminate_row_def)
next
  case False
  let ?m = "m[x * k + c := 0]"
  let ?v = "addmul (get_row k ?m x) (get_row k ?m c) (el k m x c) k"
  have len: "length ?m = k * k" using assms by simp
  have row: "length (get_row k ?m x) = k" using length_get_row [OF len assms(3)] .
  have v: "?v ! j = (if j = c then 0 else el k m x j) + el k m x c * el k m c j" if "j < k" for j
    using addmul_nth [of k "get_row k ?m x" j "get_row k ?m c" "el k m x c"] row that
      get_row_nth [OF len assms(3) that] get_row_nth [OF len assms(2) that] assms False
    by (simp add: el_update)
  have e: "eliminate_row k c x m = set_row k ?m x ?v"
    using False by (simp add: eliminate_row_def el_def Let_def)
  have lv: "length ?v = k" using length_addmul [of k "get_row k ?m x"] row by simp
  show ?thesis
    unfolding e using set_row_el [OF len assms(3) lv] v False assms by (simp add: el_update)
qed

lemma eliminate_loop:
  assumes "length m = k * k" "c < k"
  shows "length (for_range 0 k (eliminate_row k c) m) = k * k
    \<and> (\<forall>i<k. \<forall>j<k. el k (for_range 0 k (eliminate_row k c) m) i j
        = (if i \<noteq> c then (if j = c then 0 else el k m i j) + el k m i c * el k m c j else el k m i j))"
proof -
  let ?P = "\<lambda>x d. length d = k * k \<and> (\<forall>i<k. \<forall>j<k. el k d i j
     = (if i \<noteq> c \<and> i < x then (if j = c then 0 else el k m i j) + el k m i c * el k m c j else el k m i j))"
  have "?P k (for_range 0 k (eliminate_row k c) m)"
  proof (rule for_range_invariant [where P = ?P])
    fix x d assume x: "x < k" and P: "?P x d"
    then show "?P (Suc x) (eliminate_row k c x d)"
      using eliminate_row_el [of d k c x] assms(2) by (auto simp: less_Suc_eq)
  qed (use assms in simp_all)
  then show ?thesis by simp
qed

section \<open>Invariant of the column loop\<close>

primrec perm_of :: "nat list \<Rightarrow> nat list \<Rightarrow> nat \<Rightarrow> nat \<Rightarrow> nat" where
  "perm_of ir ic 0 = id"
| "perm_of ir ic (Suc n) = perm_of ir ic n \<circ> swp (ir ! n) (ic ! n)"

lemma perm_of_cong:
  "(\<And>i. i < n \<Longrightarrow> ir ! i = ir' ! i \<and> ic ! i = ic' ! i) \<Longrightarrow> perm_of ir ic n = perm_of ir' ic' n"
  by (induction n) simp_all

lemma bij_perm_of:
  "(\<And>i. i < n \<Longrightarrow> ir ! i < k \<and> ic ! i < k) \<Longrightarrow> bij_betw (perm_of ir ic n) {..<k} {..<k}"
proof (induction n)
  case (Suc n)
  have "bij_betw (swp (ir ! n) (ic ! n)) {..<k} {..<k}"
    using Suc.prems [of n] by (intro bij_swp) auto
  moreover have "bij_betw (perm_of ir ic n) {..<k} {..<k}"
    using Suc.prems by (intro Suc.IH) auto
  ultimately show ?case
    unfolding perm_of.simps by (rule bij_betw_trans)
qed simp

definition pivots :: "nat \<Rightarrow> gj_state \<Rightarrow> nat set" where
  "pivots k s = {j. j < k \<and> ipiv s ! j = 1}"

definition gj_shape :: "nat \<Rightarrow> gj_state \<Rightarrow> bool" where
  "gj_shape k s \<longleftrightarrow> length (src s) = k * k \<and> length (indxr s) = k \<and> length (indxc s) = k
     \<and> length (ipiv s) = k \<and> id_row s = replicate k 0 \<and> (\<forall>j<k. ipiv s ! j \<le> 1)"

definition gj_inv :: "nat \<Rightarrow> (nat \<Rightarrow> nat \<Rightarrow> gf) \<Rightarrow> nat \<Rightarrow> gj_state \<Rightarrow> bool" where
  "gj_inv k A col s \<longleftrightarrow> gj_shape k s \<and> card (pivots k s) = col
     \<and> (\<forall>i<col. indxr s ! i < k \<and> indxc s ! i < k)
     \<and> exchanged k A (pivots k s) (perm_of (indxr s) (indxc s) col) (el k (src s))"

lemma finite_pivots [simp]: "finite (pivots k s)"
  by (simp add: pivots_def)

text \<open>What the search finds.\<close>

lemma scan_cols_Found:
  "scan_cols k s row ixs = Found_Piv i j \<Longrightarrow> i = row \<and> j \<in> set ixs \<and> ipiv s ! j = 0 \<and> src s ! (row * k + j) \<noteq> 0"
  by (induction ixs) (auto split: if_splits)

lemma scan_cols_Singular: "scan_cols k s row ixs = Singular_Fail \<Longrightarrow> \<exists>j\<in>set ixs. ipiv s ! j > 1"
  by (induction ixs) (auto split: if_splits)

lemma scan_cols_No:
  "scan_cols k s row ixs = No_Pivot \<Longrightarrow> j \<in> set ixs \<Longrightarrow> ipiv s ! j = 0 \<Longrightarrow> src s ! (row * k + j) = 0"
  by (induction ixs) (auto split: if_splits)

lemma scan_rows_Found:
  "scan_rows k s rows = Found_Piv i j \<Longrightarrow>
     i \<in> set rows \<and> ipiv s ! i \<noteq> 1 \<and> j < k \<and> ipiv s ! j = 0 \<and> src s ! (i * k + j) \<noteq> 0"
  by (induction rows) (auto split: if_splits pivot.splits dest: scan_cols_Found)

lemma scan_rows_Singular: "scan_rows k s rows = Singular_Fail \<Longrightarrow> \<exists>j<k. ipiv s ! j > 1"
  by (induction rows) (fastforce split: if_splits pivot.splits dest: scan_cols_Singular)+

lemma scan_rows_No:
  "scan_rows k s rows = No_Pivot \<Longrightarrow> i \<in> set rows \<Longrightarrow> ipiv s ! i \<noteq> 1 \<Longrightarrow> j < k \<Longrightarrow> ipiv s ! j = 0
     \<Longrightarrow> src s ! (i * k + j) = 0"
  by (induction rows) (auto split: if_splits pivot.splits dest: scan_cols_No)

lemma find_pivot_Found:
  assumes "gj_shape k s" "col < k" "find_pivot k col s = Found_Piv i j"
  shows "i < k \<and> j < k \<and> i \<notin> pivots k s \<and> j \<notin> pivots k s \<and> el k (src s) i j \<noteq> 0 \<and> ipiv s ! j = 0"
  using assms scan_rows_Found [of k s "[0..<k]" i j]
  by (force simp: find_pivot_def pivots_def el_def gj_shape_def split: if_splits)

lemma find_pivot_fails:
  assumes "gj_inv k A col s" "col < k" "find_pivot k col s = Singular_Fail \<or> find_pivot k col s = No_Pivot"
  shows "singular k A"
proof -
  have shape: "gj_shape k s" and card: "card (pivots k s) = col" using assms(1) by (simp_all add: gj_inv_def)
  then have "\<not> (\<exists>j<k. ipiv s ! j > 1)" by (fastforce simp: gj_shape_def)
  then have "scan_rows k s [0..<k] = No_Pivot"
    using assms(3) scan_rows_Singular by (auto simp: find_pivot_def split: if_splits)
  note no = scan_rows_No [OF this]
  have "pivots k s \<subset> {..<k}"
    using card assms(2) card_lessThan [of k] by (force simp: pivots_def)
  then obtain j0 where "j0 < k" "j0 \<notin> pivots k s" by auto
  moreover have "el k (src s) i j = 0" if "i < k" "j < k" "i \<notin> pivots k s" "j \<notin> pivots k s" for i j
  proof -
    have "ipiv s ! j = 0" using that(2,4) shape by (force simp: pivots_def gj_shape_def)
    then show ?thesis using no [of i j] that by (simp add: pivots_def el_def)
  qed
  ultimately show ?thesis
    using assms(1) bij_perm_of [of col "indxr s" k "indxc s"]
    by (intro exchanged_stuck [of k A "pivots k s" "perm_of (indxr s) (indxc s) col" "el k (src s)" j0])
      (simp_all add: gj_inv_def)
qed

text \<open>The matrix after one column: rows swapped, then pivoted.\<close>

definition gj_matrix :: "nat \<Rightarrow> nat \<Rightarrow> nat \<Rightarrow> gf list \<Rightarrow> gf list" where
  "gj_matrix k irow icol m =
     (let m = (if irow \<noteq> icol then for_range 0 k (\<lambda>ix. swap_cells (irow * k + ix) (icol * k + ix)) m else m);
          c = m ! (icol * k + icol);
          m = (if c \<noteq> 1 then scale_row k icol (inverse c) m else m)
      in if get_row k m icol \<noteq> (replicate k 0)[icol := 1] then for_range 0 k (eliminate_row k icol) m else m)"

lemma gj_swapped:
  assumes "length m = k * k" "irow < k" "icol < k"
  defines "m' \<equiv> (if irow \<noteq> icol then for_range 0 k (\<lambda>ix. swap_cells (irow * k + ix) (icol * k + ix)) m else m)"
  shows "length m' = k * k" and "i < k \<Longrightarrow> j < k \<Longrightarrow> el k m' i j = el k m (swp irow icol i) j"
  using swap_rows_loop [OF assms(1-3)] assms(1) by (simp_all add: m'_def)

text \<open>Skipping the elimination when the pivot row is a unit row changes nothing.\<close>

lemma gj_matrix_el:
  assumes len: "length m = k * k" and lt: "irow < k" "icol < k" and nz: "el k m irow icol \<noteq> 0"
  shows "length (gj_matrix k irow icol m) = k * k
    \<and> (\<forall>i<k. \<forall>j<k. el k (gj_matrix k irow icol m) i j = pivoted icol (\<lambda>i. el k m (swp irow icol i)) i j)"
proof -
  define m1 where "m1 = (if irow \<noteq> icol then for_range 0 k (\<lambda>ix. swap_cells (irow * k + ix) (icol * k + ix)) m else m)"
  define N where "N i = el k m (swp irow icol i)" for i
  define c where "c = m1 ! (icol * k + icol)"
  define m2 where "m2 = (if c \<noteq> 1 then scale_row k icol (inverse c) m1 else m1)"
  have len1: "length m1 = k * k" and el1: "\<And>i j. i < k \<Longrightarrow> j < k \<Longrightarrow> el k m1 i j = N i j"
    unfolding m1_def N_def by (rule gj_swapped [OF len lt], assumption?)+
  have "N icol icol = el k m irow icol"
    by (cases "icol = irow") (simp_all add: N_def swp_def)
  then have c: "c = N icol icol" "c \<noteq> 0"
    using el1 [OF lt(2) lt(2)] nz by (simp_all add: c_def el_def [of k m1])
  have m2: "length m2 = k * k \<and> (\<forall>i<k. \<forall>j<k. el k m2 i j
      = (if i = icol then inverse c * (if j = icol then 1 else N icol j) else N i j))"
    using scale_row_el [OF len1 lt(2), of "inverse c"] el1 lt len1 c by (auto simp: m2_def)
  then have len2: "length m2 = k * k"
    and row2: "\<And>j. j < k \<Longrightarrow> el k m2 icol j = pivoted icol N icol j"
    and oth2: "\<And>i j. i < k \<Longrightarrow> j < k \<Longrightarrow> i \<noteq> icol \<Longrightarrow> el k m2 i j = N i j"
    using lt c by (auto simp: pivoted_def)
  have piv: "pivoted icol N i j = (if j = icol then 0 else N i j) + N i icol * pivoted icol N icol j" if "i \<noteq> icol" for i j
    using that by (simp add: pivoted_def)
  let ?e = "for_range 0 k (eliminate_row k icol) m2"
  have elim: "length ?e = k * k \<and> (\<forall>i<k. \<forall>j<k. el k ?e i j = pivoted icol N i j)"
    using eliminate_loop [OF len2 lt(2)] row2 oth2 lt piv by simp
  have skip: "\<forall>i<k. \<forall>j<k. el k m2 i j = pivoted icol N i j" if unit: "get_row k m2 icol = (replicate k 0)[icol := 1]"
  proof (intro allI impI)
    fix i j assume ij: "i < k" "j < k"
    have "el k m2 icol j = (if j = icol then 1 else 0)"
      using get_row_nth [OF len2 lt(2) ij(2)] unit ij by (auto simp: nth_list_update)
    then show "el k m2 i j = pivoted icol N i j"
      using row2 [OF ij(2)] oth2 [OF ij] piv [of i j] by (cases "i = icol") (auto split: if_splits)
  qed
  have "gj_matrix k irow icol m = (if get_row k m2 icol \<noteq> (replicate k 0)[icol := 1] then ?e else m2)"
    by (simp add: gj_matrix_def m1_def m2_def c_def Let_def)
  then show ?thesis using elim skip len2 unfolding N_def by simp
qed

text \<open>One column of the elimination as a whole.\<close>

lemma gj_column_Found:
  assumes shape: "gj_shape k s" and piv: "find_pivot k col s = Found_Piv irow icol" and col: "col < k"
  shows "gj_column k col s = Some (s\<lparr>ipiv := (ipiv s)[icol := 1], indxr := (indxr s)[col := irow],
    indxc := (indxc s)[col := icol], src := gj_matrix k irow icol (src s)\<rparr>)"
proof -
  note f = find_pivot_Found [OF shape col piv]
  let ?m1 = "if irow \<noteq> icol then for_range 0 k (\<lambda>ix. swap_cells (irow * k + ix) (icol * k + ix)) (src s) else src s"
  have len: "length (src s) = k * k" and idr: "id_row s = replicate k 0"
    using shape by (simp_all add: gj_shape_def)
  have "el k ?m1 icol icol = el k (src s) irow icol"
    using gj_swapped(2) [OF len, of irow icol icol icol] f by (simp add: swp_def)
  then have nz: "?m1 ! (icol * k + icol) \<noteq> 0"
    using f by (simp add: el_def [of k ?m1])
  have ip: "ipiv s ! icol = 0" using f by simp
  have id: "(replicate k (0 :: gf))[icol := 0] = replicate k 0"
    using f by (simp add: list_update_same_conv)
  have "gj_column k col s = Some (s\<lparr>ipiv := (ipiv s)[icol := 1], indxr := (indxr s)[col := irow],
      indxc := (indxc s)[col := icol], src := gj_matrix k irow icol (src s), id_row := replicate k 0\<rparr>)"
    using nz by (auto simp: gj_column_def piv id ip idr gj_matrix_def Let_def)
  also have "\<dots> = Some (s\<lparr>ipiv := (ipiv s)[icol := 1], indxr := (indxr s)[col := irow],
      indxc := (indxc s)[col := icol], src := gj_matrix k irow icol (src s)\<rparr>)"
    using idr by (cases s) simp
  finally show ?thesis .
qed

lemma gj_column_inv:
  assumes inv: "gj_inv k A col s" and col: "col < k"
  shows "case gj_column k col s of Some t \<Rightarrow> gj_inv k A (Suc col) t | None \<Rightarrow> singular k A"
proof (cases "find_pivot k col s")
  case (Found_Piv irow icol)
  have shape: "gj_shape k s" using inv by (simp add: gj_inv_def)
  note f = find_pivot_Found [OF shape col Found_Piv]
  define t where "t = s\<lparr>ipiv := (ipiv s)[icol := 1], indxr := (indxr s)[col := irow],
    indxc := (indxc s)[col := icol], src := gj_matrix k irow icol (src s)\<rparr>"
  have len: "length (src s) = k * k" using shape by (simp add: gj_shape_def)
  have lens: "length (ipiv s) = k" "length (indxr s) = k" "length (indxc s) = k"
    using shape by (simp_all add: gj_shape_def)
  note mat = gj_matrix_el [OF len, of irow icol]
  have pt: "pivots k t = insert icol (pivots k s)"
    using f lens by (auto simp: pivots_def t_def nth_list_update)
  have "gj_shape k t"
    using shape mat f by (auto simp: gj_shape_def t_def nth_list_update)
  moreover have "card (pivots k t) = Suc col"
    using inv f by (simp add: pt gj_inv_def)
  moreover have "\<forall>i<Suc col. indxr t ! i < k \<and> indxc t ! i < k"
    using inv f lens col by (auto simp: gj_inv_def t_def nth_list_update less_Suc_eq)
  moreover have "exchanged k A (pivots k t) (perm_of (indxr t) (indxc t) (Suc col)) (el k (src t))"
  proof -
    let ?N = "\<lambda>i. el k (src s) (swp irow icol i)"
    have "perm_of (indxr t) (indxc t) (Suc col) = perm_of (indxr s) (indxc s) col \<circ> swp irow icol"
      using col lens perm_of_cong [of col "indxr t" "indxr s" "indxc t" "indxc s"] by (simp add: t_def)
    moreover have "exchanged k A (pivots k s) (perm_of (indxr s) (indxc s) col \<circ> swp irow icol) ?N"
      using inv f by (intro exchanged_swap) (auto simp: gj_inv_def)
    moreover have "?N icol icol \<noteq> 0" using f by (cases "icol = irow") (auto simp: swp_def)
    ultimately have "exchanged k A (pivots k t) (perm_of (indxr t) (indxc t) (Suc col)) (pivoted icol ?N)"
      using f exchanged_pivot [of k A "pivots k s" _ ?N icol] by (simp add: pt)
    then show ?thesis
      by (rule exchanged_cong) (use mat f in \<open>simp add: t_def\<close>)
  qed
  ultimately have "gj_inv k A (Suc col) t" by (simp add: gj_inv_def)
  then show ?thesis
    using gj_column_Found [OF shape Found_Piv col] by (simp add: t_def)
qed (use find_pivot_fails [OF inv col] in \<open>simp_all add: gj_column_def\<close>)

lemma gj_columns_inv:
  assumes "gj_inv k A col s" "col \<le> k"
  shows "case gj_columns k [col..<k] s of Some t \<Rightarrow> gj_inv k A k t | None \<Rightarrow> singular k A"
  using assms
proof (induction "k - col" arbitrary: col s)
  case (Suc d)
  then have lt: "col < k" by simp
  show ?case
  proof (cases "gj_column k col s")
    case None
    then show ?thesis using gj_column_inv [OF Suc.prems(1) lt] lt by (simp add: upt_conv_Cons)
  next
    case (Some t)
    then have "gj_inv k A (Suc col) t" using gj_column_inv [OF Suc.prems(1) lt] by simp
    then show ?thesis using Suc.hyps(1) [of "Suc col" t] Suc.hyps(2) lt Some by (simp add: upt_conv_Cons)
  qed
qed simp

section \<open>Undoing the row swaps\<close>

lemma unscramble_col_el:
  assumes "length m = k * k" "ir ! c < k" "ic ! c < k"
  shows "length (unscramble_col k ir ic c m) = k * k
    \<and> (\<forall>i<k. \<forall>j<k. el k (unscramble_col k ir ic c m) i j = el k m i (swp (ir ! c) (ic ! c) j))"
  using swap_cols_loop [OF assms] assms by (simp add: unscramble_col_def)

lemma unscramble_sum:
  assumes "length m = k * k" "\<And>c. c < n \<Longrightarrow> ir ! c < k \<and> ic ! c < k"
  shows "length (fold (unscramble_col k ir ic) (rev [0..<n]) m) = k * k
    \<and> (\<forall>i<k. (\<Sum>j<k. el k (fold (unscramble_col k ir ic) (rev [0..<n]) m) i j * y j)
        = (\<Sum>j<k. el k m i j * y (perm_of ir ic n j)))"
  using assms
proof (induction n arbitrary: m)
  case (Suc n)
  let ?m = "unscramble_col k ir ic n m"
  let ?s = "swp (ir ! n) (ic ! n)"
  have lt: "ir ! n < k" "ic ! n < k" using Suc.prems(2) by auto
  note u = unscramble_col_el [OF Suc.prems(1) lt]
  have IH: "length (fold (unscramble_col k ir ic) (rev [0..<n]) ?m) = k * k
    \<and> (\<forall>i<k. (\<Sum>j<k. el k (fold (unscramble_col k ir ic) (rev [0..<n]) ?m) i j * y j)
        = (\<Sum>j<k. el k ?m i j * y (perm_of ir ic n j)))"
    using u Suc.prems(2) by (intro Suc.IH) auto
  have "(\<Sum>j<k. el k ?m i j * y (perm_of ir ic n j)) = (\<Sum>j<k. el k m i j * y (perm_of ir ic (Suc n) j))"
    if "i < k" for i
  proof -
    have "(\<Sum>j<k. el k m i j * y (perm_of ir ic (Suc n) j))
        = (\<Sum>j<k. el k m i (?s j) * y (perm_of ir ic (Suc n) (?s j)))"
      using sum_swp [OF lt, of "\<lambda>j. el k m i j * y (perm_of ir ic (Suc n) j)"] by simp
    also have "\<dots> = (\<Sum>j<k. el k ?m i j * y (perm_of ir ic n j))"
      using u that by (intro sum.cong) auto
    finally show ?thesis by simp
  qed
  with IH show ?case by simp
qed simp

section \<open>Correctness\<close>

lemma gj_inv_start: "length m = k * k \<Longrightarrow> gj_inv k (el k m) 0 (gj_init k m)"
proof -
  have none: "{j. j < k \<and> replicate k (0 :: nat) ! j = Suc 0} = {}" by auto
  show "length m = k * k \<Longrightarrow> gj_inv k (el k m) 0 (gj_init k m)"
    using exchanged_start by (simp add: gj_inv_def gj_shape_def gj_init_def pivots_def none)
qed

theorem invert_mat_Some:
  assumes len: "length m = k * k" and inv: "invert_mat m k = Some m'"
  shows "length m' = k * k"
    and "(\<forall>i<k. y i = lin k (el k m) x i) \<longleftrightarrow> (\<forall>i<k. x i = lin k (el k m') y i)"
proof -
  obtain s where s: "gj_columns k [0..<k] (gj_init k m) = Some s"
    and m': "m' = fold (unscramble_col k (indxr s) (indxc s)) (rev [0..<k]) (src s)"
    using inv by (auto simp: invert_mat_def split: option.splits)
  have inv: "gj_inv k (el k m) k s"
    using gj_columns_inv [OF gj_inv_start [OF len], of] s by simp
  have "pivots k s = {..<k}"
    using inv by (intro card_subset_eq) (auto simp: gj_inv_def pivots_def)
  then have ex: "exchanged k (el k m) {..<k} (perm_of (indxr s) (indxc s) k) (el k (src s))"
    using inv by (simp add: gj_inv_def)
  have u: "length (src s) = k * k" "\<And>c. c < k \<Longrightarrow> indxr s ! c < k \<and> indxc s ! c < k"
    using inv by (auto simp: gj_inv_def gj_shape_def)
  note sums = unscramble_sum [OF u, of k]
  show "length m' = k * k" using sums by (simp add: m')
  show "(\<forall>i<k. y i = lin k (el k m) x i) \<longleftrightarrow> (\<forall>i<k. x i = lin k (el k m') y i)"
    using exchanged_finish [OF ex, of y x] sums by (simp add: lin_def m')
qed

theorem invert_mat_None:
  "length m = k * k \<Longrightarrow> invert_mat m k = None \<Longrightarrow> singular k (el k m)"
  using gj_columns_inv [OF gj_inv_start, of m k]
  by (auto simp: invert_mat_def split: option.splits)

lemma invert_mat_Some_iff:
  assumes "length m = k * k"
  shows "(\<exists>m'. invert_mat m k = Some m') \<longleftrightarrow> \<not> singular k (el k m)"
proof
  assume "\<exists>m'. invert_mat m k = Some m'"
  then obtain m' where m': "invert_mat m k = Some m'" by blast
  show "\<not> singular k (el k m)"
  proof
    assume "singular k (el k m)"
    then obtain x j where "kills k (el k m) x" "j < k" "x j \<noteq> 0" by (auto simp: singular_def)
    then show False
      using invert_mat_Some(2) [OF assms m', of "\<lambda>_. 0" x] by (simp add: kills_def lin_def)
  qed
qed (use invert_mat_None [OF assms] in blast)

end
