(* ===== verification/Vandermonde.thy ===== *)
theory Vandermonde
  imports Fec_Matrix
begin

text \<open>
  \<open>invert_vdm\<close> of \<open>src/fec.cc\<close>: the inverse of a Vandermonde matrix from the coefficients of
  the polynomial whose roots are its points, by synthetic division. The routine is correct
  for distinct points whose first one is zero, which is how \<open>fec_new\<close> calls it.
\<close>

section \<open>The routine\<close>

text \<open>The points: \<open>p[i] = src[j]\<close> for \<open>j = 1, 1 + k, 1 + 2k, ...\<close>\<close>

definition vdm_points :: "gf list \<Rightarrow> nat \<Rightarrow> gf list" where
  "vdm_points m k = for_range 0 k (\<lambda>i p. p[i := m ! (1 + i * k)]) (replicate k 0)"

text \<open>
  The coefficients of the product of all \<open>x - p_i\<close>, highest below the leading one last; the
  inner loop runs from \<open>k-1-(i-1)\<close> to \<open>k-2\<close>.
\<close>

definition vdm_coeff_step :: "gf list \<Rightarrow> nat \<Rightarrow> nat \<Rightarrow> gf list \<Rightarrow> gf list" where
  "vdm_coeff_step p k i c =
     (let p_i = p ! i;
          c = for_range (k - 1 - (i - 1)) (k - 1) (\<lambda>j c. c[j := c ! j + p_i * c ! (j + 1)]) c
      in c[k - 1 := c ! (k - 1) + p_i])"

definition vdm_coeffs :: "gf list \<Rightarrow> nat \<Rightarrow> gf list" where
  "vdm_coeffs p k =
     (let c = (replicate k 0)[k - 1 := p ! 0] in for_range 1 k (vdm_coeff_step p k) c)"

text \<open>Synthetic division for one row: \<open>b\<close> the quotient, \<open>t\<close> its value at the point.\<close>

definition vdm_divide_step :: "gf list \<Rightarrow> gf \<Rightarrow> nat \<Rightarrow> gf list \<times> gf \<Rightarrow> gf list \<times> gf" where
  "vdm_divide_step c xx i s =
     (let (b, t) = s;
          b = b[i := c ! (i + 1) + xx * b ! (i + 1)];
          t = xx * t + b ! i
      in (b, t))"

definition vdm_divide :: "gf list \<Rightarrow> gf \<Rightarrow> nat \<Rightarrow> gf list \<Rightarrow> gf list \<times> gf" where
  "vdm_divide c xx k b = fold (vdm_divide_step c xx) (rev [0..<k - 1]) (b[k - 1 := 1], 1)"

definition vdm_row :: "gf list \<Rightarrow> gf list \<Rightarrow> nat \<Rightarrow> nat \<Rightarrow> gf list \<times> gf list \<Rightarrow> gf list \<times> gf list" where
  "vdm_row p c k row s =
     (let (m, b) = s;
          (b, t) = vdm_divide c (p ! row) k b;
          m = for_range 0 k (\<lambda>col m. m[col * k + row := inverse t * b ! col]) m
      in (m, b))"

definition invert_vdm :: "gf list \<Rightarrow> nat \<Rightarrow> gf list" where
  "invert_vdm m k =
     (if k = 1 then m
      else let p = vdm_points m k;
               c = vdm_coeffs p k
           in fst (for_range 0 k (vdm_row p c k) (m, replicate k 0)))"

section \<open>The points and the coefficients\<close>

lemma fill_list:
  "length xs = k \<Longrightarrow> for_range 0 k (\<lambda>i p. p[i := f i]) xs = map f [0..<k]"
proof -
  assume len: "length xs = k"
  let ?P = "\<lambda>n p. length p = k \<and> (\<forall>i<n. p ! i = f i)"
  have "?P k (for_range 0 k (\<lambda>i p. p[i := f i]) xs)"
    by (rule for_range_invariant [where P = ?P]) (auto simp: len nth_list_update less_Suc_eq)
  then show ?thesis by (intro nth_equalityI) auto
qed

lemma vdm_points_eq: "vdm_points m k = map (\<lambda>i. m ! (1 + i * k)) [0..<k]"
  unfolding vdm_points_def by (rule fill_list) simp

text \<open>Multiplying a coefficient list by \<open>x + p\<close>.\<close>

fun mul_lin :: "gf \<Rightarrow> gf \<Rightarrow> gf list \<Rightarrow> gf list" where
  "mul_lin p z [] = [z]"
| "mul_lin p z (a # as) = (z + p * a) # mul_lin p a as"

lemma horner_mul_lin: "horner (mul_lin p z as) x = z + (x + p) * horner as x"
  by (induction p z as rule: mul_lin.induct) (simp_all add: algebra_simps)

lemma length_mul_lin [simp]: "length (mul_lin p z as) = Suc (length as)"
  by (induction p z as rule: mul_lin.induct) simp_all

lemma mul_lin_nth:
  "j \<le> length as \<Longrightarrow> mul_lin p z as ! j = (if j = 0 then z else as ! (j - 1)) + (if j < length as then p * as ! j else 0)"
proof (induction p z as arbitrary: j rule: mul_lin.induct)
  case (2 p z a as)
  then show ?case by (cases j) (auto simp: nth_Cons split: nat.splits)
qed simp

text \<open>One step of the coefficient loop, cell by cell.\<close>

lemma coeff_step_nth:
  assumes "length c = k" "1 \<le> i" "i < k"
  shows "length (vdm_coeff_step p k i c) = k"
    and "j < k \<Longrightarrow> vdm_coeff_step p k i c ! j
      = (if j < k - i then c ! j else c ! j + p ! i * (c @ [1]) ! (j + 1))"
proof -
  let ?f = "\<lambda>j c. c[j := c ! j + p ! i * c ! (j + 1)]"
  let ?P = "\<lambda>n d. length d = k \<and> (\<forall>j<k. d ! j = (if k - i \<le> j \<and> j < n then c ! j + p ! i * c ! (j + 1) else c ! j))"
  have "?P (k - 1) (for_range (k - i) (k - 1) ?f c)"
  proof (rule for_range_invariant [where P = ?P])
    fix n d assume "k - i \<le> n" "n < k - 1" "?P n d"
    then show "?P (Suc n) (?f n d)" by (auto simp: nth_list_update less_Suc_eq)
  qed (use assms in auto)
  moreover have "vdm_coeff_step p k i c = (let d = for_range (k - i) (k - 1) ?f c in d[k - 1 := d ! (k - 1) + p ! i])"
    using assms by (simp add: vdm_coeff_step_def Let_def)
  ultimately show "length (vdm_coeff_step p k i c) = k"
    and "j < k \<Longrightarrow> vdm_coeff_step p k i c ! j
      = (if j < k - i then c ! j else c ! j + p ! i * (c @ [1]) ! (j + 1))"
    using assms by (auto simp: Let_def nth_list_update nth_append)
qed

text \<open>
  After step \<open>i\<close> the array holds \<open>k - i\<close> zeros and then the coefficients of the product of
  the points \<open>1\<close> to \<open>i\<close>; the zeros account for the point zero and the room still to fill.
\<close>

definition coeff_inv :: "gf list \<Rightarrow> nat \<Rightarrow> nat \<Rightarrow> gf list \<Rightarrow> bool" where
  "coeff_inv p k i c \<longleftrightarrow> length c = k \<and>
     (\<exists>g. c @ [1] = replicate (k - i) 0 @ g \<and> length g = Suc i
        \<and> (\<forall>x. horner g x = (\<Prod>m\<in>{1..i}. x + p ! m)))"

lemma coeff_inv_start:
  assumes "p ! 0 = 0" "1 \<le> k"
  shows "coeff_inv p k 0 ((replicate k 0)[k - 1 := p ! 0])"
proof -
  have "(replicate k (0 :: gf))[k - 1 := 0] = replicate k 0"
    using assms by (simp add: list_update_same_conv)
  then show ?thesis using assms by (auto simp: coeff_inv_def)
qed

lemma coeff_inv_step:
  assumes inv: "coeff_inv p k i c" and i: "Suc i < k"
  shows "coeff_inv p k (Suc i) (vdm_coeff_step p k (Suc i) c)"
proof -
  from inv obtain g where len: "length c = k" and g: "c @ [1] = replicate (k - i) 0 @ g" "length g = Suc i"
    and h: "\<And>x. horner g x = (\<Prod>m\<in>{1..i}. x + p ! m)"
    by (auto simp: coeff_inv_def)
  let ?c = "vdm_coeff_step p k (Suc i) c" and ?g = "mul_lin (p ! Suc i) 0 g"
  note st = coeff_step_nth [OF len _ i, where p = p]
  have cn: "(c @ [1]) ! n = (if n < k - i then 0 else g ! (n - (k - i)))" if "n \<le> k" for n
    using that unfolding g(1) by (simp add: nth_append)
  have "?c @ [1] = replicate (k - Suc i) 0 @ ?g"
  proof (rule nth_equalityI)
    fix n assume "n < length (?c @ [1])"
    then have n: "n \<le> k" using st(1) by simp
    show "(?c @ [1]) ! n = (replicate (k - Suc i) 0 @ ?g) ! n"
    proof (cases "n = k")
      case True
      have "?g ! Suc i = g ! i" using g(2) by (subst mul_lin_nth) auto
      also have "g ! i = 1" using cn [of k] len i by (simp add: nth_append split: if_splits)
      finally have "?g ! Suc i = 1" .
      moreover have "\<not> k < k - Suc i" "k - (k - Suc i) = Suc i" using i by simp_all
      ultimately show ?thesis using True st(1) by (simp add: nth_append)
    next
      case False
      then have nk: "n < k" using n by simp
      have "?c ! n = (if n < k - Suc i then c ! n else c ! n + p ! Suc i * (c @ [1]) ! (n + 1))"
        using st(2) [OF _ nk] by simp
      also have "c ! n = (c @ [1]) ! n" using len nk by (simp add: nth_append)
      finally have "?c ! n = (if n < k - Suc i then (c @ [1]) ! n
          else (c @ [1]) ! n + p ! Suc i * (c @ [1]) ! (n + 1))" .
      also have "\<dots> = (replicate (k - Suc i) 0 @ ?g) ! n"
      proof (cases "n < k - Suc i")
        case True
        then have "n < k - i" by simp
        then show ?thesis using cn [of n] nk True by simp (simp add: nth_append)
      next
        case False
        let ?d = "n - (k - Suc i)"
        have d: "?d \<le> length g" using g(2) nk by simp
        have "n + 1 - (k - i) = ?d" "?d < length g" using False nk i g(2) by auto
        then have "(c @ [1]) ! n = (if ?d = 0 then 0 else g ! (?d - 1))" "(c @ [1]) ! (n + 1) = g ! ?d"
          using cn [of n] cn [of "n + 1"] False nk i by auto
        then show ?thesis
          using False mul_lin_nth [OF d, of "p ! Suc i" 0] \<open>?d < length g\<close> by (simp add: nth_append)
      qed
      finally show ?thesis using nk st(1) by (simp add: nth_append)
    qed
  qed (use st(1) g(2) i in simp)
  moreover have "horner ?g x = (\<Prod>m\<in>{1..Suc i}. x + p ! m)" for x
    by (simp add: horner_mul_lin h atLeastAtMostSuc_conv)
  ultimately show ?thesis
    using st(1) g(2) unfolding coeff_inv_def by (intro conjI exI [of _ ?g]) auto
qed

lemma vdm_coeffs_horner:
  assumes "p ! 0 = 0" "1 \<le> k"
  shows "length (vdm_coeffs p k) = k"
    and "horner (vdm_coeffs p k @ [1]) x = (\<Prod>m<k. x + p ! m)"
proof -
  let ?c0 = "(replicate k 0)[k - 1 := p ! 0]"
  let ?P = "\<lambda>i. coeff_inv p k (i - 1)"
  have "?P k (for_range 1 k (vdm_coeff_step p k) ?c0)"
  proof (rule for_range_invariant [where P = ?P])
    fix i c assume "1 \<le> i" "i < k" "coeff_inv p k (i - 1) c"
    then show "coeff_inv p k (Suc i - 1) (vdm_coeff_step p k i c)"
      using coeff_inv_step [of p k "i - 1" c] by simp
  qed (use assms coeff_inv_start [OF assms] in simp_all)
  then have inv: "coeff_inv p k (k - 1) (vdm_coeffs p k)" by (simp add: vdm_coeffs_def)
  then show "length (vdm_coeffs p k) = k" by (simp add: coeff_inv_def)
  from inv obtain g where g: "vdm_coeffs p k @ [1] = replicate (k - (k - 1)) 0 @ g"
    and h: "horner g x = (\<Prod>m\<in>{1..k - 1}. x + p ! m)"
    by (auto simp: coeff_inv_def)
  have "{..<k} = insert 0 {1..k - 1}" using assms(2) by auto
  then have "(\<Prod>m<k. x + p ! m) = x * (\<Prod>m\<in>{1..k - 1}. x + p ! m)" using assms(1) by simp
  moreover have "k - (k - 1) = Suc 0" using assms(2) by simp
  ultimately show "horner (vdm_coeffs p k @ [1]) x = (\<Prod>m<k. x + p ! m)"
    unfolding g by (simp add: h)
qed

section \<open>Synthetic division\<close>

text \<open>The loop fills \<open>b\<close> with the quotient of the monic polynomial and evaluates it on the way.\<close>

lemma drop_rev_upt: "rev [0..<Suc n] = n # rev [0..<n]"
  by simp

lemma fold_down_invariant:
  assumes "P n s" and "\<And>i s. i < n \<Longrightarrow> P (Suc i) s \<Longrightarrow> P i (f i s)"
  shows "P 0 (fold f (rev [0..<n]) s)"
  using assms
proof (induction n arbitrary: s)
  case (Suc n)
  have "P 0 (fold f (rev [0..<n]) (f n s))"
    using Suc.prems by (intro Suc.IH) auto
  then show ?case by simp
qed simp

lemma vdm_divide_quot:
  assumes len: "length c = k" "length b = k" and k: "1 \<le> k"
  shows "vdm_divide c xx k b = (quot (c @ [1]) xx, horner (quot (c @ [1]) xx) xx)"
proof -
  let ?q = "quot (c @ [1]) xx"
  have lq: "length ?q = k" using len by (simp add: length_quot)
  have top: "?q ! (k - 1) = 1" using len k by (simp add: quot_nth)
  have low: "?q ! i = c ! (i + 1) + xx * ?q ! (i + 1)" if "i < k - 1" for i
  proof -
    have "drop (i + 1) (c @ [1]) = c ! (i + 1) # drop (i + 2) (c @ [1])"
      using that len by (simp add: nth_append Cons_nth_drop_Suc [symmetric])
    then show ?thesis using that len by (simp add: quot_nth)
  qed
  let ?P = "\<lambda>i s. length (fst s) = k \<and> (\<forall>j<k. i \<le> j \<longrightarrow> fst s ! j = ?q ! j) \<and> snd s = horner (drop i ?q) xx"
  have last: "drop (k - 1) ?q = [?q ! (k - 1)]"
    using lq k by (simp add: Cons_nth_drop_Suc [symmetric])
  have "?P 0 (fold (vdm_divide_step c xx) (rev [0..<k - 1]) (b[k - 1 := 1], 1))"
  proof (rule fold_down_invariant [where P = ?P])
    show "?P (k - 1) (b[k - 1 := 1], 1)"
      using len k top last by (auto simp: nth_list_update)
  next
    fix i s assume i: "i < k - 1" and P: "?P (Suc i) s"
    have "fst (vdm_divide_step c xx i s) = (fst s)[i := c ! (i + 1) + xx * ?q ! (i + 1)]"
      using P i by (cases s) (simp add: vdm_divide_step_def Let_def)
    then have f: "fst (vdm_divide_step c xx i s) = (fst s)[i := ?q ! i]" using low [OF i] by simp
    have "snd (vdm_divide_step c xx i s) = xx * snd s + fst (vdm_divide_step c xx i s) ! i"
      by (cases s) (simp add: vdm_divide_step_def Let_def)
    then have "snd (vdm_divide_step c xx i s) = horner (drop i ?q) xx"
      using P i lq f by (simp add: Cons_nth_drop_Suc [symmetric])
    then show "?P i (vdm_divide_step c xx i s)"
      using P f i by (auto simp: nth_list_update)
  qed
  then have "?P 0 (vdm_divide c xx k b)" by (simp add: vdm_divide_def)
  then show ?thesis
    using lq by (cases "vdm_divide c xx k b") (auto intro: nth_equalityI)
qed

section \<open>Correctness\<close>

text \<open>The cell a row of the inverse is filled with.\<close>

definition vdm_inv_cell :: "gf list \<Rightarrow> gf list \<Rightarrow> nat \<Rightarrow> nat \<Rightarrow> gf" where
  "vdm_inv_cell p c col row =
     (let q = quot (c @ [1]) (p ! row) in inverse (horner q (p ! row)) * q ! col)"

lemma vdm_row_el:
  assumes "length m = k * k" "length b = k" "length c = k" "1 \<le> k" "row < k"
  shows "length (fst (vdm_row p c k row (m, b))) = k * k \<and> length (snd (vdm_row p c k row (m, b))) = k
    \<and> (\<forall>i<k. \<forall>j<k. el k (fst (vdm_row p c k row (m, b))) i j = (if j = row then vdm_inv_cell p c i row else el k m i j))"
proof -
  let ?q = "quot (c @ [1]) (p ! row)"
  let ?f = "\<lambda>col m. m[col * k + row := vdm_inv_cell p c col row]"
  let ?P = "\<lambda>n d. length d = k * k \<and> (\<forall>i<k. \<forall>j<k. el k d i j = (if j = row \<and> i < n then vdm_inv_cell p c i row else el k m i j))"
  have "?P k (for_range 0 k ?f m)"
  proof (rule for_range_invariant [where P = ?P])
    fix n d assume n: "n < k" and P: "?P n d"
    have "el k (?f n d) i j = (if j = row \<and> i < Suc n then vdm_inv_cell p c i row else el k m i j)" if "i < k" "j < k" for i j
      using that P n assms(5) by (auto simp: less_Suc_eq el_update)
    then show "?P (Suc n) (?f n d)" using P by simp
  qed (use assms in simp_all)
  moreover have "vdm_row p c k row (m, b) = (for_range 0 k ?f m, ?q)"
    using vdm_divide_quot [OF assms(3,2,4), of "p ! row"]
    by (simp add: vdm_row_def vdm_inv_cell_def Let_def)
  ultimately show ?thesis using assms(3) by (simp add: length_quot)
qed

lemma vdm_rows_el:
  assumes "length m = k * k" "length c = k" "1 \<le> k"
  shows "length (fst (for_range 0 k (vdm_row p c k) (m, replicate k 0))) = k * k
    \<and> (\<forall>i<k. \<forall>j<k. el k (fst (for_range 0 k (vdm_row p c k) (m, replicate k 0))) i j = vdm_inv_cell p c i j)"
proof -
  let ?P = "\<lambda>n (s :: gf list \<times> gf list). length (fst s) = k * k \<and> length (snd s) = k \<and> (\<forall>i<k. \<forall>j<k. j < n \<longrightarrow> el k (fst s) i j = vdm_inv_cell p c i j)"
  have "?P k (for_range 0 k (vdm_row p c k) (m, replicate k 0))"
  proof (rule for_range_invariant [where P = ?P])
    fix n s assume n: "n < k" and P: "?P n s"
    then show "?P (Suc n) (vdm_row p c k n s)"
      using vdm_row_el [of "fst s" k "snd s" c n p] assms by (auto simp: less_Suc_eq)
  qed (use assms in simp_all)
  then show ?thesis by simp
qed

text \<open>The quotient vanishes at the other points and not at its own.\<close>

lemma vdm_quot_values:
  assumes "p ! 0 = 0" "1 \<le> k" "inj_on (\<lambda>i. p ! i) {..<k}" "row < k" "r < k"
  defines "q \<equiv> quot (vdm_coeffs p k @ [1]) (p ! row)"
  shows "horner q (p ! r) = 0 \<longleftrightarrow> r \<noteq> row"
proof -
  note co = vdm_coeffs_horner [OF assms(1,2)]
  have root: "horner (vdm_coeffs p k @ [1]) (p ! i) = 0" if "i < k" for i
  proof -
    have "(\<Prod>m<k. p ! i + p ! m) = 0"
      using that by (intro prod_zero) (auto intro: bexI [of _ i])
    then show ?thesis by (simp add: co(2))
  qed
  have lq: "length q = k" using co(1) by (simp add: q_def length_quot)
  have off: "horner q (p ! i) = 0" if "i < k" "i \<noteq> row" for i
  proof -
    have "(p ! i + p ! row) * horner q (p ! i) = 0"
      using horner_quot [of "vdm_coeffs p k @ [1]" "p ! i" "p ! row"] root that assms(4) by (simp add: q_def)
    moreover have "p ! i \<noteq> p ! row" using assms(3,4) that by (auto simp: inj_on_def)
    then have "p ! i + p ! row \<noteq> 0" using gf_add_swap [of 0 "p ! i" "p ! row"] by auto
    ultimately show ?thesis by simp
  qed
  have "horner q (p ! row) \<noteq> 0"
  proof
    assume 0: "horner q (p ! row) = 0"
    have "set q \<subseteq> {0}"
    proof (rule root_bound [of "(\<lambda>i. p ! i) ` {..<k}"])
      show "length q \<le> card ((\<lambda>i. p ! i) ` {..<k})" using lq assms(3) by (simp add: card_image)
      fix z assume "z \<in> (\<lambda>i. p ! i) ` {..<k}"
      then show "horner q z = 0" using off 0 by (cases "z = p ! row") auto
    qed simp
    moreover have "q ! (k - 1) = 1"
      using co(1) assms(2) by (simp add: q_def quot_nth)
    moreover have "q ! (k - 1) \<in> set q" using lq assms(2) by (intro nth_mem) simp
    ultimately show False by auto
  qed
  then show ?thesis using off [OF assms(5)] by auto
qed

definition vandermonde :: "(nat \<Rightarrow> gf) \<Rightarrow> nat \<Rightarrow> nat \<Rightarrow> gf" where
  "vandermonde p r c = p r ^ c"

theorem invert_vdm_correct:
  assumes len: "length m = k * k" and k: "1 \<le> k"
    and vdm: "\<And>r c. r < k \<Longrightarrow> c < k \<Longrightarrow> el k m r c = vandermonde p r c"
    and zero: "p 0 = 0" and inj: "inj_on p {..<k}"
  shows "length (invert_vdm m k) = k * k"
    and "r < k \<Longrightarrow> j < k \<Longrightarrow> (\<Sum>c<k. vandermonde p r c * el k (invert_vdm m k) c j) = (if r = j then 1 else 0)"
proof -
  let ?p = "vdm_points m k" and ?c = "vdm_coeffs (vdm_points m k) k"
  show "length (invert_vdm m k) = k * k"
  proof (cases "k = 1")
    case False
    have "?p ! 0 = 0"
      using vdm [of 0 1] False k zero by (simp add: vdm_points_eq vandermonde_def el_def)
    then show ?thesis
      using vdm_rows_el [OF len _ k, of ?c ?p] vdm_coeffs_horner(1) [of ?p k] k False
      by (simp add: invert_vdm_def Let_def)
  qed (use len in \<open>simp add: invert_vdm_def\<close>)
  assume rj: "r < k" "j < k"
  show "(\<Sum>c<k. vandermonde p r c * el k (invert_vdm m k) c j) = (if r = j then 1 else 0)"
  proof (cases "k = 1")
    case True
    then show ?thesis using rj vdm [of 0 0] by (simp add: invert_vdm_def vandermonde_def)
  next
    case False
    have pts: "?p ! i = p i" if "i < k" for i
      using vdm [of i 1] that False k by (simp add: vdm_points_eq vandermonde_def el_def add.commute)
    have p0: "?p ! 0 = 0" using pts [of 0] k zero by simp
    have inj': "inj_on (\<lambda>i. ?p ! i) {..<k}" using inj pts by (simp add: inj_on_def)
    have lc: "length ?c = k" using vdm_coeffs_horner(1) [OF p0 k] .
    let ?q = "quot (?c @ [1]) (?p ! j)"
    have lq: "length ?q = k" using lc by (simp add: length_quot)
    have "(\<Sum>c<k. vandermonde p r c * el k (invert_vdm m k) c j)
        = (\<Sum>c<k. inverse (horner ?q (?p ! j)) * (?q ! c * p r ^ c))"
      using vdm_rows_el [OF len lc k, of ?p] rj False
      by (intro sum.cong) (simp_all add: invert_vdm_def vdm_inv_cell_def vandermonde_def Let_def mult_ac)
    also have "\<dots> = inverse (horner ?q (?p ! j)) * horner ?q (?p ! r)"
      using lq pts [OF rj(1)] by (simp add: horner_sum sum_distrib_left)
    also have "\<dots> = (if r = j then 1 else 0)"
      using vdm_quot_values [OF p0 k inj' rj(2,1)] by auto
    finally show ?thesis .
  qed
qed

text \<open>A linear combination of the columns that vanishes at \<open>k\<close> distinct points is zero.\<close>

lemma vandermonde_injective:
  assumes "inj_on p I" "card I = k" "finite I" "\<And>r. r \<in> I \<Longrightarrow> (\<Sum>c<k. vandermonde p r c * z c) = 0" "c < k"
  shows "z c = 0"
proof -
  have "set (map z [0..<k]) \<subseteq> {0}"
  proof (rule root_bound [of "p ` I"])
    fix x assume "x \<in> p ` I"
    then obtain r where "r \<in> I" "x = p r" by auto
    then show "horner (map z [0..<k]) x = 0"
      using assms(4) [of r] by (simp add: horner_sum vandermonde_def mult.commute)
  qed (use assms in \<open>simp_all add: card_image\<close>)
  then show ?thesis using assms(5) by (auto simp: image_subset_iff)
qed

end
