(* ===== verification/Fec_Code.thy ===== *)
theory Fec_Code
  imports Gauss_Jordan Vandermonde
begin

text \<open>
  The erasure code of \<open>src/fec.cc\<close>: the systematic encoding matrix of \<open>fec_new\<close>,
  \<open>fec_encode\<close>, and \<open>fec_decode\<close> with \<open>shuffle\<close> and \<open>build_decode_matrix\<close>. The main result:
  any \<open>k\<close> distinct packets of an encoded batch decode to the original packets.
\<close>

section \<open>The code descriptor\<close>

text \<open>\<open>struct fec_parms\<close> without \<open>magic\<close>, a checksum of the matrix's address.\<close>

record fec_parms =
  code_k :: nat
  code_n :: nat
  enc_matrix :: "gf list"

text \<open>
  \<open>fec_new\<close>: \<open>Inr None\<close> is the null pointer of the parameter check. For \<open>k = 0\<close> the first store
  goes to an allocation of no bytes.
\<close>

definition vdm_fill :: "nat \<Rightarrow> nat \<Rightarrow> gf list" where
  "vdm_fill k n =
     (let m = (replicate (n * k) 0)[0 := 1];
          m = for_range 1 k (\<lambda>col m. m[col := 0]) m
      in for_range 0 (n - 1) (\<lambda>row. for_range 0 k (\<lambda>col m.
           m[(row + 1) * k + col := GF (gf_exp_at (modnn (row * col)))])) m)"

definition systematic :: "nat \<Rightarrow> nat \<Rightarrow> gf list \<Rightarrow> gf list" where
  "systematic k n tmp_m =
     (let enc = replicate (n * k) 0;
          tmp_m = invert_vdm (take (k * k) tmp_m) k @ drop (k * k) tmp_m;
          enc = take (k * k) enc @ matmul (drop (k * k) tmp_m) tmp_m (drop (k * k) enc) (n - k) k k;
          enc = replicate (k * k) 0 @ drop (k * k) enc
      in for_range 0 k (\<lambda>col enc. enc[col * (k + 1) := 1]) enc)"

definition fec_new :: "nat \<Rightarrow> nat \<Rightarrow> fec_parms option outcome" where
  "fec_new k n =
     (if k > GF_SIZE + 1 \<or> n > GF_SIZE + 1 \<or> k > n then ok None
      else if k = 0 then abort Out_Of_Bounds
      else ok (Some \<lparr>code_k = k, code_n = n, enc_matrix = systematic k n (vdm_fill k n)\<rparr>))"

section \<open>Encoding\<close>

definition fec_encode :: "fec_parms \<Rightarrow> gf list list \<Rightarrow> gf list \<Rightarrow> nat \<Rightarrow> nat \<Rightarrow> gf list" where
  "fec_encode code srcs fec index sz =
     (let k = code_k code in
      if index < k then take sz (srcs ! index) @ drop sz fec
      else if index < code_n code then
        let p = drop (index * k) (enc_matrix code);
            fec = replicate sz 0 @ drop sz fec
        in for_range 0 k (\<lambda>i fec. addmul fec (srcs ! i) (p ! i) sz) fec
      else fec)"

section \<open>Decoding\<close>

text \<open>
  \<open>shuffle\<close> moves every native packet to its own position; the flag is the return value
  (\<open>True\<close> for 1). Positions outside the arrays are \<open>Out_Of_Bounds\<close>.
\<close>

definition swap_at :: "nat \<Rightarrow> nat \<Rightarrow> 'a list \<Rightarrow> 'a list" where
  "swap_at i j xs = (let tmp = xs ! i; xs = xs[i := xs ! j] in xs[j := tmp])"

definition misplaced :: "nat list \<Rightarrow> nat set" where
  "misplaced index = {j. j < length index \<and> index ! j \<noteq> j}"

lemma misplaced_swap:
  assumes "i < length index" "index ! i \<noteq> i" "index ! i < length index" "index ! (index ! i) \<noteq> index ! i"
  shows "card (misplaced (swap_at i (index ! i) index)) < card (misplaced index)"
proof (rule psubset_card_mono)
  show "finite (misplaced index)" by (simp add: misplaced_def)
  have "misplaced (swap_at i (index ! i) index) \<subseteq> misplaced index - {index ! i}"
    using assms by (auto simp: misplaced_def swap_at_def Let_def nth_list_update split: if_splits)
  moreover have "index ! i \<in> misplaced index"
    using assms by (simp add: misplaced_def)
  ultimately show "misplaced (swap_at i (index ! i) index) \<subset> misplaced index" by blast
qed

function shuffle_from :: "nat \<Rightarrow> nat \<Rightarrow> 'a list \<Rightarrow> nat list \<Rightarrow> (bool \<times> 'a list \<times> nat list) outcome" where
  "shuffle_from k i pkt index =
     (if \<not> i < k then ok (False, pkt, index)
      else if \<not> (i < length index \<and> i < length pkt) then abort Out_Of_Bounds
      else if index ! i \<ge> k \<or> index ! i = i then shuffle_from k (i + 1) pkt index
      else let c = index ! i in
        if \<not> (c < length index \<and> c < length pkt) then abort Out_Of_Bounds
        else if index ! c = c then ok (True, pkt, index)
        else shuffle_from k i (swap_at i c pkt) (swap_at i c index))"
  by pat_completeness auto
termination
  by (relation "measures [\<lambda>(k, i, pkt, index). k - i, \<lambda>(k, i, pkt, index). card (misplaced index)]")
    (auto intro: misplaced_swap)

declare shuffle_from.simps [simp del]

definition shuffle :: "'a list \<Rightarrow> nat list \<Rightarrow> nat \<Rightarrow> (bool \<times> 'a list \<times> nat list) outcome" where
  "shuffle pkt index k = shuffle_from k 0 pkt index"

text \<open>\<open>build_decode_matrix\<close>: the rows of the received packets, inverted; \<open>None\<close> is the null pointer.\<close>

fun decode_rows :: "fec_parms \<Rightarrow> nat list \<Rightarrow> nat list \<Rightarrow> gf list option" where
  "decode_rows code index [] = Some []"
| "decode_rows code index (i # is) =
     (let k = code_k code in
      if index ! i < k then map_option ((@) ((replicate k 0)[i := 1])) (decode_rows code index is)
      else if index ! i < code_n code
      then map_option ((@) (take k (drop (index ! i * k) (enc_matrix code)))) (decode_rows code index is)
      else None)"

definition build_decode_matrix :: "fec_parms \<Rightarrow> nat list \<Rightarrow> gf list option" where
  "build_decode_matrix code index =
     (case decode_rows code index [0..<code_k code] of
        None \<Rightarrow> None
      | Some matrix \<Rightarrow> invert_mat matrix (code_k code))"

definition decode_packet :: "nat \<Rightarrow> nat \<Rightarrow> gf list \<Rightarrow> gf list list \<Rightarrow> nat \<Rightarrow> gf list" where
  "decode_packet k sz m_dec pkt row =
     for_range 0 k (\<lambda>col new_pkt. addmul new_pkt (pkt ! col) (m_dec ! (row * k + col)) sz) (replicate sz 0)"

text \<open>The returned flag is \<open>True\<close> for a failed decoding (return value 1).\<close>

definition fec_decode ::
  "fec_parms \<Rightarrow> gf list list \<Rightarrow> nat list \<Rightarrow> nat \<Rightarrow> (bool \<times> gf list list \<times> nat list) outcome" where
  "fec_decode code pkt index sz =
     and_then (shuffle pkt index (code_k code)) (\<lambda>(err, pkt, index).
       if err then ok (True, pkt, index)
       else case build_decode_matrix code index of
          None \<Rightarrow> ok (True, pkt, index)
        | Some m_dec \<Rightarrow>
            let k = code_k code;
                new_pkt = map (\<lambda>row. if index ! row \<ge> k then decode_packet k sz m_dec pkt row else []) [0..<k];
                pkt = for_range 0 k (\<lambda>row pkt.
                  if index ! row \<ge> k then pkt[row := new_pkt ! row @ drop sz (pkt ! row)] else pkt) pkt
            in ok (False, pkt, index))"

section \<open>The encoding matrix\<close>

text \<open>Row \<open>i\<close> of the big matrix belongs to the point \<open>point i\<close>: zero, then the powers of the generator.\<close>

definition point :: "nat \<Rightarrow> gf" where
  "point i = (case i of 0 \<Rightarrow> 0 | Suc r \<Rightarrow> GF (alpha r))"

lemma point_simps [simp]: "point 0 = 0" "point (Suc r) = GF (alpha r)"
  by (simp_all add: point_def)

lemma GF_alpha_mult: "GF (alpha a) * GF (alpha b) = GF (alpha (a + b))"
  by (simp add: gf_ops gf_mul_alt alpha_nonzero) (metis alpha_mod gf_dlog_alpha mod_add_eq mod_less_divisor zero_less_numeral)

lemma GF_alpha_power: "GF (alpha r) ^ c = GF (alpha (r * c))"
  by (induction c) (simp_all add: GF_alpha_mult one_gf_def)

lemma inj_on_point: "inj_on point {..<256}"
proof (rule inj_onI)
  fix a b assume "a \<in> {..<256}" "b \<in> {..<256}" and eq: "point a = point b"
  then show "a = b"
    by (cases a; cases b) (auto simp: alpha_inj zero_gf_def alpha_nonzero alpha_nonzero [symmetric])
qed

lemma vdm_fill_el:
  assumes "1 \<le> k" "k \<le> n" "n \<le> 256"
  shows "length (vdm_fill k n) = n * k"
    and "r < n \<Longrightarrow> c < k \<Longrightarrow> el k (vdm_fill k n) r c = vandermonde point r c"
proof -
  let ?m0 = "(replicate (n * k) (0 :: gf))[0 := 1]"
  let ?m1 = "for_range 1 k (\<lambda>col m. m[col := 0]) ?m0"
  let ?P1 = "\<lambda>i m. length m = n * k \<and> (\<forall>c<k. m ! c = (if c = 0 then (1 :: gf) else 0))"
  have kn: "k \<le> n * k" using assms by simp
  have "?P1 k ?m1"
  proof (rule for_range_invariant [where P = ?P1])
    have "c < n * k" if "c < k" for c using that kn by (rule less_le_trans)
    moreover have "0 < n * k" using assms by simp
    ultimately show "?P1 1 ?m0" by (auto simp: nth_list_update)
  next
    fix i :: nat and m :: "gf list" assume "1 \<le> i" "i < k" "?P1 i m"
    moreover have "i < n * k" using \<open>i < k\<close> kn by (rule less_le_trans)
    ultimately show "?P1 (Suc i) (m[i := 0])" by (auto simp: nth_list_update)
  qed (use assms(1) in simp)
  then have m1: "length ?m1 = n * k" "\<And>c. c < k \<Longrightarrow> ?m1 ! c = (if c = 0 then 1 else 0)" by auto
  let ?f = "\<lambda>row col. GF (gf_exp_at (modnn (row * col)))"
  let ?row = "\<lambda>row. for_range 0 k (\<lambda>col m. m[(row + 1) * k + col := ?f row col])"
  let ?P = "\<lambda>i m. length m = n * k \<and> (\<forall>r\<le>i. \<forall>c<k. m ! (r * k + c) = (if r = 0 then ?m1 ! c else ?f (r - 1) c))"
  have "?P (n - 1) (for_range 0 (n - 1) ?row ?m1)"
  proof (rule for_range_invariant [where P = ?P])
    fix i m assume i: "i < n - 1" and P: "?P i m"
    have fr: "length (?row i m) = n * k"
      "\<And>r j. r < n \<Longrightarrow> j < k \<Longrightarrow> ?row i m ! (r * k + j) = (if r = i + 1 then ?f i j else m ! (r * k + j))"
      using fill_row [of m n k "i + 1" "?f i"] P i by simp_all
    have "?row i m ! (r * k + c) = (if r = 0 then ?m1 ! c else ?f (r - 1) c)" if "r \<le> Suc i" "c < k" for r c
    proof (cases "r = i + 1")
      case True
      have "?row i m ! (r * k + c) = ?f i c" using fr(2) [of r c] True that(2) i by simp
      then show ?thesis using True by (simp del: mult_Suc)
    next
      case False
      then have "r \<le> i" "r < n" using that(1) i by simp_all
      then show ?thesis using fr(2) [of r c] False P that(2) by simp
    qed
    then show "?P (Suc i) (?row i m)" using fr(1) by blast
  qed (use m1 in simp_all)
  then have fin: "?P (n - 1) (vdm_fill k n)" by (simp add: vdm_fill_def Let_def)
  then show "length (vdm_fill k n) = n * k" by simp
  assume "r < n" "c < k"
  then have "el k (vdm_fill k n) r c = (if r = 0 then ?m1 ! c else ?f (r - 1) c)"
    using fin by (simp add: el_def)
  also have "\<dots> = vandermonde point r c"
  proof (cases r)
    case (Suc q)
    have "gf_exp_at (modnn (q * c)) = alpha (q * c)"
      using less_trans [OF mod_less_divisor [of 255 "q * c"], of 510]
      by (simp add: modnn_eq_mod gf_exp_at_alpha alpha_mod)
    then show ?thesis using Suc by (simp add: vandermonde_def GF_alpha_power)
  qed (use m1(2) [OF \<open>c < k\<close>] in \<open>simp add: vandermonde_def power_0_left\<close>)
  finally show "el k (vdm_fill k n) r c = vandermonde point r c" .
qed

text \<open>
  Every row of the encoding matrix, the identity on top included, is the Vandermonde row of
  its point times the inverse of the top square.
\<close>

definition top_inverse :: "nat \<Rightarrow> nat \<Rightarrow> nat \<Rightarrow> nat \<Rightarrow> gf" where
  "top_inverse k n = el k (invert_vdm (take (k * k) (vdm_fill k n)) k)"

lemma top_square:
  assumes "1 \<le> k" "k \<le> n" "n \<le> 256"
  shows "length (invert_vdm (take (k * k) (vdm_fill k n)) k) = k * k"
    and "r < k \<Longrightarrow> j < k \<Longrightarrow> (\<Sum>c<k. vandermonde point r c * top_inverse k n c j) = (if r = j then 1 else 0)"
proof -
  note fill = vdm_fill_el [OF assms]
  have le: "k * k \<le> n * k" using assms(2) by (rule mult_le_mono1)
  have len: "length (take (k * k) (vdm_fill k n)) = k * k" using fill(1) le by simp
  have v: "el k (take (k * k) (vdm_fill k n)) r c = vandermonde point r c" if "r < k" "c < k" for r c
    using fill(2) [of r c] that assms(2) flat_less [OF that] by (simp add: el_def)
  have inj: "inj_on point {..<k}" using inj_on_point assms by (auto intro: inj_on_subset)
  note inv = invert_vdm_correct [OF len assms(1) v _ inj, simplified]
  show "length (invert_vdm (take (k * k) (vdm_fill k n)) k) = k * k" using inv(1) by simp
  show "r < k \<Longrightarrow> j < k \<Longrightarrow> (\<Sum>c<k. vandermonde point r c * top_inverse k n c j) = (if r = j then 1 else 0)"
    using inv(2) by (simp add: top_inverse_def)
qed

lemma unit_diagonal:
  assumes "length m = n * k" "k \<le> n"
  shows "length (for_range 0 k (\<lambda>col enc. enc[col * (k + 1) := 1]) m) = n * k
    \<and> (\<forall>i<n. \<forall>j<k. el k (for_range 0 k (\<lambda>col enc. enc[col * (k + 1) := 1]) m) i j
        = (if i = j then 1 else el k m i j))"
proof -
  let ?P = "\<lambda>x d. length d = n * k \<and> (\<forall>i<n. \<forall>j<k. el k d i j = (if i = j \<and> j < x then 1 else el k m i j))"
  have "?P k (for_range 0 k (\<lambda>col enc. enc[col * (k + 1) := 1]) m)"
  proof (rule for_range_invariant [where P = ?P])
    fix x d assume x: "x < k" and P: "?P x d"
    have pos: "x * (k + 1) = x * k + x" by simp
    have "el k (d[x * k + x := 1]) i j = (if i = j \<and> j < Suc x then 1 else el k m i j)" if "i < n" "j < k" for i j
      using P that x flat_less [OF that] flat_inj [of j k x i x]
      by (auto simp: el_def nth_list_update less_Suc_eq)
    then show "?P (Suc x) (d[x * (k + 1) := 1])" using P unfolding pos by simp
  qed (use assms in simp_all)
  then show ?thesis by auto
qed

lemma systematic_el:
  assumes "1 \<le> k" "k \<le> n" "n \<le> 256"
  shows "length (systematic k n (vdm_fill k n)) = n * k"
    and "i < n \<Longrightarrow> j < k \<Longrightarrow> el k (systematic k n (vdm_fill k n)) i j
      = (\<Sum>c<k. vandermonde point i c * top_inverse k n c j)"
proof -
  let ?v = "vdm_fill k n"
  let ?t = "invert_vdm (take (k * k) ?v) k @ drop (k * k) ?v"
  let ?z = "drop (k * k) (replicate (n * k) (0 :: gf))"
  let ?b = "matmul (drop (k * k) ?t) ?t ?z (n - k) k k"
  let ?e = "replicate (k * k) 0 @ ?b"
  note fill = vdm_fill_el [OF assms] and top = top_square [OF assms]
  have le: "k * k \<le> n * k" using assms(2) by (rule mult_le_mono1)
  have lz: "length ?z = (n - k) * k" by (simp add: diff_mult_distrib)
  have le_e: "length ?e = n * k" using length_matmul [OF lz, of "drop (k * k) ?t" ?t k] le by (simp add: diff_mult_distrib)
  have sys: "systematic k n ?v = for_range 0 k (\<lambda>col enc. enc[col * (k + 1) := 1]) ?e"
    using le by (simp add: systematic_def Let_def)
  note diag = unit_diagonal [OF le_e assms(2)]
  show "length (systematic k n ?v) = n * k" using diag sys by simp
  assume ij: "i < n" "j < k"
  have tl: "el k ?t c j = top_inverse k n c j" if "c < k" for c
    using flat_less [OF that ij(2)] top(1) by (simp add: el_def top_inverse_def nth_append)
  show "el k (systematic k n ?v) i j = (\<Sum>c<k. vandermonde point i c * top_inverse k n c j)"
  proof (cases "i < k")
    case True
    have "el k ?e i j = 0" using flat_less [OF True ij(2)] by (simp add: el_def nth_append)
    then show ?thesis using diag ij sys top(2) [OF True ij(2)] by simp
  next
    case False
    have ik: "i * k + j = k * k + ((i - k) * k + j)"
      using False by (metis add.assoc add_mult_distrib le_add_diff_inverse not_less)
    have "el k ?e i j = el k ?b (i - k) j"
      unfolding el_def ik by (simp add: nth_append)
    also have "\<dots> = (\<Sum>c<k. el k (drop (k * k) ?t) (i - k) c * el k ?t c j)"
      using ij False by (intro matmul_el [OF lz]) auto
    also have "\<dots> = (\<Sum>c<k. vandermonde point i c * top_inverse k n c j)"
    proof (rule sum.cong [OF refl])
      fix c assume c: "c \<in> {..<k}"
      have ic: "i * k + c = k * k + ((i - k) * k + c)"
        using False by (metis add.assoc add_mult_distrib le_add_diff_inverse not_less)
      have "el k (drop (k * k) ?t) (i - k) c = el k ?v i c"
        using top(1) fill(1) le by (simp add: el_def nth_append ic add.assoc)
      then show "el k (drop (k * k) ?t) (i - k) c * el k ?t c j = vandermonde point i c * top_inverse k n c j"
        using c ij tl fill(2) [OF ij(1)] by simp
    qed
    finally show ?thesis using diag ij sys False by simp
  qed
qed

text \<open>Any \<open>k\<close> rows with distinct numbers form a matrix that is not singular.\<close>

lemma rows_not_singular:
  assumes kn: "1 \<le> k" "k \<le> n" "n \<le> 256"
    and idx: "\<And>i. i < k \<Longrightarrow> index i < n" "inj_on index {..<k}"
    and E: "\<And>i j. i < k \<Longrightarrow> j < k \<Longrightarrow> A i j = el k (systematic k n (vdm_fill k n)) (index i) j"
  shows "\<not> singular k A"
proof
  assume "singular k A"
  then obtain x j where x: "kills k A x" and j: "j < k" "x j \<noteq> 0" by (auto simp: singular_def)
  let ?T = "top_inverse k n"
  define z where "z c = (\<Sum>j<k. ?T c j * x j)" for c
  have swap: "(\<Sum>j<k. (\<Sum>c<k. vandermonde point r c * ?T c j) * x j) = (\<Sum>c<k. vandermonde point r c * z c)" for r
    unfolding z_def sum_distrib_right sum_distrib_left mult.assoc by (rule sum.swap)
  have "(\<Sum>c<k. vandermonde point r c * z c) = 0" if r: "r \<in> index ` {..<k}" for r
  proof -
    obtain i where i: "i < k" "r = index i" using r by auto
    have "0 = lin k A x i" using x i by (simp add: kills_def)
    also have "\<dots> = (\<Sum>j<k. (\<Sum>c<k. vandermonde point r c * ?T c j) * x j)"
      unfolding lin_def using i idx(1) [OF i(1)] E systematic_el(2) [OF kn] by (intro sum.cong) auto
    finally show ?thesis using swap [of r] by simp
  qed
  moreover have "inj_on point (index ` {..<k})"
  proof (rule inj_on_subset [OF inj_on_point])
    have "index i < 256" if "i < k" for i using idx(1) [OF that] kn(3) by simp
    then show "index ` {..<k} \<subseteq> {..<256}" by auto
  qed
  ultimately have z0: "z c = 0" if "c < k" for c
    using that vandermonde_injective [of point "index ` {..<k}" k z c] card_image [OF idx(2)]
    by (metis card_lessThan finite_imageI finite_lessThan)
  have "x j = (\<Sum>i<k. (if j = i then 1 else 0) * x i)"
    using j(1) by (simp add: if_distrib [of "\<lambda>z. z * _"] cong: if_cong)
  also have "\<dots> = (\<Sum>i<k. (\<Sum>c<k. vandermonde point j c * ?T c i) * x i)"
    using top_square(2) [OF kn j(1)] by (intro sum.cong) auto
  also have "\<dots> = 0" using swap [of j] z0 by simp
  finally show False using j by simp
qed

section \<open>Encoding\<close>

text \<open>What a successful \<open>fec_new\<close> promises, and the entry of the encoding matrix.\<close>

definition valid_code :: "fec_parms \<Rightarrow> bool" where
  "valid_code code \<longleftrightarrow> 1 \<le> code_k code \<and> code_k code \<le> code_n code \<and> code_n code \<le> 256
     \<and> enc_matrix code = systematic (code_k code) (code_n code) (vdm_fill (code_k code) (code_n code))"

definition coefficient :: "fec_parms \<Rightarrow> nat \<Rightarrow> nat \<Rightarrow> gf" where
  "coefficient code i j = el (code_k code) (enc_matrix code) i j"

lemma fec_new_valid: "fec_new k n = ok (Some code) \<Longrightarrow> valid_code code \<and> code_k code = k \<and> code_n code = n"
  by (auto simp: fec_new_def valid_code_def split: if_splits)

lemma fec_new_ok: "1 \<le> k \<Longrightarrow> k \<le> n \<Longrightarrow> n \<le> 256 \<Longrightarrow> \<exists>code. fec_new k n = ok (Some code)"
  by (simp add: fec_new_def)

lemma length_enc_matrix: "valid_code code \<Longrightarrow> length (enc_matrix code) = code_n code * code_k code"
  using systematic_el(1) [of "code_k code" "code_n code"] by (simp add: valid_code_def)

lemma coefficient_native:
  assumes "valid_code code" "i < code_k code" "j < code_k code"
  shows "coefficient code i j = (if i = j then 1 else 0)"
  using assms systematic_el(2) [of "code_k code" "code_n code" i j] top_square(2) [of "code_k code" "code_n code" i j]
  by (simp add: valid_code_def coefficient_def)

text \<open>Accumulating several multiples of packets.\<close>

lemma addmul_sum:
  assumes "\<And>i. i < k \<Longrightarrow> sz \<le> length (f i)" "sz \<le> length d"
  shows "length (for_range 0 k (\<lambda>i d. addmul d (f i) (g i) sz) d) = length d
    \<and> (\<forall>s < sz. for_range 0 k (\<lambda>i d. addmul d (f i) (g i) sz) d ! s = d ! s + (\<Sum>i<k. g i * f i ! s))
    \<and> drop sz (for_range 0 k (\<lambda>i d. addmul d (f i) (g i) sz) d) = drop sz d"
proof -
  let ?P = "\<lambda>n e. length e = length d \<and> (\<forall>s < sz. e ! s = d ! s + (\<Sum>i<n. g i * f i ! s)) \<and> drop sz e = drop sz d"
  have "?P k (for_range 0 k (\<lambda>i d. addmul d (f i) (g i) sz) d)"
  proof (rule for_range_invariant [where P = ?P])
    fix n e assume "n < k" and P: "?P n e"
    have len: "length (addmul e (f n) (g n) sz) = length e" using P assms(2) by (intro length_addmul) simp
    have "drop sz (addmul e (f n) (g n) sz) = drop sz e"
      using conjunct1 [OF P] assms(2) len by (intro nth_equalityI) (simp_all add: addmul_nth)
    then show "?P (Suc n) (addmul e (f n) (g n) sz)"
      using P assms(2) len by (simp add: addmul_nth add.assoc)
  qed (use assms in simp_all)
  then show ?thesis .
qed

theorem fec_encode_nth:
  assumes code: "valid_code code" and idx: "index < code_n code"
    and srcs: "\<And>i. i < code_k code \<Longrightarrow> sz \<le> length (srcs ! i)" and fec: "sz \<le> length fec"
  shows "length (fec_encode code srcs fec index sz) = length fec"
    and "s < sz \<Longrightarrow> fec_encode code srcs fec index sz ! s = (\<Sum>j<code_k code. coefficient code index j * srcs ! j ! s)"
proof -
  let ?k = "code_k code" and ?r = "fec_encode code srcs fec index sz"
  have "length ?r = length fec \<and> (s < sz \<longrightarrow> ?r ! s = (\<Sum>j<?k. coefficient code index j * srcs ! j ! s))"
  proof (cases "index < ?k")
    case True
    have "coefficient code index j * srcs ! j ! s = (if j = index then srcs ! index ! s else 0)" if "j < ?k" for j
      using coefficient_native [OF code True that] by simp
    then have "(\<Sum>j<?k. coefficient code index j * srcs ! j ! s) = (\<Sum>j<?k. if j = index then srcs ! index ! s else 0)"
      by (intro sum.cong) auto
    then show ?thesis using True srcs [OF True] fec by (simp add: fec_encode_def nth_append)
  next
    case False
    let ?fec = "replicate sz 0 @ drop sz fec"
    have "?r = for_range 0 ?k (\<lambda>i d. addmul d (srcs ! i) (drop (index * ?k) (enc_matrix code) ! i) sz) ?fec"
      using False idx by (simp add: fec_encode_def Let_def)
    moreover have "drop (index * ?k) (enc_matrix code) ! i = coefficient code index i" if "i < ?k" for i
      using mult_le_mono1 [of index "code_n code" ?k] idx length_enc_matrix [OF code]
      by (simp add: coefficient_def el_def)
    ultimately show ?thesis
      using addmul_sum [of ?k sz "\<lambda>i. srcs ! i" ?fec "\<lambda>i. drop (index * ?k) (enc_matrix code) ! i"] srcs fec
      by (simp add: nth_append)
  qed
  then show "length ?r = length fec"
    and "s < sz \<Longrightarrow> ?r ! s = (\<Sum>j<?k. coefficient code index j * srcs ! j ! s)" by simp_all
qed

section \<open>Decoding\<close>

lemma length_swap_at [simp]: "length (swap_at i j xs) = length xs"
  by (simp add: swap_at_def Let_def)

lemma swap_at_nth:
  "i < length xs \<Longrightarrow> j < length xs \<Longrightarrow> n < length xs \<Longrightarrow> swap_at i j xs ! n = xs ! swp i j n"
  by (auto simp: swap_at_def Let_def nth_list_update swp_def)

text \<open>
  \<open>shuffle\<close> succeeds when the native packets are distinct. It keeps each packet with its
  number, and afterwards every native packet is in its own place.
\<close>

lemma shuffle_from_ok:
  assumes "k \<le> length index" "k \<le> length pkt" "inj_on ((!) index) {..<k}"
    and "\<And>j. j < k \<Longrightarrow> Q (index ! j) (pkt ! j)" "\<And>j. j < i \<Longrightarrow> index ! j \<ge> k \<or> index ! j = j" "i \<le> k"
  shows "\<exists>pkt' index'. shuffle_from k i pkt index = ok (False, pkt', index')
    \<and> length pkt' = length pkt \<and> length index' = length index \<and> inj_on ((!) index') {..<k}
    \<and> (\<forall>j<k. Q (index' ! j) (pkt' ! j)) \<and> (\<forall>j<k. index' ! j \<ge> k \<or> index' ! j = j)"
  using assms
proof (induction k i pkt index rule: shuffle_from.induct)
  case (1 k i pkt index)
  show ?case
  proof (cases "i < k")
    case False
    then show ?thesis using "1.prems" by (subst shuffle_from.simps) auto
  next
    case True
    then have len: "i < length index \<and> i < length pkt" using "1.prems" by simp
    show ?thesis
    proof (cases "index ! i \<ge> k \<or> index ! i = i")
      case True': True
      have "shuffle_from k i pkt index = shuffle_from k (i + 1) pkt index"
        using True True' len by (subst shuffle_from.simps) simp
      moreover have "j < i + 1 \<Longrightarrow> index ! j \<ge> k \<or> index ! j = j" for j
        using "1.prems"(5) [of j] True' by (cases "j = i") auto
      ultimately show ?thesis
        using "1.IH"(1) [OF _ _ True'] True len "1.prems"(1-4) by simp
    next
      case False
      define c where "c = index ! i"
      have c: "c < k" "c \<noteq> i" using False by (simp_all add: c_def)
      then have lc: "c < length index \<and> c < length pkt" using "1.prems" by simp
      have nc: "index ! c \<noteq> c"
        using inj_onD [OF "1.prems"(3), of c i] c True by (auto simp: c_def)
      let ?p = "swap_at i c pkt" and ?x = "swap_at i c index"
      have "shuffle_from k i pkt index = shuffle_from k i ?p ?x"
        using True False len lc nc by (subst shuffle_from.simps) (simp add: c_def Let_def)
      moreover have xn: "?x ! n = index ! swp i c n" and pn: "?p ! n = pkt ! swp i c n" if "n < k" for n
        using that len lc "1.prems"(1,2) by (simp_all add: swap_at_nth)
      moreover have "inj_on ((!) ?x) {..<k}"
      proof (rule inj_onI)
        fix a b assume "a \<in> {..<k}" "b \<in> {..<k}" "?x ! a = ?x ! b"
        then have "swp i c a = swp i c b"
          using xn c True inj_onD [OF "1.prems"(3), of "swp i c a" "swp i c b"] by (simp add: swp_less)
        then show "a = b" by (metis swp_swp)
      qed
      moreover have "j < i \<Longrightarrow> ?x ! j \<ge> k \<or> ?x ! j = j" for j
      proof -
        assume j: "j < i"
        then show ?thesis
          using xn [of j] True "1.prems"(5) [of j] by (cases "j = c") (simp_all add: swp_def c_def)
      qed
      ultimately show ?thesis
        using "1.IH"(2) [OF _ _ False c_def] True False len lc nc "1.prems"(1,2,4,6) c
        by (simp add: swp_less)
    qed
  qed
qed

lemma decode_rows_el:
  assumes code: "valid_code code" and idx: "\<And>i. i \<in> set is \<Longrightarrow> i < code_k code \<and> index ! i < code_n code
    \<and> (index ! i \<ge> code_k code \<or> index ! i = i)"
  shows "\<exists>m. decode_rows code index is = Some m \<and> length m = length is * code_k code
    \<and> (\<forall>r<length is. \<forall>j<code_k code. el (code_k code) m r j = coefficient code (index ! (is ! r)) j)"
  using idx
proof (induction "is")
  case (Cons i "is")
  let ?k = "code_k code"
  obtain m where m: "decode_rows code index is = Some m" "length m = length is * ?k"
    "\<And>r j. r < length is \<Longrightarrow> j < ?k \<Longrightarrow> el ?k m r j = coefficient code (index ! (is ! r)) j"
    using Cons by auto
  have i: "i < ?k" "index ! i < code_n code" "index ! i \<ge> ?k \<or> index ! i = i" using Cons.prems [of i] by simp_all
  define row where "row = (if index ! i < ?k then (replicate ?k 0)[i := 1]
     else take ?k (drop (index ! i * ?k) (enc_matrix code)))"
  have le: "index ! i * ?k + ?k \<le> length (enc_matrix code)"
    using mult_le_mono1 [of "Suc (index ! i)" "code_n code" ?k] i(2) length_enc_matrix [OF code] by simp
  have row: "length row = ?k" using le by (simp add: row_def)
  have rown: "row ! j = coefficient code (index ! i) j" if "j < ?k" for j
  proof (cases "index ! i < ?k")
    case True
    then show ?thesis using i that coefficient_native [OF code i(1) that] by (simp add: row_def nth_list_update)
  next
    case False
    then show ?thesis using le that by (simp add: row_def coefficient_def el_def)
  qed
  have dec: "decode_rows code index (i # is) = Some (row @ m)"
    using m(1) i(2) by (simp add: row_def Let_def)
  have "el ?k (row @ m) r j = coefficient code (index ! ((i # is) ! r)) j" if "r < Suc (length is)" "j < ?k" for r j
  proof (cases r)
    case 0
    then show ?thesis using row rown that(2) by (simp add: el_def nth_append)
  next
    case (Suc q)
    have "el ?k (row @ m) r j = el ?k m q j" using row Suc by (simp add: el_def nth_append)
    then show ?thesis using m(3) [of q j] that Suc by simp
  qed
  then show ?case using dec row m(2) by simp
qed simp

lemma build_decode_matrix_inverse:
  assumes code: "valid_code code" and inj: "inj_on ((!) index) {..<code_k code}"
    and idx: "\<And>i. i < code_k code \<Longrightarrow> index ! i < code_n code \<and> (index ! i \<ge> code_k code \<or> index ! i = i)"
  shows "\<exists>m. build_decode_matrix code index = Some m \<and>
    (\<forall>x y. (\<forall>i<code_k code. y i = (\<Sum>j<code_k code. coefficient code (index ! i) j * x j))
       \<longrightarrow> (\<forall>i<code_k code. x i = (\<Sum>j<code_k code. m ! (i * code_k code + j) * y j)))"
proof -
  let ?k = "code_k code"
  obtain a where a: "decode_rows code index [0..<?k] = Some a" "length a = ?k * ?k"
    "\<And>r j. r < ?k \<Longrightarrow> j < ?k \<Longrightarrow> el ?k a r j = coefficient code (index ! r) j"
    using decode_rows_el [OF code, of "[0..<?k]" index] idx by auto
  have "\<not> singular ?k (el ?k a)"
    using code idx inj a(3)
    by (intro rows_not_singular [of ?k "code_n code" "(!) index"]) (auto simp: valid_code_def coefficient_def)
  then obtain m where m: "invert_mat a ?k = Some m" using invert_mat_Some_iff [OF a(2)] by blast
  have "lin ?k (el ?k a) x i = (\<Sum>j<?k. coefficient code (index ! i) j * x j)" if "i < ?k" for x i
    using a(3) that by (simp add: lin_def)
  then show ?thesis
    using invert_mat_Some(2) [OF a(2) m] a(1) m
    by (intro exI [of _ m]) (simp add: build_decode_matrix_def lin_def el_def)
qed

lemma decode_packet_nth:
  assumes "\<And>i. i < k \<Longrightarrow> sz \<le> length (pkt ! i)"
  shows "length (decode_packet k sz m pkt row) = sz"
    and "s < sz \<Longrightarrow> decode_packet k sz m pkt row ! s = (\<Sum>j<k. m ! (row * k + j) * pkt ! j ! s)"
  using addmul_sum [of k sz "\<lambda>i. pkt ! i" "replicate sz 0" "\<lambda>i. m ! (row * k + i)"] assms
  by (simp_all add: decode_packet_def)

lemma move_loop_nth:
  assumes "k \<le> length pkt"
  shows "length (for_range 0 k (\<lambda>row p. if P row then p[row := v row @ drop sz (p ! row)] else p) pkt) = length pkt
    \<and> (\<forall>j<length pkt. for_range 0 k (\<lambda>row p. if P row then p[row := v row @ drop sz (p ! row)] else p) pkt ! j
        = (if j < k \<and> P j then v j @ drop sz (pkt ! j) else pkt ! j))"
proof -
  let ?f = "\<lambda>row p. if P row then p[row := v row @ drop sz (p ! row)] else p"
  let ?Q = "\<lambda>n p. length p = length pkt \<and> (\<forall>j<length pkt. p ! j = (if j < n \<and> P j then v j @ drop sz (pkt ! j) else pkt ! j))"
  have "?Q k (for_range 0 k ?f pkt)"
  proof (rule for_range_invariant [where P = ?Q])
    fix n p assume "n < k" "?Q n p"
    then show "?Q (Suc n) (?f n p)" using assms by (auto simp: nth_list_update less_Suc_eq)
  qed simp_all
  then show ?thesis .
qed

text \<open>
  The theorem of the code: from any \<open>k\<close> packets with distinct numbers the originals come
  back, each in its own place.
\<close>

theorem fec_decode_recovers:
  assumes code: "valid_code code"
    and len: "code_k code \<le> length index" "code_k code \<le> length pkt"
    and inj: "inj_on ((!) index) {..<code_k code}"
    and idx: "\<And>i. i < code_k code \<Longrightarrow> index ! i < code_n code"
    and pkt: "\<And>i. i < code_k code \<Longrightarrow> sz \<le> length (pkt ! i)
      \<and> (\<forall>s < sz. pkt ! i ! s = (\<Sum>j<code_k code. coefficient code (index ! i) j * srcs j s))"
  shows "\<exists>pkt' index'. fec_decode code pkt index sz = ok (False, pkt', index') \<and> length pkt' = length pkt
    \<and> (\<forall>i<code_k code. sz \<le> length (pkt' ! i) \<and> (\<forall>s < sz. pkt' ! i ! s = srcs i s))"
proof -
  let ?k = "code_k code"
  let ?Q = "\<lambda>ix p. ix < code_n code \<and> sz \<le> length p
    \<and> (\<forall>s < sz. p ! s = (\<Sum>j<?k. coefficient code ix j * srcs j s))"
  obtain pkt1 index1 where sh: "shuffle pkt index ?k = ok (False, pkt1, index1)"
    and len1: "length pkt1 = length pkt" "length index1 = length index"
    and inj1: "inj_on ((!) index1) {..<?k}" and Q1: "\<And>j. j < ?k \<Longrightarrow> ?Q (index1 ! j) (pkt1 ! j)"
    and pos1: "\<And>j. j < ?k \<Longrightarrow> index1 ! j \<ge> ?k \<or> index1 ! j = j"
    using shuffle_from_ok [OF len inj, of ?Q 0] idx pkt unfolding shuffle_def by auto
  obtain m where m: "build_decode_matrix code index1 = Some m"
    and minv: "\<And>x y. \<forall>i<?k. y i = (\<Sum>j<?k. coefficient code (index1 ! i) j * x j) \<Longrightarrow>
      \<forall>i<?k. x i = (\<Sum>j<?k. m ! (i * ?k + j) * y j)"
  proof -
    have "\<And>i. i < ?k \<Longrightarrow> index1 ! i < code_n code \<and> (index1 ! i \<ge> ?k \<or> index1 ! i = i)"
      using Q1 pos1 by blast
    then show thesis using build_decode_matrix_inverse [OF code inj1] that by blast
  qed
  have rec: "srcs i s = (\<Sum>j<?k. m ! (i * ?k + j) * pkt1 ! j ! s)" if "i < ?k" "s < sz" for i s
    using minv [of "\<lambda>i. pkt1 ! i ! s" "\<lambda>j. srcs j s"] Q1 that by blast
  let ?new = "map (\<lambda>row. if index1 ! row \<ge> ?k then decode_packet ?k sz m pkt1 row else []) [0..<?k]"
  let ?pkt2 = "for_range 0 ?k (\<lambda>row p. if index1 ! row \<ge> ?k then p[row := ?new ! row @ drop sz (p ! row)] else p) pkt1"
  have dec: "fec_decode code pkt index sz = ok (False, ?pkt2, index1)"
    by (simp add: fec_decode_def sh m Let_def)
  note move = move_loop_nth [of ?k pkt1 "\<lambda>row. index1 ! row \<ge> ?k" "\<lambda>row. ?new ! row" sz]
  have "sz \<le> length (?pkt2 ! i) \<and> (\<forall>s < sz. ?pkt2 ! i ! s = srcs i s)" if i: "i < ?k" for i
  proof (cases "index1 ! i \<ge> ?k")
    case True
    have "?pkt2 ! i = decode_packet ?k sz m pkt1 i @ drop sz (pkt1 ! i)"
      using move True i len len1 by simp
    then show ?thesis
      using decode_packet_nth [where k = ?k and sz = sz and pkt = pkt1 and m = m and row = i] Q1 rec [OF i] by (simp add: nth_append)
  next
    case False
    then have "index1 ! i = i" using pos1 [OF i] by simp
    moreover have "?pkt2 ! i = pkt1 ! i" using move False i len len1 by simp
    moreover have "(\<Sum>j<?k. coefficient code i j * srcs j s) = srcs i s" for s
    proof -
      have "(\<Sum>j<?k. coefficient code i j * srcs j s) = (\<Sum>j<?k. if i = j then srcs j s else 0)"
        using coefficient_native [OF code i] by (intro sum.cong) auto
      then show ?thesis using i by simp
    qed
    ultimately show ?thesis using Q1 [OF i] by simp
  qed
  then show ?thesis using dec move len len1 by auto
qed

end
