(* ===== verification/Fec_Contract.thy ===== *)
theory Fec_Contract
  imports Fec_Code "HOL-Library.Multiset"
begin

text \<open>
  The contract of the erasure code towards its clients: what \<open>fec_decode\<close> keeps of its
  arguments on every input, when it reports an error, and the locale \<open>erasure_code\<close> with its
  interpretation on \<open>fec_new\<close>, \<open>fec_encode\<close> and \<open>fec_decode\<close>.
\<close>

section \<open>What shuffling keeps\<close>

lemma mset_swap_at: "i < length xs \<Longrightarrow> j < length xs \<Longrightarrow> mset (swap_at i j xs) = mset xs"
  using mset_swap [of j xs i] by (simp add: swap_at_def Let_def list_update_swap)

lemma take_swap_at: "i < k \<Longrightarrow> j < k \<Longrightarrow> k \<le> length xs \<Longrightarrow> take k (swap_at i j xs) = swap_at i j (take k xs)"
  by (simp add: swap_at_def Let_def take_update_swap)

lemma shuffle_from_shape:
  assumes "k \<le> length pkt" "k \<le> length index" "\<And>j. j < i \<Longrightarrow> index ! j \<ge> k \<or> index ! j = j"
  shows "\<exists>err pkt' index'. shuffle_from k i pkt index = ok (err, pkt', index')
    \<and> mset pkt' = mset pkt \<and> length index' = length index \<and> mset (take k index') = mset (take k index)
    \<and> (\<not> err \<longrightarrow> (\<forall>j<k. index' ! j \<ge> k \<or> index' ! j = j))"
  using assms
proof (induction k i pkt index rule: shuffle_from.induct)
  case (1 k i pkt index)
  show ?case
  proof (cases "i < k")
    case False
    then show ?thesis using "1.prems" by (subst shuffle_from.simps) auto
  next
    case True
    then have len: "i < length index \<and> i < length pkt" using "1.prems" by simp
    show ?thesis
    proof (cases "index ! i \<ge> k \<or> index ! i = i")
      case True': True
      have "shuffle_from k i pkt index = shuffle_from k (i + 1) pkt index"
        using True True' len by (subst shuffle_from.simps) simp
      moreover have "j < i + 1 \<Longrightarrow> index ! j \<ge> k \<or> index ! j = j" for j
        using "1.prems"(3) [of j] True' by (cases "j = i") auto
      ultimately show ?thesis using "1.IH"(1) [OF _ _ True'] True len "1.prems"(1,2) by simp
    next
      case False
      define c where "c = index ! i"
      have c: "c < k" "c < length index" "c < length pkt" using False "1.prems"(1,2) by (simp_all add: c_def)
      show ?thesis
      proof (cases "index ! c = c")
        case True'': True
        then have "shuffle_from k i pkt index = ok (True, pkt, index)"
          using True False len c by (subst shuffle_from.simps) (simp add: c_def Let_def)
          then show ?thesis by (intro exI [of _ True] exI [of _ pkt] exI [of _ index]) simp
      next
        case nc: False
        let ?p = "swap_at i c pkt" and ?x = "swap_at i c index"
        have eq: "shuffle_from k i pkt index = shuffle_from k i ?p ?x"
          using True False len c nc by (subst shuffle_from.simps) (simp add: c_def Let_def)
        have "?x ! j \<ge> k \<or> ?x ! j = j" if "j < i" for j
          using that len c "1.prems"(3) [of j] swap_at_nth [of i index c j]
          by (cases "j = c") (auto simp: swp_def c_def)
        moreover have "mset (take k ?x) = mset (take k index)"
          using True c "1.prems"(2) by (simp add: take_swap_at mset_swap_at)
        ultimately show ?thesis
          using "1.IH"(2) [OF _ _ False c_def] True len c nc "1.prems"(1,2)
          by (simp add: eq mset_swap_at)
      qed
    qed
  qed
qed

lemma shuffle_shape:
  assumes "k \<le> length pkt" "k \<le> length index"
  obtains err pkt' index' where "shuffle pkt index k = ok (err, pkt', index')"
    "mset pkt' = mset pkt" "length index' = length index" "mset (take k index') = mset (take k index)"
    "\<not> err \<Longrightarrow> \<forall>j<k. index' ! j \<ge> k \<or> index' ! j = j"
  using shuffle_from_shape [OF assms, of 0] by (auto simp: shuffle_def)

section \<open>Errors of the decoder\<close>

text \<open>A matrix with two equal rows has no inverse.\<close>

lemma equal_rows_not_inverted:
  assumes len: "length m = k * k" and ab: "a < k" "b < k" "a \<noteq> b"
    and rows: "\<And>j. j < k \<Longrightarrow> el k m a j = el k m b j"
  shows "invert_mat m k = None"
proof (rule ccontr)
  assume "invert_mat m k \<noteq> None"
  then obtain m' where m': "invert_mat m k = Some m'" by blast
  define y where "y i = (if i = a then 1 else 0 :: gf)" for i
  have "\<forall>i<k. y i = lin k (el k m) (lin k (el k m') y) i"
    using invert_mat_Some(2) [OF len m', of y "lin k (el k m') y"] by simp
  then have "y a = lin k (el k m) (lin k (el k m') y) a" "y b = lin k (el k m) (lin k (el k m') y) b"
    using ab by blast+
  moreover have "lin k (el k m) z a = lin k (el k m) z b" for z
    using rows by (simp add: lin_def)
  ultimately show False using ab by (simp add: y_def)
qed

lemma decode_rows_None: "i \<in> set is \<Longrightarrow> code_k code \<le> index ! i \<Longrightarrow> code_n code \<le> index ! i
    \<Longrightarrow> decode_rows code index is = None"
  by (induction "is") (auto simp: Let_def)

lemma build_decode_matrix_duplicate:
  assumes code: "valid_code code" and place: "\<forall>j<code_k code. index ! j \<ge> code_k code \<or> index ! j = j"
    and dup: "a < code_k code" "b < code_k code" "a \<noteq> b" "index ! a = index ! b"
  shows "build_decode_matrix code index = None"
proof (cases "\<exists>i<code_k code. index ! i \<ge> code_n code")
  case True
  then obtain i where i: "i < code_k code" "index ! i \<ge> code_n code" by blast
  then have "code_k code \<le> index ! i" using code by (simp add: valid_code_def)
  then show ?thesis
    using decode_rows_None [of i "[0..<code_k code]" code index] i by (simp add: build_decode_matrix_def)
next
  case False
  let ?k = "code_k code"
  have idx: "i < ?k \<and> index ! i < code_n code \<and> (index ! i \<ge> ?k \<or> index ! i = i)" if "i \<in> set [0..<?k]" for i
    using that place False by auto
  obtain m where m: "decode_rows code index [0..<?k] = Some m" "length m = ?k * ?k"
    "\<And>r j. r < ?k \<Longrightarrow> j < ?k \<Longrightarrow> el ?k m r j = coefficient code (index ! r) j"
    using decode_rows_el [OF code, of "[0..<?k]" index, OF idx] by auto
  have "invert_mat m ?k = None"
    using m(3) dup by (intro equal_rows_not_inverted [OF m(2) dup(1,2,3)]) simp
  then show ?thesis using m(1) by (simp add: build_decode_matrix_def)
qed

lemma inj_on_nth_take: "k \<le> length xs \<Longrightarrow> inj_on ((!) xs) {..<k} \<longleftrightarrow> distinct (take k xs)"
  by (auto simp: distinct_conv_nth inj_on_def)

text \<open>
  \<open>fec_decode\<close> never leaves its arrays when they hold \<open>k\<close> entries; it keeps the packets'
  lengths, and reports an error when two of the first \<open>k\<close> numbers coincide.
\<close>

lemma fec_decode_shape:
  assumes len: "code_k code \<le> length pkt" "code_k code \<le> length index" "\<And>p. p \<in> set pkt \<Longrightarrow> length p = L" "sz \<le> L"
  obtains err pkt' index' where "fec_decode code pkt index sz = ok (err, pkt', index')"
    "length pkt' = length pkt" "\<And>p. p \<in> set pkt' \<Longrightarrow> length p = L" "length index' = length index"
proof -
  let ?k = "code_k code"
  obtain e p x where s: "shuffle pkt index ?k = ok (e, p, x)" "mset p = mset pkt" "length x = length index"
    using shuffle_shape [OF len(1,2)] by metis
  have lp: "length p = length pkt" using s(2) mset_eq_length by blast
  have pL: "q \<in> set p \<Longrightarrow> length q = L" for q using s(2) len(3) mset_eq_setD by blast
  show thesis
  proof (cases "e \<or> build_decode_matrix code x = None")
    case True
    then have "fec_decode code pkt index sz = ok (True, p, x)"
      using s(1) by (auto simp: fec_decode_def)
    then show thesis using that lp pL s(3) by blast
  next
    case False
    then obtain m where m: "build_decode_matrix code x = Some m" by blast
    let ?new = "map (\<lambda>row. if x ! row \<ge> ?k then decode_packet ?k sz m p row else []) [0..<?k]"
    let ?p2 = "for_range 0 ?k (\<lambda>row p. if x ! row \<ge> ?k then p[row := ?new ! row @ drop sz (p ! row)] else p) p"
    have dec: "fec_decode code pkt index sz = ok (False, ?p2, x)"
      using s(1) m False by (simp add: fec_decode_def Let_def)
    note move = move_loop_nth [of ?k p "\<lambda>row. x ! row \<ge> ?k" "\<lambda>row. ?new ! row" sz]
    have pn: "length (p ! j) = L" if "j < length pkt" for j
      using pL [OF nth_mem] that lp by simp
    have "length (decode_packet ?k sz m p j) = sz" for j
      using pn len(1,4) by (intro decode_packet_nth) simp
    then have "length (?p2 ! j) = L" if "j < length pkt" for j
      using move that pn len(1,4) lp by simp
    then have "\<And>q. q \<in> set ?p2 \<Longrightarrow> length q = L"
      using move len(1) lp by (auto simp: in_set_conv_nth)
    then show thesis using that [OF dec] move len(1) lp s(3) by simp
  qed
qed

lemma fec_decode_duplicate:
  assumes code: "valid_code code" and len: "code_k code \<le> length pkt" "code_k code \<le> length index"
    and dup: "\<not> distinct (take (code_k code) index)"
  shows "\<exists>pkt' index'. fec_decode code pkt index sz = ok (True, pkt', index')"
proof -
  let ?k = "code_k code"
  obtain e p x where s: "shuffle pkt index ?k = ok (e, p, x)" "length x = length index"
    "mset (take ?k x) = mset (take ?k index)" "\<not> e \<Longrightarrow> \<forall>j<?k. x ! j \<ge> ?k \<or> x ! j = j"
    using shuffle_shape [OF len] by metis
  have "\<not> distinct (take ?k x)" using dup s(3) mset_eq_imp_distinct_iff by blast
  then obtain a b where ab: "a < ?k" "b < ?k" "a \<noteq> b" "x ! a = x ! b"
    using s(2) len(2) by (auto simp: distinct_conv_nth)
  have "build_decode_matrix code x = None" if "\<not> e"
    using build_decode_matrix_duplicate [OF code s(4) [OF that] ab] .
  then show ?thesis using s(1) by (cases e) (auto simp: fec_decode_def)
qed

section \<open>The contract\<close>

text \<open>
  What a user of an erasure code relies on. \<open>decode_encode\<close>: \<open>k\<close> packets with distinct numbers,
  each the encoding of the same sources on its first \<open>sz\<close> bytes, decode to the sources.
\<close>

locale erasure_code =
  fixes new_code :: "nat \<Rightarrow> nat \<Rightarrow> 'c option outcome"
    and encode :: "'c \<Rightarrow> 'b list list \<Rightarrow> 'b list \<Rightarrow> nat \<Rightarrow> nat \<Rightarrow> 'b list"
    and decode :: "'c \<Rightarrow> 'b list list \<Rightarrow> nat list \<Rightarrow> nat \<Rightarrow> (bool \<times> 'b list list \<times> nat list) outcome"
  assumes new_ok: "1 \<le> k \<Longrightarrow> k \<le> n \<Longrightarrow> n \<le> 256 \<Longrightarrow> \<exists>code. new_code k n = ok (Some code)"
    and length_encode: "new_code k n = ok (Some code) \<Longrightarrow> i < n \<Longrightarrow> (\<And>j. j < k \<Longrightarrow> sz \<le> length (srcs ! j))
      \<Longrightarrow> sz \<le> length buf \<Longrightarrow> length (encode code srcs buf i sz) = length buf"
    and encode_buffer: "new_code k n = ok (Some code) \<Longrightarrow> i < n \<Longrightarrow> (\<And>j. j < k \<Longrightarrow> sz \<le> length (srcs ! j))
      \<Longrightarrow> sz \<le> length buf \<Longrightarrow> sz \<le> length buf'
      \<Longrightarrow> take sz (encode code srcs buf i sz) = take sz (encode code srcs buf' i sz)"
    and decode_encode: "new_code k n = ok (Some code) \<Longrightarrow> k \<le> length index \<Longrightarrow> k \<le> length pkt
      \<Longrightarrow> distinct (take k index) \<Longrightarrow> (\<And>i. i < k \<Longrightarrow> index ! i < n)
      \<Longrightarrow> (\<And>j. j < k \<Longrightarrow> sz \<le> length (srcs ! j))
      \<Longrightarrow> (\<And>i. i < k \<Longrightarrow> sz \<le> length (pkt ! i)
            \<and> take sz (pkt ! i) = take sz (encode code srcs (replicate sz z) (index ! i) sz))
      \<Longrightarrow> \<exists>pkt' index'. decode code pkt index sz = ok (False, pkt', index')
            \<and> (\<forall>i<k. take sz (pkt' ! i) = take sz (srcs ! i))"
    and decode_shape: "new_code k n = ok (Some code) \<Longrightarrow> k \<le> length index \<Longrightarrow> k \<le> length pkt
      \<Longrightarrow> (\<And>p. p \<in> set pkt \<Longrightarrow> length p = L) \<Longrightarrow> sz \<le> L
      \<Longrightarrow> \<exists>err pkt' index'. decode code pkt index sz = ok (err, pkt', index') \<and> length pkt' = length pkt
            \<and> (\<forall>p\<in>set pkt'. length p = L) \<and> length index' = length index"
begin

text \<open>An encoder's packets \<open>coded\<close>, any \<open>k\<close> of them received in any order, decoded.\<close>

lemma batch_recovers:
  assumes code: "new_code k n = ok (Some code)"
    and coded: "\<And>i. i < n \<Longrightarrow> sz \<le> length (buf i) \<and> coded i = encode code srcs (buf i) i sz"
    and srcs: "\<And>j. j < k \<Longrightarrow> sz \<le> length (srcs ! j)"
    and len: "k \<le> length index" "k \<le> length pkt"
    and idx: "distinct (take k index)" "\<And>i. i < k \<Longrightarrow> index ! i < n"
    and rcv: "\<And>i. i < k \<Longrightarrow> sz \<le> length (pkt ! i) \<and> take sz (pkt ! i) = take sz (coded (index ! i))"
  shows "\<exists>pkt' index'. decode code pkt index sz = ok (False, pkt', index')
    \<and> (\<forall>i<k. take sz (pkt' ! i) = take sz (srcs ! i))"
proof (rule decode_encode [OF code len idx srcs])
  fix i assume i: "i < k"
  fix z
  have "take sz (coded (index ! i)) = take sz (encode code srcs (replicate sz z) (index ! i) sz)"
    using coded [OF idx(2) [OF i]] encode_buffer [OF code idx(2) [OF i] srcs, where buf = "buf (index ! i)" and buf' = "replicate sz z"]
    by simp
  then show "sz \<le> length (pkt ! i) \<and> take sz (pkt ! i) = take sz (encode code srcs (replicate sz z) (index ! i) sz)"
    using rcv [OF i] by simp
qed

end

lemma take_fec_encode:
  assumes new: "fec_new k n = ok (Some code)" and i: "i < n"
    and srcs: "\<And>j. j < k \<Longrightarrow> sz \<le> length (srcs ! j)" and buf: "sz \<le> length buf"
  shows "length (fec_encode code srcs buf i sz) = length buf"
    and "take sz (fec_encode code srcs buf i sz)
      = map (\<lambda>s. \<Sum>j<k. coefficient code i j * srcs ! j ! s) [0..<sz]"
proof -
  have v: "valid_code code" "code_k code = k" "code_n code = n" using fec_new_valid [OF new] by simp_all
  have s: "\<And>j. j < code_k code \<Longrightarrow> sz \<le> length (srcs ! j)" using srcs v by simp
  show l: "length (fec_encode code srcs buf i sz) = length buf"
    using fec_encode_nth(1) [OF v(1) _ s buf] i v by simp
  show "take sz (fec_encode code srcs buf i sz)
      = map (\<lambda>s. \<Sum>j<k. coefficient code i j * srcs ! j ! s) [0..<sz]"
    using fec_encode_nth(2) [OF v(1) _ s buf] i v buf l by (intro nth_equalityI) simp_all
qed

interpretation fec: erasure_code fec_new fec_encode fec_decode
proof
  fix k n sz :: nat and code i and srcs :: "gf list list" and buf buf' :: "gf list"
  assume new: "fec_new k n = ok (Some code)" and i: "i < n" and srcs: "\<And>j. j < k \<Longrightarrow> sz \<le> length (srcs ! j)"
    and buf: "sz \<le> length buf"
  show "length (fec_encode code srcs buf i sz) = length buf"
    using take_fec_encode(1) [OF new i _ buf, of srcs] srcs by blast
  assume "sz \<le> length buf'"
  then show "take sz (fec_encode code srcs buf i sz) = take sz (fec_encode code srcs buf' i sz)"
    using take_fec_encode(2) [OF new i srcs] buf by metis
next
  fix k n sz :: nat and code and index :: "nat list" and pkt srcs :: "gf list list" and z :: gf
  assume new: "fec_new k n = ok (Some code)" and len: "k \<le> length index" "k \<le> length pkt"
    and dist: "distinct (take k index)" and idx: "\<And>i. i < k \<Longrightarrow> index ! i < n"
    and srcs: "\<And>j. j < k \<Longrightarrow> sz \<le> length (srcs ! j)"
    and rcv: "\<And>i. i < k \<Longrightarrow> sz \<le> length (pkt ! i)
      \<and> take sz (pkt ! i) = take sz (fec_encode code srcs (replicate sz z) (index ! i) sz)"
  have v: "valid_code code" "code_k code = k" "code_n code = n" using fec_new_valid [OF new] by simp_all
  have nth: "sz \<le> length (pkt ! i)
      \<and> (\<forall>s < sz. pkt ! i ! s = (\<Sum>j<code_k code. coefficient code (index ! i) j * srcs ! j ! s))"
    if "i < code_k code" for i
  proof -
    have "i < k" using that v by simp
    moreover from this have t: "take sz (pkt ! i) = map (\<lambda>s. \<Sum>j<k. coefficient code (index ! i) j * srcs ! j ! s) [0..<sz]"
      using rcv take_fec_encode(2) [OF new idx srcs, of i "replicate sz z"] by simp
    have "pkt ! i ! s = (\<Sum>j<k. coefficient code (index ! i) j * srcs ! j ! s)" if "s < sz" for s
      using arg_cong [OF t, of "\<lambda>xs. xs ! s"] that by simp
    ultimately show ?thesis using rcv v by simp
  qed
  obtain pkt' index' where dec: "fec_decode code pkt index sz = ok (False, pkt', index')"
    and rec: "\<And>i. i < k \<Longrightarrow> sz \<le> length (pkt' ! i) \<and> (\<forall>s < sz. pkt' ! i ! s = srcs ! i ! s)"
  proof -
    have "\<exists>pkt' index'. fec_decode code pkt index sz = ok (False, pkt', index') \<and> length pkt' = length pkt
    \<and> (\<forall>i<code_k code. sz \<le> length (pkt' ! i) \<and> (\<forall>s < sz. pkt' ! i ! s = srcs ! i ! s))"
      using nth v len dist idx
      by (intro fec_decode_recovers [where srcs = "\<lambda>j s. srcs ! j ! s"]) (simp_all add: inj_on_nth_take)
    then show thesis using that v by blast
  qed
  have "take sz (pkt' ! i) = take sz (srcs ! i)" if "i < k" for i
    using rec [OF that] srcs [OF that] by (intro nth_equalityI) simp_all
  then show "\<exists>pkt' index'. fec_decode code pkt index sz = ok (False, pkt', index')
      \<and> (\<forall>i<k. take sz (pkt' ! i) = take sz (srcs ! i))"
    using dec by blast
next
  fix k n sz L :: nat and code and index :: "nat list" and pkt :: "gf list list"
  assume "fec_new k n = ok (Some code)" "k \<le> length index" "k \<le> length pkt"
    "\<And>p. p \<in> set pkt \<Longrightarrow> length p = L" "sz \<le> L"
  then show "\<exists>err pkt' index'. fec_decode code pkt index sz = ok (err, pkt', index') \<and> length pkt' = length pkt
      \<and> (\<forall>p\<in>set pkt'. length p = L) \<and> length index' = length index"
    using fec_decode_shape [of code pkt index L sz] fec_new_valid [of k n code] by metis
qed (rule fec_new_ok)

end
