(* ===== verification/Code_Info.thy ===== *)
theory Code_Info
  imports Fec_Contract
begin

text \<open>
  Class \<open>CodeInfo\<close> of \<open>src/fec.h\<close> and \<open>src/fec.cc\<close>: the batch of packets an encoder or a
  decoder collects, and its use of the erasure code. Packets are \<^typ>\<open>gf list\<close> buffers of
  \<open>pkt_size_\<close> bytes; the contents of fresh memory are a parameter \<open>junk\<close> of the constructor.
  The section on the round trip shows that a batch which an encoder built is recovered by a
  decoder from any \<open>k\<close> of its coded packets.
\<close>

section \<open>State and constructor\<close>

datatype codec = kEncoder | kDecoder

text \<open>\<open>original_batch_\<close> is \<open>None\<close> while its pointer is not initialised, as in every decoder.
  The members \<open>k_\<close>, \<open>n_\<close>, \<open>cur_ind_\<close> and the indices come from header bytes and counters and are
  never negative.\<close>

record code_info =
  codec_type :: codec
  max_batch_size :: nat
  ci_pkt_size :: nat
  ci_k :: nat
  ci_n :: nat
  ci_sz :: nat
  ci_start_seq :: u32
  ci_inds :: "nat list"
  ci_lens :: "u16 list"
  cur_ind :: nat
  original_batch :: "gf list list option"
  coded_batch :: "gf list list"

record fresh_memory =
  junk_byte :: "nat \<Rightarrow> nat \<Rightarrow> gf"
  junk_ind :: "nat \<Rightarrow> nat"
  junk_len :: "nat \<Rightarrow> u16"

definition alloc_batch :: "(nat \<Rightarrow> nat \<Rightarrow> gf) \<Rightarrow> nat \<Rightarrow> nat \<Rightarrow> gf list list outcome" where
  "alloc_batch junk k sz =
     (if \<not> (1 \<le> sz \<and> sz \<le> 8192) then abort Assert_Failed
      else if \<not> (1 \<le> k \<and> k \<le> GF_SIZE + 1) then abort Assert_Failed
      else ok (map (\<lambda>i. map (junk i) [0..<sz]) [0..<k]))"

definition CodeInfo :: "fresh_memory \<Rightarrow> codec \<Rightarrow> nat \<Rightarrow> nat \<Rightarrow> code_info outcome" where
  "CodeInfo mem type max_batch pkt_size =
     and_then (case type of kEncoder \<Rightarrow> and_then (alloc_batch (junk_byte mem) max_batch pkt_size) (\<lambda>b. ok (Some b))
                          | kDecoder \<Rightarrow> ok None) (\<lambda>original.
     and_then (alloc_batch (junk_byte mem) (GF_SIZE + 1) pkt_size) (\<lambda>coded.
       ok \<lparr>codec_type = type, max_batch_size = max_batch, ci_pkt_size = pkt_size,
          ci_k = 0, ci_n = 0, ci_sz = 0, ci_start_seq = 0,
          ci_inds = map (junk_ind mem) [0..<GF_SIZE + 1], ci_lens = map (junk_len mem) [0..<max_batch],
          cur_ind = 0, original_batch = original, coded_batch = coded\<rparr>))"

section \<open>Operations\<close>

definition zero_batch :: "gf list list \<Rightarrow> nat \<Rightarrow> nat \<Rightarrow> gf list list" where
  "zero_batch batch k sz = for_range 0 k (\<lambda>i b. b[i := replicate sz 0 @ drop sz (b ! i)]) batch"

definition ClearInfo :: "code_info \<Rightarrow> code_info" where
  "ClearInfo ci =
     ci\<lparr>ci_k := 0, ci_n := 0, ci_sz := 0, ci_start_seq := 0, cur_ind := 0,
        original_batch := (if codec_type ci = kEncoder
          then map_option (\<lambda>b. zero_batch b (max_batch_size ci) (ci_pkt_size ci)) (original_batch ci)
          else original_batch ci),
        coded_batch := zero_batch (coded_batch ci) (GF_SIZE + 1) (ci_pkt_size ci),
        ci_inds := replicate (GF_SIZE + 1) 0,
        ci_lens := replicate (max_batch_size ci) 0\<rparr>"

definition SetCodeInfo :: "nat \<Rightarrow> nat \<Rightarrow> u32 \<Rightarrow> code_info \<Rightarrow> code_info" where
  "SetCodeInfo k n start_seq ci = ci\<lparr>ci_k := k, ci_n := n, ci_start_seq := start_seq\<rparr>"

text \<open>\<open>lens\<close> is the array in the received packet; reading past it is out of bounds.\<close>

definition CopyLens :: "u16 list \<Rightarrow> code_info \<Rightarrow> code_info outcome" where
  "CopyLens lens ci =
     (if \<not> ci_k ci > 0 then abort Assert_Failed
      else if ci_k ci > length lens \<or> ci_k ci > length (ci_lens ci) then abort Out_Of_Bounds
      else ok (ci\<lparr>ci_lens := take (ci_k ci) lens @ drop (ci_k ci) (ci_lens ci)\<rparr>))"

definition GetLen :: "nat \<Rightarrow> code_info \<Rightarrow> u16 outcome" where
  "GetLen i ci = (if i < length (ci_lens ci) then ok (ci_lens ci ! i) else abort Out_Of_Bounds)"

definition MoveToNextPkt :: "code_info \<Rightarrow> code_info" where
  "MoveToNextPkt ci = ci\<lparr>cur_ind := cur_ind ci + 1\<rparr>"

definition ResetCurInd :: "code_info \<Rightarrow> code_info" where
  "ResetCurInd ci = ci\<lparr>cur_ind := 0\<rparr>"

text \<open>\<open>memcpy(batch[i], src, len)\<close>.\<close>

definition store_pkt :: "gf list list \<Rightarrow> nat \<Rightarrow> gf list \<Rightarrow> nat \<Rightarrow> gf list list outcome" where
  "store_pkt batch i pkt len =
     (if \<not> (i < length batch \<and> len \<le> length (batch ! i) \<and> len \<le> length pkt) then abort Out_Of_Bounds
      else ok (batch[i := take len pkt @ drop len (batch ! i)]))"

text \<open>The last four lines of \<open>PushPkt\<close>, after the copy.\<close>

definition count_pkt :: "u16 \<Rightarrow> code_info \<Rightarrow> code_info" where
  "count_pkt len ci =
     ci\<lparr>ci_sz := (if ci_sz ci < unat len then unat len else ci_sz ci), cur_ind := cur_ind ci + 1\<rparr>"

definition PushPkt :: "u16 \<Rightarrow> gf list \<Rightarrow> nat \<Rightarrow> code_info \<Rightarrow> (bool \<times> code_info) outcome" where
  "PushPkt len pkt ind ci =
     (if len = 0 then ok (False, ci)
      else case codec_type ci of
        kEncoder \<Rightarrow>
          if ind \<noteq> 0 \<or> cur_ind ci \<ge> ci_k ci then ok (False, ci)
          else if cur_ind ci \<ge> length (ci_lens ci) then abort Out_Of_Bounds
          else let ci = ci\<lparr>ci_lens := (ci_lens ci)[cur_ind ci := len]\<rparr> in
            (case original_batch ci of
               None \<Rightarrow> abort Null_Deref
             | Some batch \<Rightarrow> and_then (store_pkt batch (cur_ind ci) pkt (unat len)) (\<lambda>batch.
                 ok (True, count_pkt len (ci\<lparr>original_batch := Some batch\<rparr>))))
      | kDecoder \<Rightarrow>
          if ind \<ge> ci_n ci \<or> cur_ind ci \<ge> ci_n ci then ok (False, ci)
          else if cur_ind ci \<ge> length (ci_inds ci) then abort Out_Of_Bounds
          else let ci = ci\<lparr>ci_inds := (ci_inds ci)[cur_ind ci := ind]\<rparr> in
            and_then (store_pkt (coded_batch ci) (cur_ind ci) pkt (unat len)) (\<lambda>batch.
              ok (True, count_pkt len (ci\<lparr>coded_batch := batch\<rparr>))))"

text \<open>
  \<open>PopPkt\<close> hands out the address of the current packet: the model returns the buffer's
  contents, with the length written through \<open>len\<close>; \<open>None\<close> is the result \<open>false\<close>.
\<close>

definition PopPkt :: "code_info \<Rightarrow> ((gf list \<times> u16) option \<times> code_info) outcome" where
  "PopPkt ci =
     (if (case codec_type ci of kEncoder \<Rightarrow> cur_ind ci \<ge> ci_n ci | kDecoder \<Rightarrow> cur_ind ci \<ge> ci_k ci)
      then ok (None, ci)
      else if cur_ind ci \<ge> length (coded_batch ci)
        \<or> (codec_type ci = kDecoder \<and> cur_ind ci \<ge> length (ci_lens ci)) then abort Out_Of_Bounds
      else
        let len = (case codec_type ci of kEncoder \<Rightarrow> word_of_nat (ci_sz ci) | kDecoder \<Rightarrow> ci_lens ci ! cur_ind ci)
        in ok (Some (coded_batch ci ! cur_ind ci, len), ci\<lparr>cur_ind := cur_ind ci + 1\<rparr>))"

text \<open>
  \<open>EncodeBatch\<close>: \<open>fec_encode\<close> reads \<open>code->k\<close>, through a null pointer when \<open>fec_new\<close> refused the
  parameters, unless the loop is empty. Iteration \<open>i\<close> of the loop sets \<open>inds_[i]\<close> and encodes
  packet \<open>i\<close>.
\<close>

definition encode_step :: "fec_parms \<Rightarrow> gf list list \<Rightarrow> nat \<Rightarrow> code_info \<Rightarrow> code_info" where
  "encode_step code original i ci =
     (let ci = ci\<lparr>ci_inds := (ci_inds ci)[i := i]\<rparr> in
      ci\<lparr>coded_batch := (coded_batch ci)
           [i := fec_encode code original (coded_batch ci ! i) (ci_inds ci ! i) (ci_sz ci)]\<rparr>)"

definition EncodeBatch :: "code_info \<Rightarrow> code_info outcome" where
  "EncodeBatch ci =
     and_then (fec_new (ci_k ci) (ci_n ci)) (\<lambda>code_ptr.
       case code_ptr of
         None \<Rightarrow> if ci_n ci = 0 then ok (ci\<lparr>cur_ind := 0\<rparr>) else abort Null_Deref
       | Some code \<Rightarrow>
           (case original_batch ci of
              None \<Rightarrow> abort Null_Deref
            | Some original \<Rightarrow>
                if length original < ci_k ci then abort Out_Of_Bounds
                else ok ((for_range 0 (ci_n ci) (encode_step code original) ci)\<lparr>cur_ind := 0\<rparr>)))"

text \<open>
  \<open>DecodeBatch\<close>: a decoding error is only printed. \<open>fec_decode\<close> permutes the packets and the
  indices in place.
\<close>

definition DecodeBatch :: "code_info \<Rightarrow> code_info outcome" where
  "DecodeBatch ci =
     and_then (fec_new (ci_k ci) (ci_n ci)) (\<lambda>code_ptr.
       case code_ptr of
         None \<Rightarrow> abort Null_Deref
       | Some code \<Rightarrow>
           and_then (fec_decode code (coded_batch ci) (ci_inds ci) (ci_sz ci)) (\<lambda>(error, pkts, inds).
             ok (ci\<lparr>coded_batch := pkts, ci_inds := inds, cur_ind := 0\<rparr>)))"

section \<open>The representation invariant\<close>

text \<open>
  The sizes of the arrays, as the constructor makes them. An encoder owns an original batch,
  and no packet is longer than a buffer.
\<close>

definition code_info_inv :: "code_info \<Rightarrow> bool" where
  "code_info_inv ci \<longleftrightarrow> length (ci_inds ci) = 256 \<and> length (ci_lens ci) = max_batch_size ci
     \<and> length (coded_batch ci) = 256 \<and> (\<forall>p\<in>set (coded_batch ci). length p = ci_pkt_size ci)
     \<and> ci_sz ci \<le> ci_pkt_size ci
     \<and> (case codec_type ci of
          kDecoder \<Rightarrow> True
        | kEncoder \<Rightarrow> (\<exists>b. original_batch ci = Some b \<and> length b = max_batch_size ci
            \<and> (\<forall>p\<in>set b. length p = ci_pkt_size ci)))"

lemma alloc_batch_shape:
  "alloc_batch junk k sz = ok b \<Longrightarrow> length b = k \<and> (\<forall>p\<in>set b. length p = sz)"
  by (auto simp: alloc_batch_def split: if_splits)

lemma CodeInfo_inv: "CodeInfo mem type mb ps = ok ci \<Longrightarrow> code_info_inv ci \<and> codec_type ci = type"
  by (cases type) (auto simp: CodeInfo_def code_info_inv_def and_then_eq_ok GF_SIZE_def dest: alloc_batch_shape)

lemma zero_batch_shape:
  assumes "length b = m" "k \<le> m" "\<forall>p\<in>set b. length p = L" "sz \<le> L"
  shows "length (zero_batch b k sz) = m \<and> (\<forall>p\<in>set (zero_batch b k sz). length p = L)"
  unfolding zero_batch_def
proof (rule for_range_invariant [where P = "\<lambda>_ b. length b = m \<and> (\<forall>p\<in>set b. length p = L)"])
  fix i and b :: "gf list list"
  assume i: "i < k" and b: "length b = m \<and> (\<forall>p\<in>set b. length p = L)"
  then have "length (b ! i) = L" using assms(2) by simp
  then show "length (b[i := replicate sz 0 @ drop sz (b ! i)]) = m
      \<and> (\<forall>p\<in>set (b[i := replicate sz 0 @ drop sz (b ! i)]). length p = L)"
    using b assms(4) set_update_subset_insert [of b i "replicate sz 0 @ drop sz (b ! i)"] by auto
qed (use assms in simp_all)

lemma ClearInfo_inv: "code_info_inv ci \<Longrightarrow> code_info_inv (ClearInfo ci)"
  using zero_batch_shape [of "coded_batch ci" 256 256 "ci_pkt_size ci" "ci_pkt_size ci"]
    zero_batch_shape [of "the (original_batch ci)" "max_batch_size ci" "max_batch_size ci" "ci_pkt_size ci" "ci_pkt_size ci"]
  by (auto simp: code_info_inv_def ClearInfo_def GF_SIZE_def split: codec.splits)

lemma SetCodeInfo_inv: "code_info_inv (SetCodeInfo k n start ci) = code_info_inv ci"
  by (simp add: code_info_inv_def SetCodeInfo_def cong: codec.case_cong)

lemma CopyLens_inv: "code_info_inv ci \<Longrightarrow> CopyLens lens ci = ok ci' \<Longrightarrow> code_info_inv ci'"
  by (auto simp: code_info_inv_def CopyLens_def split: if_splits codec.splits)

lemma store_pkt_shape:
  assumes "store_pkt b i p len = ok b'" "\<forall>q\<in>set b. length q = L"
  shows "length b' = length b" "\<forall>q\<in>set b'. length q = L" "len \<le> L"
proof -
  have *: "i < length b" "len \<le> length (b ! i)" "len \<le> length p" "b' = b[i := take len p @ drop len (b ! i)]"
    using assms(1) by (auto simp: store_pkt_def split: if_splits)
  then show "length b' = length b" "len \<le> L" using assms(2) nth_mem by auto
  show "\<forall>q\<in>set b'. length q = L"
    using * assms(2) set_update_subset_insert [of b i "take len p @ drop len (b ! i)"] by auto
qed

text \<open>The accepting branches of \<open>PushPkt\<close>, and what its refusal means.\<close>

lemma PushPkt_False: "PushPkt len p ind ci = ok (False, ci') \<Longrightarrow> ci' = ci"
  by (auto simp: PushPkt_def and_then_eq_ok Let_def split: if_splits codec.splits option.splits)

lemma PushPkt_encoder:
  assumes "PushPkt len p ind ci = ok (True, ci')" "codec_type ci = kEncoder"
  obtains b b' where "original_batch ci = Some b" "len \<noteq> 0" "ind = 0" "cur_ind ci < ci_k ci" "cur_ind ci < length (ci_lens ci)"
    "store_pkt b (cur_ind ci) p (unat len) = ok b'"
    "ci' = count_pkt len (ci\<lparr>ci_lens := (ci_lens ci)[cur_ind ci := len], original_batch := Some b'\<rparr>)"
  using assms by (auto simp: PushPkt_def and_then_eq_ok Let_def not_le split: if_splits option.splits)

lemma PushPkt_decoder:
  assumes "PushPkt len p ind ci = ok (True, ci')" "codec_type ci = kDecoder"
  obtains b' where "len \<noteq> 0" "ind < ci_n ci" "cur_ind ci < ci_n ci" "cur_ind ci < length (ci_inds ci)"
    "store_pkt (coded_batch ci) (cur_ind ci) p (unat len) = ok b'"
    "ci' = count_pkt len (ci\<lparr>ci_inds := (ci_inds ci)[cur_ind ci := ind], coded_batch := b'\<rparr>)"
  using assms by (auto simp: PushPkt_def and_then_eq_ok Let_def not_le split: if_splits)

lemma PushPkt_inv:
  assumes inv: "code_info_inv ci" and push: "PushPkt len p ind ci = ok (r, ci')"
  shows "code_info_inv ci'"
proof (cases r)
  case False
  then show ?thesis using PushPkt_False [of len p ind ci ci'] inv push by simp
next
  case True
  with push have push: "PushPkt len p ind ci = ok (True, ci')" by simp
  show ?thesis
  proof (cases "codec_type ci")
    case kEncoder
    show ?thesis
      using push kEncoder
    proof (rule PushPkt_encoder)
      fix b b'
      assume *: "original_batch ci = Some b" "store_pkt b (cur_ind ci) p (unat len) = ok b'"
        "ci' = count_pkt len (ci\<lparr>ci_lens := (ci_lens ci)[cur_ind ci := len], original_batch := Some b'\<rparr>)"
      have b: "\<forall>q\<in>set b. length q = ci_pkt_size ci" "length b = max_batch_size ci"
        using inv *(1) kEncoder by (simp_all add: code_info_inv_def)
      show ?thesis
        using store_pkt_shape [OF *(2) b(1)] b inv kEncoder *(3) by (simp add: code_info_inv_def count_pkt_def)
    qed
  next
    case kDecoder
    show ?thesis
      using push kDecoder
    proof (rule PushPkt_decoder)
      fix b'
      assume *: "store_pkt (coded_batch ci) (cur_ind ci) p (unat len) = ok b'"
        "ci' = count_pkt len (ci\<lparr>ci_inds := (ci_inds ci)[cur_ind ci := ind], coded_batch := b'\<rparr>)"
      have b: "\<forall>q\<in>set (coded_batch ci). length q = ci_pkt_size ci" using inv by (simp add: code_info_inv_def)
      show ?thesis
        using store_pkt_shape [OF *(1) b] inv kDecoder *(2) by (simp add: code_info_inv_def count_pkt_def)
    qed
  qed
qed

lemma PopPkt_inv: "code_info_inv ci \<Longrightarrow> PopPkt ci = ok (r, ci') \<Longrightarrow> code_info_inv ci'"
  by (cases "codec_type ci") (auto simp: PopPkt_def code_info_inv_def split: if_splits)

section \<open>Encoding and decoding a batch\<close>

lemma encode_loop:
  assumes "m \<le> n" and fresh: "fec_new k n = ok (Some code)" and coded: "length (coded_batch ci) = 256" "m \<le> 256"
    and srcs: "\<And>j. j < k \<Longrightarrow> ci_sz ci \<le> length (orig ! j)"
    and L: "\<forall>p\<in>set (coded_batch ci). length p = L" "ci_sz ci \<le> L" and inds: "length (ci_inds ci) = 256"
  shows "\<exists>x y. for_range 0 m (encode_step code orig) ci = ci\<lparr>ci_inds := x, coded_batch := y\<rparr>
    \<and> length x = 256 \<and> length y = 256 \<and> (\<forall>p\<in>set y. length p = L)
    \<and> (\<forall>i<m. y ! i = fec_encode code orig (coded_batch ci ! i) i (ci_sz ci))"
proof -
  let ?P = "\<lambda>m r. \<exists>x y. r = ci\<lparr>ci_inds := x, coded_batch := y\<rparr> \<and> length x = 256 \<and> length y = 256
    \<and> (\<forall>p\<in>set y. length p = L) \<and> (\<forall>i<m. y ! i = fec_encode code orig (coded_batch ci ! i) i (ci_sz ci))
    \<and> (\<forall>i. m \<le> i \<longrightarrow> i < 256 \<longrightarrow> y ! i = coded_batch ci ! i)"
  have "?P m (for_range 0 m (encode_step code orig) ci)"
  proof (rule for_range_invariant [where P = ?P])
    have "ci = ci\<lparr>ci_inds := ci_inds ci, coded_batch := coded_batch ci\<rparr>" by simp
    then show "?P 0 ci" using coded L inds by blast
  next
    fix i r
    assume i: "i < m" and "?P i r"
    then obtain x y where r: "r = ci\<lparr>ci_inds := x, coded_batch := y\<rparr>" "length x = 256" "length y = 256"
      and yL: "\<forall>p\<in>set y. length p = L"
      and enc: "\<forall>j<i. y ! j = fec_encode code orig (coded_batch ci ! j) j (ci_sz ci)"
      and rest: "\<forall>j. i \<le> j \<longrightarrow> j < 256 \<longrightarrow> y ! j = coded_batch ci ! j" by blast
    let ?e = "fec_encode code orig (coded_batch ci ! i) i (ci_sz ci)"
    have i256: "i < 256" using i coded(2) by simp
    have "encode_step code orig i r = ci\<lparr>ci_inds := x[i := i], coded_batch := y[i := ?e]\<rparr>"
      using r rest i256 by (simp add: encode_step_def)
    moreover have "length ?e = L"
      using take_fec_encode(1) [OF fresh _ srcs, of i "coded_batch ci ! i"] i assms(1) L coded(1) i256 by simp
    then have "\<forall>p\<in>set (y[i := ?e]). length p = L" using yL set_update_subset_insert [of y i ?e] by blast
    ultimately show "?P (Suc i) (encode_step code orig i r)"
      using r i256 enc rest
      by (intro exI [of _ "x[i := i]"] exI [of _ "y[i := ?e]"]) (simp add: nth_list_update less_Suc_eq)
  qed simp
  then show ?thesis by blast
qed

lemma EncodeBatch_ok:
  assumes inv: "code_info_inv ci" "codec_type ci = kEncoder" and kn: "1 \<le> ci_k ci" "ci_k ci \<le> ci_n ci" "ci_n ci \<le> 256"
    and max: "ci_k ci \<le> max_batch_size ci"
  obtains code orig x y where "fec_new (ci_k ci) (ci_n ci) = ok (Some code)" "original_batch ci = Some orig"
    "EncodeBatch ci = ok (ci\<lparr>ci_inds := x, coded_batch := y, cur_ind := 0\<rparr>)" "length x = 256" "length y = 256"
    "\<forall>p\<in>set y. length p = ci_pkt_size ci"
    "\<forall>i<ci_n ci. y ! i = fec_encode code orig (coded_batch ci ! i) i (ci_sz ci)"
proof -
  obtain code where code: "fec_new (ci_k ci) (ci_n ci) = ok (Some code)" using fec_new_ok kn by blast
  obtain orig where orig: "original_batch ci = Some orig" "length orig = max_batch_size ci" "\<forall>p\<in>set orig. length p = ci_pkt_size ci"
    using inv by (auto simp: code_info_inv_def)
  have len: "length (coded_batch ci) = 256" "length (ci_inds ci) = 256" "ci_sz ci \<le> ci_pkt_size ci"
    "\<forall>p\<in>set (coded_batch ci). length p = ci_pkt_size ci" using inv(1) by (simp_all add: code_info_inv_def)
  have srcs: "ci_sz ci \<le> length (orig ! j)" if "j < ci_k ci" for j
    using orig(2,3) that max len(3) by simp
  obtain x y where xy: "for_range 0 (ci_n ci) (encode_step code orig) ci = ci\<lparr>ci_inds := x, coded_batch := y\<rparr>"
    "length x = 256" "length y = 256" "\<forall>p\<in>set y. length p = ci_pkt_size ci"
    "\<forall>i<ci_n ci. y ! i = fec_encode code orig (coded_batch ci ! i) i (ci_sz ci)"
    using encode_loop [OF order.refl code len(1) kn(3) srcs len(4,3,2)] by auto
  have "EncodeBatch ci = ok (ci\<lparr>ci_inds := x, coded_batch := y, cur_ind := 0\<rparr>)"
    using code orig max xy(1) by (simp add: EncodeBatch_def)
  then show thesis using that code orig(1) xy by blast
qed

lemma EncodeBatch_inv:
  assumes "code_info_inv ci" "codec_type ci = kEncoder" "EncodeBatch ci = ok ci'"
  shows "code_info_inv ci'"
proof (cases "fec_new (ci_k ci) (ci_n ci) = ok None")
  case True
  then show ?thesis using assms by (auto simp: EncodeBatch_def code_info_inv_def split: if_splits)
next
  case False
  have kn: "1 \<le> ci_k ci" "ci_k ci \<le> ci_n ci" "ci_n ci \<le> 256" "ci_k ci \<le> max_batch_size ci"
    using False assms
    by (auto simp: EncodeBatch_def fec_new_def GF_SIZE_def and_then_eq_ok code_info_inv_def split: if_splits option.splits)
  then show ?thesis
    using assms by (rule_tac EncodeBatch_ok [of ci]) (auto simp: code_info_inv_def)
qed

lemma DecodeBatch_inv:
  assumes inv: "code_info_inv ci" and dec: "DecodeBatch ci = ok ci'"
  shows "code_info_inv ci'"
proof -
  obtain code e pkts inds where code: "fec_new (ci_k ci) (ci_n ci) = ok (Some code)"
    and f: "fec_decode code (coded_batch ci) (ci_inds ci) (ci_sz ci) = ok (e, pkts, inds)"
    and ci': "ci' = ci\<lparr>coded_batch := pkts, ci_inds := inds, cur_ind := 0\<rparr>"
    using dec by (auto simp: DecodeBatch_def and_then_eq_ok split: option.splits)
  have "ci_k ci \<le> 256" using code by (auto simp: fec_new_def GF_SIZE_def split: if_splits)
  then have "length pkts = 256 \<and> (\<forall>p\<in>set pkts. length p = ci_pkt_size ci) \<and> length inds = 256"
    using fec.decode_shape [OF code, of "ci_inds ci" "coded_batch ci" "ci_pkt_size ci" "ci_sz ci"] inv f
    by (auto simp: code_info_inv_def)
  then show ?thesis using inv ci' by (simp add: code_info_inv_def cong: codec.case_cong)
qed

section \<open>The round trip\<close>

text \<open>Pushing a list of packets, each of which has to be accepted, and popping \<open>m\<close> packets.\<close>

fun push_all :: "(u16 \<times> gf list \<times> nat) list \<Rightarrow> code_info \<Rightarrow> code_info outcome" where
  "push_all [] ci = ok ci"
| "push_all ((len, p, ind) # xs) ci =
     and_then (PushPkt len p ind ci) (\<lambda>(accepted, ci). if accepted then push_all xs ci else abort Assert_Failed)"

fun pop_all :: "nat \<Rightarrow> code_info \<Rightarrow> (gf list \<times> u16) list outcome" where
  "pop_all 0 ci = ok []"
| "pop_all (Suc m) ci =
     and_then (PopPkt ci) (\<lambda>(r, ci). case r of None \<Rightarrow> abort Assert_Failed
       | Some x \<Rightarrow> and_then (pop_all m ci) (\<lambda>xs. ok (x # xs)))"

definition same_batch :: "code_info \<Rightarrow> code_info \<Rightarrow> bool" where
  "same_batch ci ci' \<longleftrightarrow> codec_type ci' = codec_type ci \<and> max_batch_size ci' = max_batch_size ci
     \<and> ci_pkt_size ci' = ci_pkt_size ci \<and> ci_k ci' = ci_k ci \<and> ci_n ci' = ci_n ci \<and> ci_start_seq ci' = ci_start_seq ci"

abbreviation originals :: "code_info \<Rightarrow> gf list list" where "originals ci \<equiv> the (original_batch ci)"

lemma store_pkt_ok:
  "i < length b \<Longrightarrow> len \<le> length (b ! i) \<Longrightarrow> len \<le> length p
    \<Longrightarrow> store_pkt b i p len = ok (b[i := take len p @ drop len (b ! i)])"
  by (simp add: store_pkt_def)

lemma push_encoder_step:
  assumes inv: "code_info_inv ci" "codec_type ci = kEncoder" and room: "cur_ind ci < ci_k ci" "ci_k ci \<le> max_batch_size ci"
    and p: "0 < length p" "length p \<le> ci_pkt_size ci" "length p < 65536"
  shows "\<exists>ci'. PushPkt (word_of_nat (length p)) p 0 ci = ok (True, ci') \<and> same_batch ci ci' \<and> coded_batch ci' = coded_batch ci
    \<and> cur_ind ci' = cur_ind ci + 1 \<and> ci_sz ci \<le> ci_sz ci' \<and> length p \<le> ci_sz ci'
    \<and> (\<forall>j<cur_ind ci. originals ci' ! j = originals ci ! j \<and> ci_lens ci' ! j = ci_lens ci ! j)
    \<and> take (length p) (originals ci' ! cur_ind ci) = p \<and> ci_lens ci' ! cur_ind ci = word_of_nat (length p)"
proof -
  have len: "unat (word_of_nat (length p) :: u16) = length p" using p(3) by (simp add: unat_of_nat)
  then have nz: "(word_of_nat (length p) :: u16) \<noteq> 0" using p(1) by force
  obtain b where b: "original_batch ci = Some b" "length b = max_batch_size ci" "\<forall>q\<in>set b. length q = ci_pkt_size ci"
    and lens: "length (ci_lens ci) = max_batch_size ci"
    using inv by (auto simp: code_info_inv_def)
  have "length (b ! cur_ind ci) = ci_pkt_size ci" using b room by simp
  then have "store_pkt b (cur_ind ci) p (length p) = ok (b[cur_ind ci := p @ drop (length p) (b ! cur_ind ci)])"
    using store_pkt_ok [of "cur_ind ci" b "length p" p] b(2) room p(2) by simp
  then show ?thesis
    using inv(2) nz len b(1,2) lens room
    by (simp add: PushPkt_def Let_def count_pkt_def same_batch_def not_le)
qed

lemma push_all_encoder:
  assumes "code_info_inv ci" "codec_type ci = kEncoder" "cur_ind ci + length ps \<le> ci_k ci" "ci_k ci \<le> max_batch_size ci"
    and "\<forall>p\<in>set ps. 0 < length p \<and> length p \<le> ci_pkt_size ci \<and> length p < 65536"
  shows "\<exists>ci'. push_all (map (\<lambda>p. (word_of_nat (length p), p, 0)) ps) ci = ok ci' \<and> code_info_inv ci' \<and> same_batch ci ci'
    \<and> coded_batch ci' = coded_batch ci \<and> ci_sz ci \<le> ci_sz ci' \<and> (\<forall>p\<in>set ps. length p \<le> ci_sz ci')
    \<and> (\<forall>j<cur_ind ci. originals ci' ! j = originals ci ! j \<and> ci_lens ci' ! j = ci_lens ci ! j)
    \<and> (\<forall>j<length ps. take (length (ps ! j)) (originals ci' ! (cur_ind ci + j)) = ps ! j
         \<and> ci_lens ci' ! (cur_ind ci + j) = word_of_nat (length (ps ! j)))"
  using assms
proof (induction ps arbitrary: ci)
  case Nil
  then show ?case by (simp add: same_batch_def)
next
  case (Cons p ps)
  let ?len = "word_of_nat (length p) :: u16" and ?c = "cur_ind ci"
  obtain c1 where c1: "PushPkt ?len p 0 ci = ok (True, c1)" "same_batch ci c1" "coded_batch c1 = coded_batch ci"
    "cur_ind c1 = ?c + 1" "ci_sz ci \<le> ci_sz c1" "length p \<le> ci_sz c1"
    "\<forall>j<?c. originals c1 ! j = originals ci ! j \<and> ci_lens c1 ! j = ci_lens ci ! j"
    "take (length p) (originals c1 ! ?c) = p" "ci_lens c1 ! ?c = ?len"
    using push_encoder_step [of ci p] Cons.prems by auto
  have inv1: "code_info_inv c1" using PushPkt_inv Cons.prems(1) c1(1) by blast
  obtain c2 where c2: "push_all (map (\<lambda>p. (word_of_nat (length p), p, 0)) ps) c1 = ok c2" "code_info_inv c2" "same_batch c1 c2"
    "coded_batch c2 = coded_batch c1" "ci_sz c1 \<le> ci_sz c2" "\<forall>p\<in>set ps. length p \<le> ci_sz c2"
    "\<forall>j<?c + 1. originals c2 ! j = originals c1 ! j \<and> ci_lens c2 ! j = ci_lens c1 ! j"
    "\<forall>j<length ps. take (length (ps ! j)) (originals c2 ! (?c + 1 + j)) = ps ! j
       \<and> ci_lens c2 ! (?c + 1 + j) = word_of_nat (length (ps ! j))"
    using Cons.IH [OF inv1] Cons.prems c1(2,4) by (auto simp: same_batch_def)
  have "take (length ((p # ps) ! j)) (originals c2 ! (?c + j)) = (p # ps) ! j
      \<and> ci_lens c2 ! (?c + j) = word_of_nat (length ((p # ps) ! j))" if "j < length (p # ps)" for j
  proof (cases j)
    case 0
    then show ?thesis using c2(7) c1(8,9) by simp
  next
    case (Suc i)
    then show ?thesis using c2(8) that by simp
  qed
  then show ?case using c1 c2 by (auto simp: same_batch_def)
qed

lemma push_all_decoder:
  assumes "code_info_inv ci" "codec_type ci = kDecoder" "cur_ind ci + length sel \<le> ci_n ci" "ci_n ci \<le> 256"
    and "\<forall>i\<in>set sel. i < ci_n ci \<and> unat len \<le> length (pkt i)" "len \<noteq> 0" "unat len \<le> ci_pkt_size ci"
  shows "\<exists>ci'. push_all (map (\<lambda>i. (len, pkt i, i)) sel) ci = ok ci' \<and> code_info_inv ci' \<and> same_batch ci ci'
    \<and> ci_lens ci' = ci_lens ci \<and> ci_sz ci' = (if sel = [] then ci_sz ci else max (ci_sz ci) (unat len))
    \<and> (\<forall>j<cur_ind ci. coded_batch ci' ! j = coded_batch ci ! j \<and> ci_inds ci' ! j = ci_inds ci ! j)
    \<and> (\<forall>j<length sel. take (unat len) (coded_batch ci' ! (cur_ind ci + j)) = take (unat len) (pkt (sel ! j))
         \<and> ci_inds ci' ! (cur_ind ci + j) = sel ! j)"
  using assms
proof (induction sel arbitrary: ci)
  case Nil
  then show ?case by (simp add: same_batch_def)
next
  case (Cons i sel)
  let ?c = "cur_ind ci" and ?b = "coded_batch ci"
  have inv: "length ?b = 256" "\<forall>q\<in>set ?b. length q = ci_pkt_size ci" "length (ci_inds ci) = 256"
    using Cons.prems(1) by (simp_all add: code_info_inv_def)
  have c: "?c < 256" "?c < ci_n ci" using Cons.prems(3,4) by simp_all
  let ?p = "take (unat len) (pkt i) @ drop (unat len) (?b ! ?c)"
  have "store_pkt ?b ?c (pkt i) (unat len) = ok (?b[?c := ?p])"
    using inv c Cons.prems(5,7) by (intro store_pkt_ok) simp_all
  then obtain c1 where c1: "PushPkt len (pkt i) i ci = ok (True, c1)"
    "c1 = count_pkt len (ci\<lparr>ci_inds := (ci_inds ci)[?c := i], coded_batch := ?b[?c := ?p]\<rparr>)"
    using Cons.prems inv c by (simp add: PushPkt_def Let_def not_le)
  have inv1: "code_info_inv c1" using PushPkt_inv Cons.prems(1) c1(1) by blast
  have f1: "same_batch ci c1" "ci_lens c1 = ci_lens ci" "cur_ind c1 = ?c + 1" "ci_sz c1 = max (ci_sz ci) (unat len)"
    "\<forall>j<?c. coded_batch c1 ! j = ?b ! j \<and> ci_inds c1 ! j = ci_inds ci ! j"
    "take (unat len) (coded_batch c1 ! ?c) = take (unat len) (pkt i)" "ci_inds c1 ! ?c = i"
    using c1(2) inv c Cons.prems(5) by (simp_all add: count_pkt_def same_batch_def)
  obtain c2 where c2: "push_all (map (\<lambda>i. (len, pkt i, i)) sel) c1 = ok c2" "code_info_inv c2" "same_batch c1 c2"
    "ci_lens c2 = ci_lens c1" "ci_sz c2 = (if sel = [] then ci_sz c1 else max (ci_sz c1) (unat len))"
    "\<forall>j<?c + 1. coded_batch c2 ! j = coded_batch c1 ! j \<and> ci_inds c2 ! j = ci_inds c1 ! j"
    "\<forall>j<length sel. take (unat len) (coded_batch c2 ! (?c + 1 + j)) = take (unat len) (pkt (sel ! j))
         \<and> ci_inds c2 ! (?c + 1 + j) = sel ! j"
    using Cons.IH [OF inv1] Cons.prems f1(1,3) by (auto simp: same_batch_def)
  have "take (unat len) (coded_batch c2 ! (?c + j)) = take (unat len) (pkt ((i # sel) ! j))
      \<and> ci_inds c2 ! (?c + j) = (i # sel) ! j" if "j < length (i # sel)" for j
  proof (cases j)
    case 0
    then show ?thesis using c2(6) f1(6,7) by simp
  next
    case (Suc m)
    then show ?thesis using c2(7) that by simp
  qed
  then show ?case using c1(1) c2 f1 by (auto simp: same_batch_def)
qed

lemma pop_all_ok:
  assumes "code_info_inv ci" "codec_type ci = kDecoder" "cur_ind ci + m \<le> ci_k ci" "ci_k ci \<le> 256" "ci_k ci \<le> max_batch_size ci"
  shows "pop_all m ci = ok (map (\<lambda>i. (coded_batch ci ! i, ci_lens ci ! i)) [cur_ind ci..<cur_ind ci + m])"
  using assms
proof (induction m arbitrary: ci)
  case (Suc m)
  have "PopPkt ci = ok (Some (coded_batch ci ! cur_ind ci, ci_lens ci ! cur_ind ci), ci\<lparr>cur_ind := cur_ind ci + 1\<rparr>)"
    using Suc.prems by (simp add: PopPkt_def code_info_inv_def)
  then show ?case
    using Suc.IH [of "ci\<lparr>cur_ind := cur_ind ci + 1\<rparr>"] Suc.prems
    by (cases "m = 0") (simp_all add: code_info_inv_def upt_conv_Cons)
qed simp

text \<open>The decoder's half: what it needs of the packets it holds.\<close>

lemma DecodeBatch_recovers:
  assumes inv: "code_info_inv d" and code: "fec_new (ci_k d) (ci_n d) = ok (Some code)"
    and srcs: "\<And>j. j < ci_k d \<Longrightarrow> ci_sz d \<le> length (orig ! j)"
    and buf: "\<And>i. i < ci_n d \<Longrightarrow> ci_sz d \<le> length (buf i)"
    and inds: "distinct (take (ci_k d) (ci_inds d))" "\<And>i. i < ci_k d \<Longrightarrow> ci_inds d ! i < ci_n d"
    and rcv: "\<And>i. i < ci_k d \<Longrightarrow> take (ci_sz d) (coded_batch d ! i)
      = take (ci_sz d) (fec_encode code orig (buf (ci_inds d ! i)) (ci_inds d ! i) (ci_sz d))"
  shows "\<exists>pkts inds. DecodeBatch d = ok (d\<lparr>coded_batch := pkts, ci_inds := inds, cur_ind := 0\<rparr>)
    \<and> (\<forall>i<ci_k d. take (ci_sz d) (pkts ! i) = take (ci_sz d) (orig ! i))"
proof -
  have k: "ci_k d \<le> 256" using code by (auto simp: fec_new_def GF_SIZE_def split: if_splits)
  have d: "length (coded_batch d) = 256" "length (ci_inds d) = 256" "ci_sz d \<le> ci_pkt_size d"
    "\<forall>p\<in>set (coded_batch d). length p = ci_pkt_size d" using inv by (simp_all add: code_info_inv_def)
  obtain pkts inds where dec: "fec_decode code (coded_batch d) (ci_inds d) (ci_sz d) = ok (False, pkts, inds)"
    and rec: "\<forall>i<ci_k d. take (ci_sz d) (pkts ! i) = take (ci_sz d) (orig ! i)"
  proof -
    have "\<exists>pkts inds. fec_decode code (coded_batch d) (ci_inds d) (ci_sz d) = ok (False, pkts, inds)
      \<and> (\<forall>i<ci_k d. take (ci_sz d) (pkts ! i) = take (ci_sz d) (orig ! i))"
      using d k rcv buf
      by (intro fec.batch_recovers [OF code _ srcs, where buf = buf
            and coded = "\<lambda>i. fec_encode code orig (buf i) i (ci_sz d)"] inds) simp_all
    then show thesis using that by blast
  qed
  have "DecodeBatch d = ok (d\<lparr>coded_batch := pkts, ci_inds := inds, cur_ind := 0\<rparr>)"
    using code dec by (simp add: DecodeBatch_def)
  then show ?thesis using rec by blast
qed

text \<open>
  An encoder takes \<open>k\<close> packets \<open>ps\<close> and makes \<open>n\<close> coded ones; a decoder that gets the same
  header and any \<open>k\<close> of the coded packets, in any order, hands out \<open>ps\<close>.
\<close>

definition encode_all :: "nat \<Rightarrow> u32 \<Rightarrow> gf list list \<Rightarrow> code_info \<Rightarrow> code_info outcome" where
  "encode_all n start ps e =
     and_then (push_all (map (\<lambda>p. (word_of_nat (length p), p, 0)) ps) (SetCodeInfo (length ps) n start (ClearInfo e)))
       EncodeBatch"

definition decode_all :: "nat \<Rightarrow> nat \<Rightarrow> u32 \<Rightarrow> u16 list \<Rightarrow> u16 \<Rightarrow> (nat \<Rightarrow> gf list) \<Rightarrow> nat list \<Rightarrow> code_info
    \<Rightarrow> (gf list \<times> u16) list outcome" where
  "decode_all k n start lens len pkt sel d =
     and_then (CopyLens lens (SetCodeInfo k n start (ClearInfo d))) (\<lambda>d.
     and_then (push_all (map (\<lambda>i. (len, pkt i, i)) sel) d) (\<lambda>d.
     and_then (DecodeBatch d) (pop_all k)))"

lemma encode_all_ok:
  assumes e: "code_info_inv e" "codec_type e = kEncoder" and k: "1 \<le> length ps" "length ps \<le> n" "n \<le> 256" "length ps \<le> max_batch_size e"
    and ps: "\<forall>p\<in>set ps. 0 < length p \<and> length p \<le> ci_pkt_size e \<and> length p < 65536"
  obtains e' code orig buf where "encode_all n start ps e = ok e'" "code_info_inv e'"
    "ci_pkt_size e' = ci_pkt_size e" "max_batch_size e' = max_batch_size e"
    "fec_new (length ps) n = ok (Some code)"
    "\<And>p. p \<in> set ps \<Longrightarrow> length p \<le> ci_sz e'"
    "\<And>j. j < length ps \<Longrightarrow> ci_sz e' \<le> length (orig ! j) \<and> take (length (ps ! j)) (orig ! j) = ps ! j
       \<and> ci_lens e' ! j = word_of_nat (length (ps ! j))"
    "\<And>i. i < n \<Longrightarrow> ci_sz e' \<le> length (buf i) \<and> coded_batch e' ! i = fec_encode code orig (buf i) i (ci_sz e')"
proof -
  define c0 where "c0 = SetCodeInfo (length ps) n start (ClearInfo e)"
  have c0: "code_info_inv c0" "codec_type c0 = kEncoder" "cur_ind c0 = 0" "ci_k c0 = length ps" "ci_n c0 = n"
    "max_batch_size c0 = max_batch_size e" "ci_pkt_size c0 = ci_pkt_size e"
    using ClearInfo_inv [OF e(1)] e(2) by (simp_all add: c0_def SetCodeInfo_inv) (simp_all add: SetCodeInfo_def ClearInfo_def)
  obtain c1 where c1: "push_all (map (\<lambda>p. (word_of_nat (length p), p, 0)) ps) c0 = ok c1" "code_info_inv c1" "same_batch c0 c1"
    "\<forall>p\<in>set ps. length p \<le> ci_sz c1"
    "\<forall>j<length ps. take (length (ps ! j)) (originals c1 ! j) = ps ! j \<and> ci_lens c1 ! j = word_of_nat (length (ps ! j))"
    using push_all_encoder [OF c0(1,2), of ps] c0 k(4) ps by auto
  have f: "codec_type c1 = kEncoder" "ci_k c1 = length ps" "ci_n c1 = n" "max_batch_size c1 = max_batch_size e"
    "ci_pkt_size c1 = ci_pkt_size e"
    using c0 c1(3) by (simp_all add: same_batch_def)
  have kn: "1 \<le> ci_k c1" "ci_k c1 \<le> ci_n c1" "ci_n c1 \<le> 256" "ci_k c1 \<le> max_batch_size c1" using k f by simp_all
  obtain code orig x y where E: "fec_new (ci_k c1) (ci_n c1) = ok (Some code)" "original_batch c1 = Some orig"
    "EncodeBatch c1 = ok (c1\<lparr>ci_inds := x, coded_batch := y, cur_ind := 0\<rparr>)" "length x = 256" "length y = 256"
    "\<forall>p\<in>set y. length p = ci_pkt_size c1"
    "\<forall>i<ci_n c1. y ! i = fec_encode code orig (coded_batch c1 ! i) i (ci_sz c1)"
    by (rule EncodeBatch_ok [OF c1(2) f(1) kn])
  let ?e' = "c1\<lparr>ci_inds := x, coded_batch := y, cur_ind := 0\<rparr>"
  have I: "length (coded_batch c1) = 256" "\<forall>p\<in>set (coded_batch c1). length p = ci_pkt_size c1" "ci_sz c1 \<le> ci_pkt_size c1"
    "length orig = max_batch_size c1" "\<forall>p\<in>set orig. length p = ci_pkt_size c1"
    using c1(2) f(1) E(2) by (simp_all add: code_info_inv_def)
  show thesis
  proof (rule that [of ?e' code orig "\<lambda>i. coded_batch c1 ! i"])
    show "encode_all n start ps e = ok ?e'" using c1(1) E(3) by (simp add: encode_all_def c0_def)
    show "code_info_inv ?e'" using EncodeBatch_inv [OF c1(2) f(1) E(3)] .
    show "fec_new (length ps) n = ok (Some code)" using E(1) f by simp
  next
    fix j assume "j < length ps"
    then show "ci_sz ?e' \<le> length (orig ! j) \<and> take (length (ps ! j)) (orig ! j) = ps ! j
       \<and> ci_lens ?e' ! j = word_of_nat (length (ps ! j))"
      using c1(5) E(2) I(3-5) f kn by simp
  next
    fix i assume "i < n"
    then show "ci_sz ?e' \<le> length (coded_batch c1 ! i)
        \<and> coded_batch ?e' ! i = fec_encode code orig (coded_batch c1 ! i) i (ci_sz ?e')"
      using E(7) I(1-3) f kn by simp
  qed (use f c1(4) in simp_all)
qed

lemma CodeInfo_ok:
  assumes "1 \<le> ps" "ps \<le> 8192" "1 \<le> mb" "mb \<le> 256"
  obtains ci where "CodeInfo mem type mb ps = ok ci" "code_info_inv ci" "codec_type ci = type"
    "max_batch_size ci = mb" "ci_pkt_size ci = ps"
proof -
  obtain ci where ci: "CodeInfo mem type mb ps = ok ci" "max_batch_size ci = mb" "ci_pkt_size ci = ps"
    using assms by (cases type) (auto simp: CodeInfo_def alloc_batch_def GF_SIZE_def)
  then show thesis using that CodeInfo_inv by blast
qed

lemma decode_all_ok:
  assumes d: "code_info_inv d" "codec_type d = kDecoder" and code: "fec_new k n = ok (Some code)"
    and lens: "k \<le> max_batch_size d" "k \<le> length lens"
    and sz: "0 < sz" "sz < 65536" "sz \<le> ci_pkt_size d"
    and orig: "\<And>j. j < k \<Longrightarrow> sz \<le> length (orig ! j)"
    and pkt: "\<And>i. i < n \<Longrightarrow> sz \<le> length (buf i) \<and> sz \<le> length (pkt i)
      \<and> take sz (pkt i) = take sz (fec_encode code orig (buf i) i sz)"
    and sel: "distinct sel" "length sel = k" "\<forall>i\<in>set sel. i < n"
  obtains pkts where "decode_all k n start lens (word_of_nat sz) pkt sel d = ok (map (\<lambda>i. (pkts ! i, lens ! i)) [0..<k])"
    "\<And>i. i < k \<Longrightarrow> take sz (pkts ! i) = take sz (orig ! i)"
proof -
  let ?len = "word_of_nat sz :: u16"
  have kn: "1 \<le> k" "k \<le> n" "n \<le> 256" using code by (auto simp: fec_new_def GF_SIZE_def split: if_splits)
  have usz: "unat ?len = sz" using sz by (simp add: unat_of_nat)
  then have nz: "?len \<noteq> 0" using sz by force
  define d0 where "d0 = SetCodeInfo k n start (ClearInfo d)"
  define d1 where "d1 = d0\<lparr>ci_lens := take k lens @ drop k (ci_lens d0)\<rparr>"
  have d0: "code_info_inv d0" using ClearInfo_inv d(1) by (simp add: d0_def SetCodeInfo_inv)
  have cl: "CopyLens lens d0 = ok d1"
    using kn lens by (simp add: CopyLens_def d1_def d0_def SetCodeInfo_def ClearInfo_def)
  have d1: "code_info_inv d1" "codec_type d1 = kDecoder" "cur_ind d1 = 0" "ci_k d1 = k" "ci_n d1 = n"
    "max_batch_size d1 = max_batch_size d" "ci_pkt_size d1 = ci_pkt_size d" "ci_sz d1 = 0"
    "\<And>j. j < k \<Longrightarrow> ci_lens d1 ! j = lens ! j"
    using CopyLens_inv [OF d0 cl] d(2) lens
    by (simp_all add: d1_def d0_def SetCodeInfo_def ClearInfo_def nth_append)
  have pre: "cur_ind d1 + length sel \<le> ci_n d1" "ci_n d1 \<le> 256"
    "\<forall>i\<in>set sel. i < ci_n d1 \<and> unat ?len \<le> length (pkt i)" "unat ?len \<le> ci_pkt_size d1"
    using d1 kn sel pkt usz sz by auto
  obtain d2 where d2: "push_all (map (\<lambda>i. (?len, pkt i, i)) sel) d1 = ok d2" "code_info_inv d2" "same_batch d1 d2"
    "ci_lens d2 = ci_lens d1" "ci_sz d2 = (if sel = [] then ci_sz d1 else max (ci_sz d1) (unat ?len))"
    "\<forall>j<length sel. take (unat ?len) (coded_batch d2 ! (cur_ind d1 + j)) = take (unat ?len) (pkt (sel ! j))
      \<and> ci_inds d2 ! (cur_ind d1 + j) = sel ! j"
    using push_all_decoder [OF d1(1,2) pre(1,2,3) nz pre(4)] by blast
  have f2: "ci_k d2 = k" "ci_n d2 = n" "codec_type d2 = kDecoder" "max_batch_size d2 = max_batch_size d" "ci_sz d2 = sz"
    using d1 d2(3,5) sel(2) kn usz by (auto simp: same_batch_def)
  have inds: "ci_inds d2 ! j = sel ! j" "take sz (coded_batch d2 ! j) = take sz (pkt (sel ! j))" if "j < k" for j
    using d2(6) that sel(2) d1(3) usz by simp_all
  have take_inds: "take k (ci_inds d2) = sel"
    using d2(2) inds sel(2) kn by (intro nth_equalityI) (simp_all add: code_info_inv_def)
  have "\<exists>pkts inds. DecodeBatch d2 = ok (d2\<lparr>coded_batch := pkts, ci_inds := inds, cur_ind := 0\<rparr>)
    \<and> (\<forall>i<ci_k d2. take (ci_sz d2) (pkts ! i) = take (ci_sz d2) (orig ! i))"
    using take_inds sel inds orig pkt f2 code
    by (intro DecodeBatch_recovers [OF d2(2), where buf = buf and code = code]) simp_all
  then obtain pkts inds where dec: "DecodeBatch d2 = ok (d2\<lparr>coded_batch := pkts, ci_inds := inds, cur_ind := 0\<rparr>)"
    and rec: "\<And>i. i < k \<Longrightarrow> take sz (pkts ! i) = take sz (orig ! i)" using f2 by auto
  have "pop_all k (d2\<lparr>coded_batch := pkts, ci_inds := inds, cur_ind := 0\<rparr>) = ok (map (\<lambda>i. (pkts ! i, lens ! i)) [0..<k])"
    using pop_all_ok [OF DecodeBatch_inv [OF d2(2) dec], of k] f2 kn d2(4) d1(9) lens by simp
  then have "decode_all k n start lens ?len pkt sel d = ok (map (\<lambda>i. (pkts ! i, lens ! i)) [0..<k])"
    using cl d2(1) dec by (simp add: decode_all_def d0_def)
  then show thesis using that rec by blast
qed

text \<open>
  C5: any k of the n coded packets of a batch restore the batch. An encoder (a base station)
  pushes the packets ps, none empty and none longer than a buffer, and encodes them; a decoder
  (this client) that gets the header's lengths and k = |ps| coded packets with distinct numbers
  sel, in any order, accepts them all, decodes, and pops exactly the packets ps in order.
\<close>

theorem code_info_roundtrip:
  assumes e: "code_info_inv e" "codec_type e = kEncoder" and d: "code_info_inv d" "codec_type d = kDecoder"
    and size: "ci_pkt_size e \<le> ci_pkt_size d" "ci_pkt_size e < 65536"
    and k: "1 \<le> length ps" "length ps \<le> n" "n \<le> 256" "length ps \<le> max_batch_size e" "length ps \<le> max_batch_size d"
    and ps: "\<forall>p\<in>set ps. 0 < length p \<and> length p \<le> ci_pkt_size e"
    and sel: "distinct sel" "length sel = length ps" "\<forall>i\<in>set sel. i < n"
  shows "\<exists>e' out. encode_all n start ps e = ok e'
    \<and> decode_all (length ps) n start (ci_lens e') (word_of_nat (ci_sz e')) (\<lambda>i. coded_batch e' ! i) sel d = ok out
    \<and> map (\<lambda>(buf, len). take (unat len) buf) out = ps"
proof -
  have ps': "\<forall>p\<in>set ps. 0 < length p \<and> length p \<le> ci_pkt_size e \<and> length p < 65536" using ps size by fastforce
  obtain e' code orig buf where enc: "encode_all n start ps e = ok e'" "code_info_inv e'"
    "ci_pkt_size e' = ci_pkt_size e" "max_batch_size e' = max_batch_size e"
    and code: "fec_new (length ps) n = ok (Some code)" and le: "\<And>p. p \<in> set ps \<Longrightarrow> length p \<le> ci_sz e'"
    and orig: "\<And>j. j < length ps \<Longrightarrow> ci_sz e' \<le> length (orig ! j) \<and> take (length (ps ! j)) (orig ! j) = ps ! j
       \<and> ci_lens e' ! j = word_of_nat (length (ps ! j))"
    and coded: "\<And>i. i < n \<Longrightarrow> ci_sz e' \<le> length (buf i) \<and> coded_batch e' ! i = fec_encode code orig (buf i) i (ci_sz e')"
    by (rule encode_all_ok [OF e k(1-4) ps', where start = start], rule that; blast)
  let ?sz = "ci_sz e'"
  have E: "\<And>i. i < n \<Longrightarrow> length (coded_batch e' ! i) = ci_pkt_size e" "?sz \<le> ci_pkt_size e"
    "length (ci_lens e') = max_batch_size e"
    using enc k(3) by (simp_all add: code_info_inv_def)
  have "ps ! 0 \<in> set ps" using k(1) by (intro nth_mem) linarith
  then have "0 < length (ps ! 0)" "length (ps ! 0) \<le> ?sz" using le ps by blast+
  then have sz: "0 < ?sz" "?sz < 65536" "?sz \<le> ci_pkt_size d" using E(2) size by linarith+
  obtain pkts where out: "decode_all (length ps) n start (ci_lens e') (word_of_nat ?sz) (\<lambda>i. coded_batch e' ! i) sel d
      = ok (map (\<lambda>i. (pkts ! i, ci_lens e' ! i)) [0..<length ps])"
    and rec: "\<And>i. i < length ps \<Longrightarrow> take ?sz (pkts ! i) = take ?sz (orig ! i)"
  proof (rule decode_all_ok [OF d code k(5) _ sz _ _ sel, where orig = orig and buf = buf
        and pkt = "\<lambda>i. coded_batch e' ! i" and lens = "ci_lens e'" and start = start])
  qed (use orig coded E k(4) in auto)
  have "take (unat (ci_lens e' ! i)) (pkts ! i) = ps ! i" if i: "i < length ps" for i
  proof -
    have len: "unat (ci_lens e' ! i) = length (ps ! i)" "length (ps ! i) \<le> ?sz"
      using orig [OF i] ps' i le by (simp_all add: unat_of_nat)
    then have "take (length (ps ! i)) (pkts ! i) = take (length (ps ! i)) (take ?sz (pkts ! i))" by (simp add: min_def)
    also have "\<dots> = take (length (ps ! i)) (orig ! i)" using rec [OF i] len(2) by (simp add: min_def)
    finally show ?thesis using len(1) orig [OF i] by simp
  qed
  then have "map (\<lambda>(buf, len). take (unat len) buf) (map (\<lambda>i. (pkts ! i, ci_lens e' ! i)) [0..<length ps]) = ps"
    by (intro nth_equalityI) simp_all
  then show ?thesis using enc(1) out by blast
qed

definition zero_memory :: fresh_memory where
  "zero_memory = \<lparr>junk_byte = \<lambda>_ _. 0, junk_ind = \<lambda>_. 0, junk_len = \<lambda>_. 0\<rparr>"

theorem code_info_roundtrip_witness:
  "\<exists>e d e' out. CodeInfo zero_memory kEncoder 10 2000 = ok e \<and> CodeInfo zero_memory kDecoder 10 2000 = ok d
    \<and> encode_all 4 1 [[GF 7], [GF 1, GF 2]] e = ok e'
    \<and> decode_all 2 4 1 (ci_lens e') (word_of_nat (ci_sz e')) (\<lambda>i. coded_batch e' ! i) [3, 1] d = ok out
    \<and> map (\<lambda>(buf, len). take (unat len) buf) out = [[GF 7], [GF 1, GF 2]]"
proof -
  obtain e where e: "CodeInfo zero_memory kEncoder 10 2000 = ok e" "code_info_inv e" "codec_type e = kEncoder"
    "max_batch_size e = 10" "ci_pkt_size e = 2000" by (rule CodeInfo_ok [of 2000 10 zero_memory kEncoder]) simp_all
  obtain d where d: "CodeInfo zero_memory kDecoder 10 2000 = ok d" "code_info_inv d" "codec_type d = kDecoder"
    "max_batch_size d = 10" "ci_pkt_size d = 2000" by (rule CodeInfo_ok [of 2000 10 zero_memory kDecoder]) simp_all
  have "\<exists>e' out. encode_all 4 1 [[GF 7], [GF 1, GF 2]] e = ok e'
    \<and> decode_all (length [[GF 7], [GF 1, GF 2]]) 4 1 (ci_lens e') (word_of_nat (ci_sz e')) (\<lambda>i. coded_batch e' ! i) [3, 1] d = ok out
    \<and> map (\<lambda>(buf, len). take (unat len) buf) out = [[GF 7], [GF 1, GF 2]]"
    by (rule code_info_roundtrip [OF e(2,3) d(2,3)]) (simp_all add: e d)
  then show ?thesis using e(1) d(1) by (simp add: numeral_2_eq_2)
qed

end
