(* ===== verification/Fec_Properties.thy ===== *)
theory Fec_Properties
  imports Code_Info
begin

text \<open>
  The properties of the erasure code of \<open>src/fec.cc\<close> that its users and maintainers rely on,
  stated over the definitions of the code; the proofs apply the lemmas of the component
  theories. Each property is followed by an application at a concrete input.
\<close>

section \<open>The field\<close>

text \<open>The reference multiplication: shift and add, reducing by the primitive polynomial.\<close>

fun shift_and_add :: "nat \<Rightarrow> u8 \<Rightarrow> u8 \<Rightarrow> u8" where
  "shift_and_add 0 a b = 0"
| "shift_and_add (Suc n) a b =
     (if bit b n then (xtime ^^ n) a else 0) XOR shift_and_add n a b"

lemma alpha_low_power: "n < 8 \<Longrightarrow> alpha n = 2 ^ n"
  by (drule less_8_cases) (elim disjE; simp add: alpha_low del: alpha.simps(2))

lemma gf_mul_alpha: "n < 255 \<Longrightarrow> gf_mul a (alpha n) = (xtime ^^ n) a"
  using gf_mul_xtime [of "alpha n" a] by (simp add: alpha_nonzero gf_dlog_alpha gf_bytes.mul_commute)

lemma take_bit_Suc_xor:
  fixes b :: u8
  assumes "n < 8" shows "take_bit (Suc n) b = (if bit b n then 2 ^ n else 0) XOR take_bit n b"
  by (rule bit_eqI) (auto simp: bit_take_bit_iff bit_xor_iff bit_exp_iff less_Suc_eq)

lemma gf_mul_bits: "n \<le> 8 \<Longrightarrow> gf_mul a (take_bit n b) = shift_and_add n a b"
proof (induction n)
  case 0
  then show ?case by (simp add: gf_mul_alt)
next
  case (Suc n)
  then have "take_bit (Suc n) b = (if bit b n then alpha n else 0) XOR take_bit n b"
    by (simp add: take_bit_Suc_xor alpha_low_power)
  then show ?case using Suc by (simp add: gf_bytes.mul_xor gf_mul_alpha gf_bytes.mul_zero)
qed

lemma shift_and_add_8: "gf_mul a b = shift_and_add 8 a b"
proof -
  have "take_bit 8 b = b" by (rule bit_eqI) (auto simp: bit_take_bit_iff dest: bit_imp_le_length)
  then show ?thesis using gf_mul_bits [of 8 a b] by simp
qed

text \<open>
  C40: the 64 KB multiplication table that \<open>init_fec\<close> computes from the logarithms holds, for
  every pair of bytes, their product as polynomials over GF(2) modulo
  x^8 + x^4 + x^3 + x^2 + 1, by shift and add.
\<close>

theorem gf_mul_shift_and_add: "gf_mul a b = shift_and_add 8 a b"
  by (rule shift_and_add_8)

text \<open>
  The inverse table is right for every byte: zero has the entry 0, and every other byte times
  its entry is one.
\<close>

theorem gf_inverse_table: "gf_mul (gf_inverse x) x = (if x = 0 then 0 else 1)"
  using gf_mul_inverse [of x] by (simp add: gf_mul_alt)

text \<open>
  \<open>modnn\<close> returns the remainder modulo 255 for every non-negative argument, and so ends for
  each of them.
\<close>

theorem modnn_is_mod: "modnn x = x mod 255"
  using modnn_eq_mod [of x] by simp

section \<open>Vectors and matrices\<close>

text \<open>
  The loop unrolled sixteen times, with its rest loop, adds \<open>c * src\<close> to exactly the first \<open>sz\<close>
  bytes of \<open>dst\<close>, for every \<open>sz\<close>; the bytes behind them keep their values.
\<close>

theorem addmul_packet:
  assumes "sz \<le> length dst"
  shows "addmul dst pkt c sz = map (\<lambda>i. if i < sz then dst ! i + c * pkt ! i else dst ! i) [0..<length dst]"
  using assms by (intro nth_equalityI) (simp_all add: length_addmul addmul_nth)

theorem addmul_packet_witness:
  "addmul (replicate 18 (GF 1)) (replicate 17 (GF 2)) 1 17
     = map (\<lambda>i. if i < 17 then replicate 18 (GF 1) ! i + 1 * replicate 17 (GF 2) ! i else replicate 18 (GF 1) ! i) [0..<18]"
  using addmul_packet [of 17 "replicate 18 (GF 1)" "replicate 17 (GF 2)" 1] by simp

text \<open>The product of two k by k matrices is the identity.\<close>

definition inverse_of :: "nat \<Rightarrow> (nat \<Rightarrow> nat \<Rightarrow> gf) \<Rightarrow> (nat \<Rightarrow> nat \<Rightarrow> gf) \<Rightarrow> bool" where
  "inverse_of k A B \<longleftrightarrow> (\<forall>r<k. \<forall>c<k. (\<Sum>j<k. A r j * B j c) = (if r = c then 1 else 0))"

text \<open>
  C28: Gauss-Jordan elimination decides invertibility: \<open>invert_mat\<close> reports an error exactly when
  the matrix is singular (some non-zero vector is mapped to zero), and otherwise leaves its inverse.
\<close>

theorem invert_mat_decides:
  assumes len: "length m = k * k"
  shows "case invert_mat m k of
      None \<Rightarrow> singular k (el k m)
    | Some m' \<Rightarrow> \<not> singular k (el k m) \<and> length m' = k * k \<and> inverse_of k (el k m) (el k m')"
proof (cases "invert_mat m k")
  case None
  then show ?thesis using invert_mat_None [OF len] by simp
next
  case (Some m')
  have "(\<Sum>j<k. el k m r j * el k m' j c) = (if r = c then 1 else 0)" if "r < k" "c < k" for r c
  proof -
    let ?y = "\<lambda>i. if i = c then 1 else 0 :: gf"
    have "lin k (el k m') ?y j = el k m' j c" for j
      using that(2) by (simp add: lin_def if_distrib [where f = "(*) _"] cong: if_cong)
    then show ?thesis
      using invert_mat_Some(2) [OF len Some, of ?y "lin k (el k m') ?y"] that by (simp add: lin_def)
  qed
  then show ?thesis
    using invert_mat_Some(1) [OF len Some] invert_mat_Some_iff [OF len] Some by (auto simp: inverse_of_def)
qed

theorem invert_mat_decides_witness:
  "case invert_mat [0, GF 2, GF 3, 0] 2 of
      None \<Rightarrow> singular 2 (el 2 [0, GF 2, GF 3, 0])
    | Some m' \<Rightarrow> \<not> singular 2 (el 2 [0, GF 2, GF 3, 0]) \<and> length m' = 2 * 2
        \<and> inverse_of 2 (el 2 [0, GF 2, GF 3, 0]) (el 2 m')"
  using invert_mat_decides [of "[0, GF 2, GF 3, 0]" 2] by simp

text \<open>
  \<open>invert_vdm\<close> inverts the Vandermonde matrix of any distinct points, provided the first point
  is zero, as the points \<open>fec_new\<close> uses are.
\<close>

theorem invert_vdm_inverts:
  assumes len: "length m = k * k" "1 \<le> k"
    and vdm: "\<And>r c. r < k \<Longrightarrow> c < k \<Longrightarrow> el k m r c = vandermonde p r c"
    and points: "p 0 = 0" "inj_on p {..<k}"
  shows "inverse_of k (el k m) (el k (invert_vdm m k))"
  using invert_vdm_correct(2) [OF len vdm points] vdm by (simp add: inverse_of_def)

theorem invert_vdm_inverts_witness:
  "inverse_of 2 (el 2 [1, 0, 1, GF 2]) (el 2 (invert_vdm [1, 0, 1, GF 2] 2))"
proof (rule invert_vdm_inverts [where p = "\<lambda>i. if i = 0 then 0 else GF 2"])
  fix r c :: nat
  assume "r < 2" "c < 2"
  then show "el 2 [1, 0, 1, GF 2] r c = vandermonde (\<lambda>i. if i = 0 then 0 else GF 2) r c"
    by (auto simp: el_def vandermonde_def less_2_cases_iff)
qed (auto simp: inj_on_def less_2_cases_iff zero_gf_def)

lemma GF_times: "GF a * GF b = GF (shift_and_add 8 a b)"
  by (simp add: gf_ops shift_and_add_8)

text \<open>
  Without a zero point the routine is wrong, although its comment promises the inverse of any
  Vandermonde matrix: for the distinct points 1, 2, 3 the result is not an inverse.
\<close>

definition vdm_123 :: "gf list" where
  "vdm_123 = [1, 1, 1, 1, GF 2, GF 4, 1, GF 3, GF 5]"

lemma upt_3: "[0..<3] = [0, 1, 2]" "[0..<3 - 1] = [0, 1]" "[1..<3] = [1, 2 :: nat]"
  by (simp_all add: upt_rec)

lemma gf_small: "1 + GF 2 = GF 3" "GF 3 + GF 3 = 0" "GF 3 * GF 3 = GF 5" "GF 5 + 1 = GF 4" "GF 4 + 1 + 1 = GF 4"
proof -
  have c: "shift_and_add 8 3 3 = 5" by code_simp
  show "GF 3 * GF 3 = GF 5" by (simp add: GF_times c)
qed (simp_all add: plus_gf_def one_gf_def zero_gf_def)

lemma vdm_123_coeffs: "vdm_coeffs [1, GF 2, GF 3] 3 = [0, GF 5, 0]"
  by (simp add: vdm_coeffs_def vdm_coeff_step_def upt_rec Let_def gf_small numeral_3_eq_3)

lemma vdm_123_divide: "vdm_divide [0, GF 5, 0] 1 3 (replicate 3 0) = ([GF 4, 1, 1], GF 4)"
  by (simp add: vdm_divide_def vdm_divide_step_def upt_rec Let_def gf_small numeral_3_eq_3)

lemma vdm_123_other_rows:
  assumes "length m = 9" "r = 1 \<or> r = 2" "c < 3"
  shows "length (fst (vdm_row p q 3 r (m, b))) = 9 \<and> el 3 (fst (vdm_row p q 3 r (m, b))) c 0 = el 3 m c 0"
proof -
  obtain b' t where d: "vdm_divide q (p ! r) 3 b = (b', t)" by fastforce
  have "c = 0 \<or> c = 1 \<or> c = 2" using assms(3) by arith
  then show ?thesis
    using assms(1,2) by (auto simp: vdm_row_def d upt_3 el_def Let_def)
qed

lemma invert_vdm_123_column:
  "el 3 (invert_vdm vdm_123 3) 0 0 = inverse (GF 4) * GF 4"
  "el 3 (invert_vdm vdm_123 3) 1 0 = inverse (GF 4)"
  "el 3 (invert_vdm vdm_123 3) 2 0 = inverse (GF 4)"
proof -
  let ?row = "vdm_row [1, GF 2, GF 3] [0, GF 5, 0] 3"
  have p: "vdm_points vdm_123 3 = [1, GF 2, GF 3]" by (simp add: vdm_points_eq vdm_123_def upt_3)
  have inv: "invert_vdm vdm_123 3 = fst (?row 2 (?row 1 (?row 0 (vdm_123, replicate 3 0))))"
    by (simp add: invert_vdm_def p vdm_123_coeffs upt_3 Let_def del: replicate.simps)
  obtain m0 b0 where 0: "?row 0 (vdm_123, replicate 3 0) = (m0, b0)" by fastforce
  have "length m0 = 9" "el 3 m0 0 0 = inverse (GF 4) * GF 4" "el 3 m0 1 0 = inverse (GF 4)" "el 3 m0 2 0 = inverse (GF 4)"
    using 0 by (auto simp: vdm_row_def vdm_123_divide upt_3 el_def Let_def vdm_123_def)
  moreover obtain m1 b1 where 1: "?row 1 (m0, b0) = (m1, b1)" by fastforce
  ultimately have "length m1 = 9 \<and> (\<forall>c<3. el 3 m1 c 0 = el 3 m0 c 0)"
    using vdm_123_other_rows [of m0 1 _ "[1, GF 2, GF 3]" "[0, GF 5, 0]" b0] zero_less_numeral [of "num.Bit1 num.One"]
    by (metis fst_conv)
  then have "\<forall>c<3. el 3 (fst (?row 2 (m1, b1))) c 0 = el 3 m0 c 0"
    using vdm_123_other_rows [of m1 2 _ "[1, GF 2, GF 3]" "[0, GF 5, 0]" b1] by auto
  then show "el 3 (invert_vdm vdm_123 3) 0 0 = inverse (GF 4) * GF 4"
    "el 3 (invert_vdm vdm_123 3) 1 0 = inverse (GF 4)" "el 3 (invert_vdm vdm_123 3) 2 0 = inverse (GF 4)"
    using inv 0 1 \<open>el 3 m0 0 0 = _\<close> \<open>el 3 m0 1 0 = _\<close> \<open>el 3 m0 2 0 = _\<close> by simp_all
qed

lemma sum_3: "(\<Sum>j<3. f j) = f 0 + f 1 + f 2" for f :: "nat \<Rightarrow> gf"
  by (simp add: eval_nat_numeral)

theorem invert_vdm_needs_zero_point:
  "\<not> inverse_of 3 (el 3 vdm_123) (el 3 (invert_vdm vdm_123 3))"
proof
  have V: "el 3 vdm_123 1 0 = 1" "el 3 vdm_123 1 1 = GF 2" "el 3 vdm_123 1 2 = GF 4"
    by (simp_all add: el_def vdm_123_def)
  assume "inverse_of 3 (el 3 vdm_123) (el 3 (invert_vdm vdm_123 3))"
  then have "(\<Sum>j<3. el 3 vdm_123 1 j * el 3 (invert_vdm vdm_123 3) j 0) = 0"
    unfolding inverse_of_def by simp
  then have "inverse (GF 4) * (GF 4 + GF 2 + GF 4) = 0"
    unfolding sum_3 V invert_vdm_123_column by (simp add: algebra_simps)
  moreover have "inverse (GF 4) \<noteq> 0" using nonzero_imp_inverse_nonzero [of "GF 4"] by (simp add: zero_gf_def)
  ultimately have "GF 4 + GF 2 + GF 4 = 0" using mult_eq_0_iff by blast
  then show False by (simp add: plus_gf_def zero_gf_def)
qed

section \<open>The code\<close>

text \<open>
  C29: every k rows of the n by k encoding matrix that \<open>fec_new\<close> builds are linearly independent
  (the code is maximum distance separable), and its first k rows are the identity (systematic).
\<close>

theorem fec_new_mds:
  assumes new: "fec_new k n = ok (Some code)" and rows: "inj_on f {..<k}" "\<And>i. i < k \<Longrightarrow> f i < n"
  shows "\<not> singular k (\<lambda>i j. coefficient code (f i) j)
    \<and> (\<forall>i<k. \<forall>j<k. coefficient code i j = (if i = j then 1 else 0))"
proof -
  have v: "valid_code code" "code_k code = k" "code_n code = n" using fec_new_valid [OF new] by simp_all
  have "\<not> singular k (\<lambda>i j. coefficient code (f i) j)"
    using v rows by (intro rows_not_singular [of k n f]) (auto simp: valid_code_def coefficient_def)
  then show ?thesis using coefficient_native [OF v(1)] v(2) by simp
qed

theorem fec_new_mds_witness:
  "\<exists>code. fec_new 2 4 = ok (Some code) \<and> \<not> singular 2 (\<lambda>i j. coefficient code (3 - i) j)
    \<and> (\<forall>i<2. \<forall>j<2. coefficient code i j = (if i = j then 1 else 0))"
proof -
  obtain code where code: "fec_new 2 4 = ok (Some code)" using fec_new_ok [of 2 4] by auto
  have "inj_on (\<lambda>i. 3 - i) {..<2 :: nat}" by (rule inj_onI) auto
  then show ?thesis using fec_new_mds [OF code, of "\<lambda>i. 3 - i"] code by auto
qed

text \<open>
  C21: \<open>fec_decode\<close> restores the sources from any k packets with distinct numbers below n, each the
  output of \<open>fec_encode\<close> for its number, whatever order they arrive in.
\<close>

theorem fec_decode_any_k:
  assumes new: "fec_new k n = ok (Some code)" and len: "k \<le> length index" "k \<le> length pkt"
    and dist: "distinct (take k index)" and idx: "\<And>i. i < k \<Longrightarrow> index ! i < n"
    and srcs: "\<And>j. j < k \<Longrightarrow> sz \<le> length (srcs ! j)"
    and rcv: "\<And>i. i < k \<Longrightarrow> sz \<le> length (pkt ! i)
      \<and> take sz (pkt ! i) = take sz (fec_encode code srcs (replicate sz 0) (index ! i) sz)"
  shows "\<exists>pkt' index'. fec_decode code pkt index sz = ok (False, pkt', index')
    \<and> (\<forall>i<k. take sz (pkt' ! i) = take sz (srcs ! i))"
  by (rule fec.decode_encode [OF new len dist idx srcs rcv])

theorem fec_decode_any_k_witness:
  "\<exists>code pkt' index'. fec_new 1 3 = ok (Some code)
    \<and> fec_decode code [fec_encode code [[GF 9, GF 8]] (replicate 2 0) 2 2] [2] 2 = ok (False, pkt', index')
    \<and> (\<forall>i<1. take 2 (pkt' ! i) = take 2 ([[GF 9, GF 8]] ! i))"
proof -
  obtain code where code: "fec_new 1 3 = ok (Some code)" using fec_new_ok [of 1 3] by auto
  have len: "length (fec_encode code [[GF 9, GF 8]] (replicate 2 0) 2 2) = 2"
    using fec.length_encode [OF code, of 2 2 "[[GF 9, GF 8]]" "replicate 2 0"] by simp
  have "\<exists>pkt' index'. fec_decode code [fec_encode code [[GF 9, GF 8]] (replicate 2 0) 2 2] [2] 2 = ok (False, pkt', index')
    \<and> (\<forall>i<1. take 2 (pkt' ! i) = take 2 ([[GF 9, GF 8]] ! i))"
    by (rule fec_decode_any_k [OF code]) (simp_all add: len flip: numeral_2_eq_2 del: replicate_Suc)
  then show ?thesis using code by blast
qed

text \<open>
  A repeated packet number is detected: \<open>fec_decode\<close> returns its error flag, without a fault,
  whenever two of the first k numbers are equal, native or coded.
\<close>

theorem fec_decode_repeated_number:
  assumes new: "fec_new k n = ok (Some code)" and len: "k \<le> length index" "k \<le> length pkt"
    and dup: "\<not> distinct (take k index)"
  shows "\<exists>pkt' index'. fec_decode code pkt index sz = ok (True, pkt', index')"
  using fec_decode_duplicate [of code pkt index sz] fec_new_valid [OF new] len dup by simp

theorem fec_decode_repeated_number_witness:
  "\<exists>code pkt' index'. fec_new 2 3 = ok (Some code) \<and> fec_decode code [[GF 9], [GF 8]] [2, 2] 1 = ok (True, pkt', index')"
proof -
  obtain code where code: "fec_new 2 3 = ok (Some code)" using fec_new_ok [of 2 3] by auto
  then show ?thesis using fec_decode_repeated_number [OF code, of "[2, 2]" "[[GF 9], [GF 8]]" 1] by auto
qed

section \<open>The batch\<close>

text \<open>
  Every operation of \<open>CodeInfo\<close> keeps the sizes of its arrays: the inds_ and packet arrays
  have 256 entries, every buffer pkt_size_ bytes, and sz_ never exceeds a buffer.
\<close>

theorem code_info_inv_kept:
  assumes "code_info_inv ci"
  shows "code_info_inv (ClearInfo ci) \<and> code_info_inv (SetCodeInfo k n start ci)
    \<and> (\<forall>ci'. CopyLens lens ci = ok ci' \<longrightarrow> code_info_inv ci')
    \<and> (\<forall>r ci'. PushPkt len p ind ci = ok (r, ci') \<longrightarrow> code_info_inv ci')
    \<and> (\<forall>r ci'. PopPkt ci = ok (r, ci') \<longrightarrow> code_info_inv ci')
    \<and> (\<forall>ci'. codec_type ci = kEncoder \<longrightarrow> EncodeBatch ci = ok ci' \<longrightarrow> code_info_inv ci')
    \<and> (\<forall>ci'. DecodeBatch ci = ok ci' \<longrightarrow> code_info_inv ci')"
  using ClearInfo_inv [OF assms] SetCodeInfo_inv assms CopyLens_inv [OF assms] PushPkt_inv [OF assms]
    PopPkt_inv [OF assms] EncodeBatch_inv [OF assms] DecodeBatch_inv [OF assms] by blast

theorem code_info_inv_kept_witness:
  "\<exists>ci. CodeInfo zero_memory kDecoder 10 2000 = ok ci \<and> code_info_inv (ClearInfo ci)"
proof -
  obtain ci where ci: "CodeInfo zero_memory kDecoder 10 2000 = ok ci" "code_info_inv ci"
    using CodeInfo_ok [of 2000 10 zero_memory kDecoder] by auto
  then show ?thesis using code_info_inv_kept [OF ci(2)] by blast
qed

text \<open>
  A decoder stores a packet that fits its buffer without a fault, and accepts it exactly when
  it is not empty, its number is below n and fewer than n packets are stored (n at most 256);
  a packet longer than a buffer is written past the buffer's end.
\<close>

theorem decoder_push_result:
  assumes inv: "code_info_inv ci" "codec_type ci = kDecoder" "ci_n ci \<le> 256" and p: "unat len \<le> length p"
  shows "case PushPkt len p ind ci of
      Inl e \<Rightarrow> e = Out_Of_Bounds \<and> ci_pkt_size ci < unat len
    | Inr (accepted, ci') \<Rightarrow> accepted = (len \<noteq> 0 \<and> ind < ci_n ci \<and> cur_ind ci < ci_n ci)
        \<and> cur_ind ci' = (if accepted then cur_ind ci + 1 else cur_ind ci)"
proof (cases "len \<noteq> 0 \<and> ind < ci_n ci \<and> cur_ind ci < ci_n ci")
  case True
  then have "length (ci_inds ci) = 256" "length (coded_batch ci) = 256" "cur_ind ci < 256"
    "length (coded_batch ci ! cur_ind ci) = ci_pkt_size ci"
    using inv by (simp_all add: code_info_inv_def)
  then show ?thesis
    using True inv(2) p by (simp add: PushPkt_def store_pkt_def count_pkt_def Let_def not_le)
next
  case False
  then show ?thesis using inv(2) by (auto simp: PushPkt_def not_le)
qed

theorem decoder_push_result_witness:
  "\<exists>ci. CodeInfo zero_memory kDecoder 10 2000 = ok ci \<and> (case PushPkt 1 [GF 5] 0 (SetCodeInfo 2 3 1 ci) of
      Inl e \<Rightarrow> e = Out_Of_Bounds \<and> ci_pkt_size (SetCodeInfo 2 3 1 ci) < unat (1 :: u16)
    | Inr (accepted, ci') \<Rightarrow> accepted = ((1 :: u16) \<noteq> 0 \<and> 0 < ci_n (SetCodeInfo 2 3 1 ci) \<and> cur_ind (SetCodeInfo 2 3 1 ci) < ci_n (SetCodeInfo 2 3 1 ci))
        \<and> cur_ind ci' = (if accepted then cur_ind (SetCodeInfo 2 3 1 ci) + 1 else cur_ind (SetCodeInfo 2 3 1 ci)))"
proof -
  obtain ci where ci: "CodeInfo zero_memory kDecoder 10 2000 = ok ci" "code_info_inv ci" "codec_type ci = kDecoder"
    using CodeInfo_ok [of 2000 10 zero_memory kDecoder] by auto
  have "code_info_inv (SetCodeInfo 2 3 1 ci)" "codec_type (SetCodeInfo 2 3 1 ci) = kDecoder" "ci_n (SetCodeInfo 2 3 1 ci) \<le> 256"
    using ci by (simp_all add: SetCodeInfo_inv) (simp_all add: SetCodeInfo_def)
  then show ?thesis using decoder_push_result [of "SetCodeInfo 2 3 1 ci" 1 "[GF 5]" 0] ci(1) by auto
qed

end
