(* ===== verification/Fec_Checks.thy ===== *)
theory Fec_Checks
  imports Fec_Code
begin

text \<open>
  The parts of \<open>src/fec.cc\<close> that check: the magic number by which \<open>fec_free\<close> recognises a
  descriptor, the multiplication over logarithms that the preprocessor takes for \<open>GF_BITS > 8\<close>, and
  the self-tests \<open>test_gf\<close> and \<open>is_identity\<close> of the test build.
\<close>

section \<open>The magic number\<close>

text \<open>
  A descriptor with the members that \<open>fec_parms\<close> leaves out: the address of the matrix, a parameter,
  and \<open>magic\<close>. The casts keep the low 32 bits of the address; \<open>FEC_MAGIC\<close> is an unsigned 32-bit number.
\<close>

type_synonym u64 = "64 word"

definition FEC_MAGIC :: u32 where "FEC_MAGIC = 0xFECC0DEC"

record fec_block = fec_parms +
  magic :: u64
  matrix_at :: u64

definition fec_magic :: "nat \<Rightarrow> nat \<Rightarrow> u64 \<Rightarrow> u64" where
  "fec_magic k n a = ucast (((FEC_MAGIC XOR word_of_nat k) XOR word_of_nat n) XOR ucast a)"

text \<open>\<open>fec_new\<close> with the allocation of the matrix at \<open>a\<close>.\<close>

definition fec_new_at :: "u64 \<Rightarrow> nat \<Rightarrow> nat \<Rightarrow> fec_block option outcome" where
  "fec_new_at a k n = and_then (fec_new k n) (\<lambda>code. ok (map_option (\<lambda>c.
     fec_parms.extend c \<lparr>magic = fec_magic (code_k c) (code_n c) a, matrix_at = a\<rparr>) code))"

text \<open>\<open>False\<close>: the descriptor is not released and a message printed.\<close>

definition fec_free :: "fec_block option \<Rightarrow> bool" where
  "fec_free p = (case p of None \<Rightarrow> False
     | Some b \<Rightarrow> magic b = fec_magic (code_k b) (code_n b) (matrix_at b))"

text \<open>Every descriptor that \<open>fec_new\<close> made is released; one whose parameters were changed by itself is not.\<close>

lemma fec_free_new: "fec_new_at a k n = ok (Some b) \<Longrightarrow> fec_free (Some b)"
  by (auto simp: fec_new_at_def fec_free_def and_then_eq_ok fec_parms.defs)

lemma ucast_u64_inj: "ucast (x :: u32) = (ucast (y :: u32) :: u64) \<longleftrightarrow> x = y"
proof
  assume "ucast x = (ucast y :: u64)"
  then have "uint (ucast x :: u64) = uint (ucast y :: u64)" by simp
  then have "uint x = uint y" by (simp add: uint_up_ucast is_up)
  then show "x = y" by (simp add: word_uint_eq_iff)
qed simp

lemma fec_magic_k: "fec_magic k n a = fec_magic k' n a \<longleftrightarrow> (word_of_nat k :: u32) = word_of_nat k'"
proof -
  have cancel: "((m XOR x) XOR y) XOR z = ((m XOR x') XOR y) XOR z \<longleftrightarrow> x = x'" for m x x' y z :: u32
    by (auto simp: bit_eq_iff bit_xor_iff)
  show ?thesis by (simp add: fec_magic_def ucast_u64_inj cancel)
qed

lemma fec_free_changed:
  assumes "fec_new_at a k n = ok (Some b)" "k' \<le> 256" "k' \<noteq> k"
  shows "\<not> fec_free (Some (b\<lparr>code_k := k'\<rparr>))"
proof -
  have b: "code_k b = k" "magic b = fec_magic (code_k b) (code_n b) (matrix_at b)" "k \<le> 256"
    using assms(1) fec_new_valid [of k n]
    by (auto simp: fec_new_at_def and_then_eq_ok fec_parms.defs valid_code_def)
  have "(word_of_nat k :: u32) \<noteq> word_of_nat k'"
    using assms(2,3) b(3) by (simp add: word_unat_eq_iff unat_of_nat)
  then show ?thesis using b(1,2) by (simp add: fec_free_def fec_magic_k)
qed

section \<open>Multiplication over logarithms\<close>

definition gf_mul_log :: "u8 \<Rightarrow> u8 \<Rightarrow> u8" where
  "gf_mul_log x y = (if x = 0 \<or> y = 0 then 0
     else gf_exp (gf_tabs fec_ready) ! (gf_log (gf_tabs fec_ready) ! unat x + gf_log (gf_tabs fec_ready) ! unat y))"

text \<open>The doubled table of powers makes the sum of two logarithms a valid index.\<close>

lemma gf_mul_log_eq: "gf_mul_log x y = gf_mul x y"
proof (cases "x = 0 \<or> y = 0")
  case True
  then show ?thesis by (auto simp: gf_mul_log_def gf_mul_alt)
next
  case False
  then have "gf_dlog x < 255" "gf_dlog y < 255" using alpha_dlog by blast+
  then have "gf_mul_log x y = alpha (gf_dlog x + gf_dlog y)"
    using False gf_exp_at_alpha [of "gf_dlog x + gf_dlog y"] by (simp add: gf_mul_log_def gf_exp_at_def gf_dlog_def)
  then show ?thesis using False by (simp add: gf_mul_alt alpha_mod)
qed

section \<open>Self-tests\<close>

datatype gf_report = Bad_Exp_Log nat nat u8 | Bad_Inverse nat u8 u8 | Bad_Row nat | Bad_Column nat

definition test_gf_at :: "nat \<Rightarrow> gf_report list" where
  "test_gf_at i =
     (let x = word_of_nat i; l = gf_log (gf_tabs fec_ready) ! i in
      (if gf_exp (gf_tabs fec_ready) ! l \<noteq> x then [Bad_Exp_Log i l (gf_exp (gf_tabs fec_ready) ! l)] else [])
      @ (if i \<noteq> 0 \<and> gf_mul x (gf_inverse x) \<noteq> 1 then [Bad_Inverse i (gf_inverse x) (gf_mul x (gf_inverse x))] else [])
      @ (if gf_mul 0 x \<noteq> 0 then [Bad_Row i] else [])
      @ (if gf_mul x 0 \<noteq> 0 then [Bad_Column i] else []))"

definition test_gf :: "gf_report list" where
  "test_gf = concat (map test_gf_at [0..<GF_SIZE + 1])"

text \<open>
  The tables are right, but the loop begins at 0, which has no logarithm: the test reports an error
  for it, and no other.
\<close>

lemma test_gf_zero: "test_gf_at 0 = [Bad_Exp_Log 0 255 1]"
proof -
  have "gf_log (gf_tabs fec_ready) ! 0 = 255" using gf_dlog_zero by (simp add: gf_dlog_def)
  moreover have "gf_exp (gf_tabs fec_ready) ! 255 = 1"
    using gf_exp_at_alpha [of 255] alpha_255 by (simp add: gf_exp_at_def)
  ultimately show ?thesis by (simp add: test_gf_at_def Let_def gf_mul_alt)
qed

lemma gf_mul_swap: "gf_mul x y = gf_mul y x"
  by (auto simp: gf_mul_alt add.commute)

lemma test_gf_nonzero:
  assumes "0 < i" "i < 256" shows "test_gf_at i = []"
proof -
  let ?x = "word_of_nat i :: u8"
  have x: "?x \<noteq> 0" "unat ?x = i" using assms by (simp_all add: word_unat_eq_iff unat_of_nat)
  have "gf_exp (gf_tabs fec_ready) ! (gf_log (gf_tabs fec_ready) ! i) = ?x"
    using alpha_dlog [OF x(1)] gf_exp_at_alpha [of "gf_dlog ?x"] x(2) by (simp add: gf_exp_at_def gf_dlog_def)
  moreover have "gf_mul ?x (gf_inverse ?x) = 1" using gf_mul_inverse [OF x(1)] gf_mul_swap [of ?x] by simp
  moreover have "gf_mul 0 ?x = 0" "gf_mul ?x 0 = 0" by (simp_all add: gf_mul_alt)
  ultimately show ?thesis by (simp add: test_gf_at_def Let_def)
qed

lemma test_gf_reports: "test_gf = [Bad_Exp_Log 0 255 1]"
proof -
  have "[0..<GF_SIZE + 1] = 0 # [1..<256]" by (simp add: upt_conv_Cons)
  moreover have "concat (map test_gf_at [1..<256]) = []" using test_gf_nonzero by simp
  ultimately show ?thesis by (simp add: test_gf_def test_gf_zero)
qed

text \<open>\<open>is_identity\<close> on a matrix stored by rows; the pointer moves on by one for every cell.\<close>

definition identity_cell :: "gf list \<Rightarrow> nat \<Rightarrow> nat \<Rightarrow> nat \<Rightarrow> bool" where
  "identity_cell m k row col \<longleftrightarrow> \<not> (row = col \<and> m ! (row * k + col) \<noteq> 1 \<or> row \<noteq> col \<and> m ! (row * k + col) \<noteq> 0)"

definition is_identity :: "gf list \<Rightarrow> nat \<Rightarrow> bool" where
  "is_identity m k \<longleftrightarrow> list_all (\<lambda>row. list_all (identity_cell m k row) [0..<k]) [0..<k]"

lemma is_identity_iff: "is_identity m k \<longleftrightarrow> (\<forall>r<k. \<forall>c<k. el k m r c = (if r = c then 1 else 0))"
  by (fastforce simp: is_identity_def identity_cell_def list_all_iff el_def)

text \<open>The first rows of the encoding matrix pass it.\<close>

lemma fec_new_identity:
  assumes "fec_new k n = ok (Some code)" shows "is_identity (enc_matrix code) k"
  unfolding is_identity_iff
  using coefficient_native [of code] fec_new_valid [OF assms] by (simp add: coefficient_def)

end
