(* ===== verification/Byte_Layout.thy ===== *)
theory Byte_Layout
  imports Prelude
begin

text \<open>
  Objects in packet buffers. The program casts a packet buffer to a header class and reads its
  members in place; the model reads and writes them little-endian at their byte offsets.
\<close>

text \<open>A C \<open>int\<close> that is only stored, copied and compared: its 32 bits.\<close>

type_synonym i32 = "32 word"

section \<open>Little-endian numbers\<close>

fun le_bytes :: "nat \<Rightarrow> nat \<Rightarrow> u8 list" where
  "le_bytes 0 x = []"
| "le_bytes (Suc n) x = word_of_nat x # le_bytes n (x div 256)"

fun le_nat :: "u8 list \<Rightarrow> nat" where
  "le_nat [] = 0"
| "le_nat (b # bs) = unat b + 256 * le_nat bs"

lemma length_le_bytes [simp]: "length (le_bytes n x) = n"
  by (induction n arbitrary: x) simp_all

lemma le_nat_le_bytes: "le_nat (le_bytes n x) = x mod 256 ^ n"
proof (induction n arbitrary: x)
  case (Suc n)
  have "x mod (256 * 256 ^ n) = 256 * (x div 256 mod 256 ^ n) + x mod 256"
    by (rule mod_mult2_eq)
  then show ?case using Suc by (simp add: unat_of_nat)
qed simp

lemma le_nat_less: "le_nat bs < 256 ^ length bs"
proof (induction bs)
  case (Cons b bs)
  have "unat b < 256" using unsigned_less [of b] by simp
  then show ?case using Cons by simp
qed simp

section \<open>Members at an offset\<close>

text \<open>A member outside the buffer has no defined value, and bytes put behind its end are not kept;
  the callers' buffers are long enough for their headers.\<close>

definition load :: "nat \<Rightarrow> u8 list \<Rightarrow> nat \<Rightarrow> nat" where
  "load n pkt off = le_nat (take n (drop off pkt))"

definition load_u16 :: "u8 list \<Rightarrow> nat \<Rightarrow> u16" where
  "load_u16 pkt off = word_of_nat (load 2 pkt off)"

definition load_u32 :: "u8 list \<Rightarrow> nat \<Rightarrow> u32" where
  "load_u32 pkt off = word_of_nat (load 4 pkt off)"

definition put :: "nat \<Rightarrow> u8 list \<Rightarrow> u8 list \<Rightarrow> u8 list" where
  "put off bs pkt = map (\<lambda>i. if off \<le> i \<and> i < off + length bs then bs ! (i - off) else pkt ! i) [0..<length pkt]"

abbreviation bytes_u16 :: "u16 \<Rightarrow> u8 list" where "bytes_u16 x \<equiv> le_bytes 2 (unat x)"
abbreviation bytes_u32 :: "u32 \<Rightarrow> u8 list" where "bytes_u32 x \<equiv> le_bytes 4 (unat x)"

lemma length_put [simp]: "length (put off bs pkt) = length pkt"
  by (simp add: put_def)

lemma nth_put: "i < length pkt \<Longrightarrow> put off bs pkt ! i = (if off \<le> i \<and> i < off + length bs then bs ! (i - off) else pkt ! i)"
  by (simp add: put_def)

text \<open>A member written is read back, and the members beside it keep their values.\<close>

lemma take_drop_put_same: "off + length bs \<le> length pkt \<Longrightarrow> take (length bs) (drop off (put off bs pkt)) = bs"
  by (intro nth_equalityI) (simp_all add: nth_put)

lemma take_drop_put_other:
  assumes "off' + n \<le> length pkt" "off' + n \<le> off \<or> off + length bs \<le> off'"
  shows "take n (drop off' (put off bs pkt)) = take n (drop off' pkt)"
  using assms by (intro nth_equalityI) (auto simp: nth_put)

lemma load_put_u16: "off + 2 \<le> length pkt \<Longrightarrow> load_u16 (put off (bytes_u16 x) pkt) off = x"
proof -
  assume "off + 2 \<le> length pkt"
  moreover have "unat x mod 65536 = unat x" using unsigned_less [of x] by (intro mod_less) simp
  ultimately show ?thesis
    using take_drop_put_same [of off "bytes_u16 x" pkt] by (simp add: load_u16_def load_def le_nat_le_bytes)
qed

lemma load_put_u32: "off + 4 \<le> length pkt \<Longrightarrow> load_u32 (put off (bytes_u32 x) pkt) off = x"
proof -
  assume "off + 4 \<le> length pkt"
  moreover have "unat x mod 4294967296 = unat x" using unsigned_less [of x] by (intro mod_less) simp
  ultimately show ?thesis
    using take_drop_put_same [of off "bytes_u32 x" pkt] by (simp add: load_u32_def load_def le_nat_le_bytes)
qed

lemma load_put_other:
  "off' + n \<le> length pkt \<Longrightarrow> off' + n \<le> off \<or> off + length bs \<le> off'
    \<Longrightarrow> load n (put off bs pkt) off' = load n pkt off'"
  by (simp add: load_def take_drop_put_other)

lemma load_u16_put_other:
  "off' + 2 \<le> length pkt \<Longrightarrow> off' + 2 \<le> off \<or> off + length bs \<le> off'
    \<Longrightarrow> load_u16 (put off bs pkt) off' = load_u16 pkt off'"
  by (simp add: load_u16_def load_put_other)

lemma load_u32_put_other:
  "off' + 4 \<le> length pkt \<Longrightarrow> off' + 4 \<le> off \<or> off + length bs \<le> off'
    \<Longrightarrow> load_u32 (put off bs pkt) off' = load_u32 pkt off'"
  by (simp add: load_u32_def load_put_other)

lemma nth_put_other: "Suc i \<le> length pkt \<Longrightarrow> i < off \<or> off + length bs \<le> i \<Longrightarrow> put off bs pkt ! i = pkt ! i"
  by (auto simp: nth_put)

lemma nth_put_byte: "Suc off \<le> length pkt \<Longrightarrow> put off [b] pkt ! off = b"
  by (simp add: nth_put)

lemmas put_load = load_put_u16 load_put_u32 load_u16_put_other load_u32_put_other nth_put_other nth_put_byte

text \<open>Arrays of \<open>uint16\<close>.\<close>

fun put_u16s :: "nat \<Rightarrow> u16 list \<Rightarrow> u8 list \<Rightarrow> u8 list" where
  "put_u16s off [] pkt = pkt"
| "put_u16s off (x # xs) pkt = put off (bytes_u16 x) (put_u16s (off + 2) xs pkt)"

definition load_u16s :: "u8 list \<Rightarrow> nat \<Rightarrow> nat \<Rightarrow> u16 list" where
  "load_u16s pkt off k = map (\<lambda>i. load_u16 pkt (off + 2 * i)) [0..<k]"

lemma length_put_u16s [simp]: "length (put_u16s off xs pkt) = length pkt"
  by (induction off xs pkt rule: put_u16s.induct) simp_all

lemma load_put_u16s:
  "off + 2 * length xs \<le> length pkt \<Longrightarrow> i < length xs \<Longrightarrow> load_u16 (put_u16s off xs pkt) (off + 2 * i) = xs ! i"
proof (induction off xs pkt arbitrary: i rule: put_u16s.induct)
  case (2 off x xs pkt)
  show ?case
  proof (cases i)
    case 0
    then show ?thesis using "2.prems" by (simp add: put_load)
  next
    case (Suc j)
    then have "load_u16 (put_u16s (off + 2) xs pkt) (off + 2 + 2 * j) = xs ! j"
      using "2.IH" [of j] "2.prems" by simp
    then show ?thesis using Suc "2.prems" by (simp add: load_u16_put_other)
  qed
qed simp

lemma load_u16s_put_u16s: "off + 2 * length xs \<le> length pkt \<Longrightarrow> load_u16s (put_u16s off xs pkt) off (length xs) = xs"
  unfolding load_u16s_def by (rule nth_equalityI) (simp_all add: load_put_u16s)

lemma put_u16s_other:
  "Suc i \<le> length pkt \<Longrightarrow> i < off \<or> off + 2 * length xs \<le> i \<Longrightarrow> put_u16s off xs pkt ! i = pkt ! i"
  by (induction off xs pkt rule: put_u16s.induct) (auto simp: nth_put_other)

lemma load_put_u16s_other:
  "off' + n \<le> length pkt \<Longrightarrow> off' + n \<le> off \<or> off + 2 * length xs \<le> off'
    \<Longrightarrow> load n (put_u16s off xs pkt) off' = load n pkt off'"
  by (induction off xs pkt rule: put_u16s.induct) (auto simp: load_put_other)

lemmas put_u16s_load = load_put_u16s_other put_u16s_other load_u16s_put_u16s

end
