(* ===== verification/Headers.thy ===== *)
theory Headers
  imports Byte_Layout
begin

text \<open>
  The packet headers of \<open>src/wspace_asym_util.h\<close> and \<open>src/wspace_asym_util.cc\<close>: rate codes,
  \<open>AthDataHeader\<close>, \<open>AthCodeHeader\<close> with the length array behind it, \<open>ControllerToClientHeader\<close>,
  with their representation in a packet. Offsets and sizes are those of the
  x86-64 ABI with \<open>RAND_DROP\<close> defined, as in the source.
\<close>

section \<open>Packet types and rate codes\<close>

definition ATH_DATA :: u8 where "ATH_DATA = 1"
definition ATH_CODE :: u8 where "ATH_CODE = 2"
definition DATA_ACK :: u8 where "DATA_ACK = 3"
definition RAW_ACK :: u8 where "RAW_ACK = 5"
definition CELL_DATA :: u8 where "CELL_DATA = 6"
definition GPS_TYPE :: u8 where "GPS_TYPE = 7"
definition CONTROLLER_TO_CLIENT :: u8 where "CONTROLLER_TO_CLIENT = 9"

lemmas packet_types = ATH_DATA_def ATH_CODE_def DATA_ACK_def RAW_ACK_def CELL_DATA_def GPS_TYPE_def
  CONTROLLER_TO_CLIENT_def

text \<open>\<open>PKT_SIZE\<close> as \<open>wspace_asym_util.cc\<close> sees it.\<close>

definition PKT_SIZE :: nat where "PKT_SIZE = 1472"
definition MAX_BATCH_SIZE :: nat where "MAX_BATCH_SIZE = 10"

definition ATH_DATA_HEADER_SIZE :: nat where "ATH_DATA_HEADER_SIZE = 32"
definition ATH_CODE_HEADER_SIZE :: nat where "ATH_CODE_HEADER_SIZE = 36"
definition CELL_DATA_HEADER_SIZE :: nat where "CELL_DATA_HEADER_SIZE = 1"
definition CTC_HEADER_SIZE :: nat where "CTC_HEADER_SIZE = 12"

record ath_header =
  ah_type :: u8
  raw_seq :: u32
  ah_rate :: u16
  ah_bs_id :: i32
  ah_client_id :: i32
  is_good :: bool

text \<open>\<open>AthHeader(type, rate)\<close>; the constructor leaves \<open>is_good_\<close> as the memory was.\<close>

definition AthHeader :: "bool \<Rightarrow> u8 \<Rightarrow> u16 \<Rightarrow> ath_header" where
  "AthHeader junk type rate =
     \<lparr>ah_type = type, raw_seq = 0, ah_rate = rate, ah_bs_id = 0, ah_client_id = 0, is_good = junk\<rparr>"

definition set_is_good :: "bool \<Rightarrow> 'a ath_header_scheme \<Rightarrow> 'a ath_header_scheme" where
  "set_is_good g h = h\<lparr>is_good := g\<rparr>"

definition set_hdr_bs_id :: "i32 \<Rightarrow> 'a ath_header_scheme \<Rightarrow> 'a ath_header_scheme" where
  "set_hdr_bs_id i h = h\<lparr>ah_bs_id := i\<rparr>"

definition set_hdr_client_id :: "i32 \<Rightarrow> 'a ath_header_scheme \<Rightarrow> 'a ath_header_scheme" where
  "set_hdr_client_id i h = h\<lparr>ah_client_id := i\<rparr>"

definition IncrementRawSeq :: "'a ath_header_scheme \<Rightarrow> 'a ath_header_scheme" where
  "IncrementRawSeq h = h\<lparr>raw_seq := raw_seq h + 1\<rparr>"

definition SetRate :: "u16 \<Rightarrow> 'a ath_header_scheme \<Rightarrow> 'a ath_header_scheme outcome" where
  "SetRate rate h =
     (if rate = 10 then ok (h\<lparr>ah_rate := 0x1B\<rparr>)
      else if rate = 20 then ok (h\<lparr>ah_rate := 0x1A\<rparr>)
      else if rate = 55 then ok (h\<lparr>ah_rate := 0x19\<rparr>)
      else if rate = 110 then ok (h\<lparr>ah_rate := 0x18\<rparr>)
      else if rate = 60 then ok (h\<lparr>ah_rate := 0x0B\<rparr>)
      else if rate = 90 then ok (h\<lparr>ah_rate := 0x0F\<rparr>)
      else if rate = 120 then ok (h\<lparr>ah_rate := 0x0A\<rparr>)
      else if rate = 180 then ok (h\<lparr>ah_rate := 0x0E\<rparr>)
      else if rate = 240 then ok (h\<lparr>ah_rate := 0x09\<rparr>)
      else if rate = 360 then ok (h\<lparr>ah_rate := 0x0D\<rparr>)
      else if rate = 480 then ok (h\<lparr>ah_rate := 0x08\<rparr>)
      else if rate = 540 then ok (h\<lparr>ah_rate := 0x0C\<rparr>)
      else abort Perror_Exit)"

text \<open>Ten times the rate in Mbit/s.\<close>

definition GetRate :: "'a ath_header_scheme \<Rightarrow> u16 outcome" where
  "GetRate h =
     (if ah_rate h = 0x1B then ok 10
      else if ah_rate h = 0x1A then ok 20
      else if ah_rate h = 0x19 then ok 55
      else if ah_rate h = 0x18 then ok 110
      else if ah_rate h = 0x0B then ok 60
      else if ah_rate h = 0x0F then ok 90
      else if ah_rate h = 0x0A then ok 120
      else if ah_rate h = 0x0E then ok 180
      else if ah_rate h = 0x09 then ok 240
      else if ah_rate h = 0x0D then ok 360
      else if ah_rate h = 0x08 then ok 480
      else if ah_rate h = 0x0C then ok 540
      else abort Perror_Exit)"

text \<open>Every rate that \<open>GetRate\<close> returns is one of twelve, none of them zero.\<close>

lemma GetRate_values: "GetRate h = ok r \<Longrightarrow> r \<in> {10, 20, 55, 110, 60, 90, 120, 180, 240, 360, 480, 540}"
  by (simp add: GetRate_def split: if_splits)

section \<open>AthDataHeader\<close>

record ath_data_header = ath_header +
  dh_seq_num :: u32
  dh_len :: u16

definition AthDataHeader :: "bool \<Rightarrow> ath_data_header" where
  "AthDataHeader junk = ath_header.extend (AthHeader junk ATH_DATA 0x0B) \<lparr>dh_seq_num = 0, dh_len = 0\<rparr>"

definition SetAthHdr :: "u32 \<Rightarrow> u16 \<Rightarrow> u16 \<Rightarrow> ath_data_header \<Rightarrow> ath_data_header outcome" where
  "SetAthHdr seq len rate h =
     (let h = h\<lparr>ah_type := ATH_DATA\<rparr> in
      if unat len > PKT_SIZE - ATH_DATA_HEADER_SIZE then abort Perror_Exit
      else ok (h\<lparr>dh_len := len, dh_seq_num := seq, ah_rate := rate\<rparr>))"

text \<open>The rate is returned through a \<open>char\<close>: its low byte.\<close>

definition ParseAthHdr :: "ath_data_header \<Rightarrow> (u32 \<times> u16 \<times> u8) outcome" where
  "ParseAthHdr h =
     (if ah_type h \<noteq> ATH_DATA then abort Perror_Exit
      else if unat (dh_len h) > PKT_SIZE - ATH_DATA_HEADER_SIZE then abort Perror_Exit
      else ok (dh_seq_num h, dh_len h, ucast (ah_rate h)))"

section \<open>AthCodeHeader\<close>

record ath_code_header = ath_header +
  ch_batch_id :: u32
  ch_start_seq :: u32
  ch_ind :: u8
  ch_k :: u8
  ch_n :: u8

text \<open>The constructor sets no batch number.\<close>

definition AthCodeHeader :: "bool \<Rightarrow> u32 \<Rightarrow> ath_code_header" where
  "AthCodeHeader junk junk_batch =
     ath_header.extend (AthHeader junk ATH_CODE 0x0B)
       \<lparr>ch_batch_id = junk_batch, ch_start_seq = 0, ch_ind = 0, ch_k = 0, ch_n = 0\<rparr>"

text \<open>
  \<open>SetHeader\<close>: the members, and the \<open>k_\<close> lengths that are copied behind the object; \<open>ind\<close>, \<open>k\<close>
  and \<open>n\<close> are cut to a byte.
\<close>

definition SetHeader ::
  "u32 \<Rightarrow> u32 \<Rightarrow> u8 \<Rightarrow> int \<Rightarrow> int \<Rightarrow> int \<Rightarrow> u16 list \<Rightarrow> i32 \<Rightarrow> i32 \<Rightarrow> ath_code_header
     \<Rightarrow> (ath_code_header \<times> u16 list) outcome" where
  "SetHeader batch_id start_seq type ind k n len_arr bs_id client_id h =
     (if \<not> (batch_id > 0 \<and> start_seq > 0 \<and> ind \<ge> 0 \<and> ind < n \<and> k \<ge> 0 \<and> n \<ge> 0 \<and> k \<le> n)
      then abort Assert_Failed
      else let h = h\<lparr>ch_batch_id := batch_id, ah_type := type, ch_start_seq := start_seq,
             ch_ind := word_of_int ind, ch_k := word_of_int k, ch_n := word_of_int n,
             ah_bs_id := bs_id, ah_client_id := client_id\<rparr>
        in if unat (ch_k h) > length len_arr then abort Out_Of_Bounds
           else ok (h, take (unat (ch_k h)) len_arr))"

definition SetInd :: "u8 \<Rightarrow> ath_code_header \<Rightarrow> ath_code_header" where
  "SetInd ind h = h\<lparr>ch_ind := ind\<rparr>"

record parsed_code =
  p_batch_id :: u32
  p_start_seq :: u32
  p_ind :: nat
  p_k :: nat
  p_n :: nat
  p_bs_id :: i32
  p_client_id :: i32

definition ParseHeader :: "ath_code_header \<Rightarrow> parsed_code outcome" where
  "ParseHeader h =
     (if \<not> ah_type h = ATH_CODE then abort Assert_Failed
      else if \<not> (ch_batch_id h > 0 \<and> ch_start_seq h > 0 \<and> ch_ind h < ch_n h \<and> ch_k h \<le> ch_n h
        \<and> ch_k h > 0 \<and> unat (ch_k h) \<le> MAX_BATCH_SIZE) then abort Assert_Failed
      else ok \<lparr>p_batch_id = ch_batch_id h, p_start_seq = ch_start_seq h, p_ind = unat (ch_ind h),
             p_k = unat (ch_k h), p_n = unat (ch_n h), p_bs_id = ah_bs_id h, p_client_id = ah_client_id h\<rparr>)"

definition GetFullHdrLen :: "'a ath_code_header_scheme \<Rightarrow> nat" where
  "GetFullHdrLen h = ATH_CODE_HEADER_SIZE + unat (ch_k h) * 2"

text \<open>\<open>lens()\<close> and \<open>GetPayloadStart()\<close>, on the packet the object lies in.\<close>

definition hdr_lens :: "ath_code_header \<Rightarrow> u8 list \<Rightarrow> u16 list outcome" where
  "hdr_lens h pkt =
     (if \<not> ch_k h > 0 then abort Assert_Failed
      else ok (load_u16s pkt ATH_CODE_HEADER_SIZE (unat (ch_k h))))"

definition GetPayloadStart :: "ath_code_header \<Rightarrow> u8 list \<Rightarrow> u8 list" where
  "GetPayloadStart h pkt = drop (ATH_CODE_HEADER_SIZE + unat (ch_k h) * 2) pkt"

text \<open>What \<open>(AthCodeHeader *)pkt\<close> reads, and the object written to a packet.\<close>

definition code_header_at :: "u8 list \<Rightarrow> ath_code_header" where
  "code_header_at pkt =
     \<lparr>ah_type = pkt ! 0, raw_seq = load_u32 pkt 4, ah_rate = load_u16 pkt 8, ah_bs_id = load_u32 pkt 12,
      ah_client_id = load_u32 pkt 16, is_good = (pkt ! 20 \<noteq> 0), ch_batch_id = load_u32 pkt 24,
      ch_start_seq = load_u32 pkt 28, ch_ind = pkt ! 32, ch_k = pkt ! 33, ch_n = pkt ! 34\<rparr>"

definition put_code_header :: "ath_code_header \<Rightarrow> u8 list \<Rightarrow> u8 list" where
  "put_code_header h pkt =
     put 34 [ch_n h] (put 33 [ch_k h] (put 32 [ch_ind h] (put 28 (bytes_u32 (ch_start_seq h))
     (put 24 (bytes_u32 (ch_batch_id h)) (put 20 [if is_good h then 1 else 0] (put 16 (bytes_u32 (ah_client_id h))
     (put 12 (bytes_u32 (ah_bs_id h)) (put 8 (bytes_u16 (ah_rate h)) (put 4 (bytes_u32 (raw_seq h))
     (put 0 [ah_type h] pkt))))))))))"

lemma length_put_code_header [simp]: "length (put_code_header h pkt) = length pkt"
  by (simp add: put_code_header_def)

lemma code_header_at_put: "36 \<le> length pkt \<Longrightarrow> code_header_at (put_code_header h pkt) = h"
  by (cases h) (simp add: code_header_at_def put_code_header_def put_load)

lemma code_header_at_lens:
  "36 + 2 * length lens \<le> length pkt \<Longrightarrow> code_header_at (put_u16s 36 lens pkt) = code_header_at pkt"
  by (simp add: code_header_at_def put_u16s_other load_u32_def load_u16_def load_put_u16s_other)

section \<open>ControllerToClientHeader\<close>

record ctc_header =
  ctc_type :: u8
  ctc_client_id :: i32
  o_seq :: u32

definition ControllerToClientHeader :: "i32 \<Rightarrow> u32 \<Rightarrow> ctc_header" where
  "ControllerToClientHeader junk_client junk_seq = \<lparr>ctc_type = CONTROLLER_TO_CLIENT, ctc_client_id = junk_client, o_seq = junk_seq\<rparr>"

definition set_client_id :: "i32 \<Rightarrow> ctc_header \<Rightarrow> ctc_header" where
  "set_client_id i h = h\<lparr>ctc_client_id := i\<rparr>"

definition set_o_seq :: "u32 \<Rightarrow> ctc_header \<Rightarrow> ctc_header" where
  "set_o_seq s h = h\<lparr>o_seq := s\<rparr>"

definition set_type :: "u8 \<Rightarrow> ctc_header \<Rightarrow> ctc_header" where
  "set_type t h = h\<lparr>ctc_type := t\<rparr>"

definition ctc_header_at :: "u8 list \<Rightarrow> ctc_header" where
  "ctc_header_at pkt = \<lparr>ctc_type = pkt ! 0, ctc_client_id = load_u32 pkt 4, o_seq = load_u32 pkt 8\<rparr>"

definition put_ctc_header :: "ctc_header \<Rightarrow> u8 list \<Rightarrow> u8 list" where
  "put_ctc_header h pkt = put 8 (bytes_u32 (o_seq h)) (put 4 (bytes_u32 (ctc_client_id h)) (put 0 [ctc_type h] pkt))"

lemma ctc_header_at_put: "12 \<le> length pkt \<Longrightarrow> ctc_header_at (put_ctc_header h pkt) = h"
  by (cases h) (simp add: ctc_header_at_def put_ctc_header_def put_load)

lemma length_put_ctc_header [simp]: "length (put_ctc_header h pkt) = length pkt"
  by (simp add: put_ctc_header_def)

end
