(* ===== verification/Batch_Info.thy ===== *)
theory Batch_Info
  imports Prelude
begin

text \<open>
  Class \<open>TIME\<close> of \<open>src/time_util.h\<close> and class \<open>BatchInfo\<close> of \<open>src/wspace_asym_util.h\<close> and
  \<open>src/wspace_asym_util.cc\<close>: what the receiving thread tells the acknowledging thread about the
  current batch. The clock (\<open>gettimeofday\<close>) is a parameter \<open>now\<close> of the operations. Each
  operation holds the object's lock, so it is one step.
\<close>

section \<open>Time\<close>

record time =
  tv_sec :: int
  tv_usec :: int

text \<open>
  \<open>operator-\<close>: the difference in microseconds. The code computes it in \<open>double\<close>, which is exact
  below \<open>2\<^sup>5\<^sup>3\<close>.
\<close>

definition time_minus :: "time \<Rightarrow> time \<Rightarrow> int" where
  "time_minus end start = (tv_sec end - tv_sec start) * 1000000 + (tv_usec end - tv_usec start)"

lemma time_minus_self [simp]: "time_minus t t = 0"
  by (simp add: time_minus_def)

lemma time_minus_split: "time_minus c a = time_minus c b + time_minus b a"
  by (simp add: time_minus_def algebra_simps)

section \<open>BatchInfo\<close>

text \<open>
  \<open>time_left_\<close> holds an unsigned 32-bit product converted to \<open>double\<close>. The constructor sets neither
  it nor \<open>cur_recv_time_\<close>: both are parameters.
\<close>

record batch_info =
  bi_batch_id :: u32
  bi_highest_decoded_seq :: u32
  bi_decoding_done :: bool
  cur_recv_time :: time
  time_left :: u32

definition BatchInfo :: "time \<Rightarrow> u32 \<Rightarrow> batch_info" where
  "BatchInfo junk_time junk_left =
     \<lparr>bi_batch_id = 0, bi_highest_decoded_seq = 0, bi_decoding_done = False,
      cur_recv_time = junk_time, time_left = junk_left\<rparr>"

definition UpdateTimeLeft :: "time \<Rightarrow> int \<Rightarrow> int \<Rightarrow> u32 \<Rightarrow> batch_info \<Rightarrow> batch_info outcome" where
  "UpdateTimeLeft now ind n pkt_duration bi =
     (if \<not> (ind \<ge> 0 \<and> ind < n \<and> n > 0) then abort Assert_Failed
      else ok (bi\<lparr>time_left := pkt_duration * word_of_int (n - ind - 1), cur_recv_time := now\<rparr>))"

definition SetBatchInfo ::
  "time \<Rightarrow> u32 \<Rightarrow> u32 \<Rightarrow> bool \<Rightarrow> int \<Rightarrow> int \<Rightarrow> u32 \<Rightarrow> batch_info \<Rightarrow> batch_info outcome" where
  "SetBatchInfo now batch_id seq decoding_done ind n pkt_duration bi =
     UpdateTimeLeft now ind n pkt_duration
       (bi\<lparr>bi_batch_id := batch_id, bi_highest_decoded_seq := seq, bi_decoding_done := decoding_done\<rparr>)"

text \<open>\<open>kExtraWaitTime\<close> is 0 in the code, whatever the comment beside it says.\<close>

definition IsTimeOut :: "time \<Rightarrow> batch_info \<Rightarrow> bool" where
  "IsTimeOut now bi \<longleftrightarrow> time_minus now (cur_recv_time bi) > uint (time_left bi) + 0"

definition decoding_done :: "time \<Rightarrow> batch_info \<Rightarrow> bool \<times> batch_info" where
  "decoding_done now bi =
     (let bi = (if \<not> bi_decoding_done bi then bi\<lparr>bi_decoding_done := IsTimeOut now bi\<rparr> else bi)
      in (bi_decoding_done bi, bi))"

definition GetBatchInfo :: "time \<Rightarrow> batch_info \<Rightarrow> (u32 \<times> bool) \<times> batch_info" where
  "GetBatchInfo now bi = (let (d, bi') = decoding_done now bi in ((bi_highest_decoded_seq bi, d), bi'))"

definition set_decoding_done :: "bool \<Rightarrow> batch_info \<Rightarrow> batch_info" where
  "set_decoding_done d bi = bi\<lparr>bi_decoding_done := d\<rparr>"

definition GetBatchID :: "batch_info \<Rightarrow> u32" where
  "GetBatchID bi = bi_batch_id bi"

section \<open>Deadline\<close>

lemma len32: "LENGTH(32) = 32"
  by simp

text \<open>The product does not wrap for real durations: 65 ms a packet and 255 packets stay below \<open>2\<^sup>3\<^sup>2\<close>.\<close>

lemma time_left_no_wrap:
  fixes pkt_duration :: u32
  assumes "0 \<le> ind" "ind < n" "uint pkt_duration * (n - ind - 1) < 2 ^ 32"
  shows "uint (pkt_duration * word_of_int (n - ind - 1)) = uint pkt_duration * (n - ind - 1)"
proof -
  have "uint (pkt_duration * word_of_int (n - ind - 1)) = uint pkt_duration * (n - ind - 1) mod 2 ^ 32"
    by (simp only: uint_word_ariths(3) uint_word_of_int mod_mult_right_eq len32)
  moreover have "0 \<le> uint pkt_duration * (n - ind - 1)" using assms by simp
  ultimately show ?thesis using assms(3) by (simp only: mod_pos_pos_trivial)
qed

lemma SetBatchInfo_then_Get:
  assumes ind: "0 \<le> ind" "ind < n" and dur: "uint dur * (n - ind - 1) < 2 ^ 32"
    and set: "SetBatchInfo t bid seq False ind n dur bi = ok bi'"
  shows "fst (GetBatchInfo now bi') = (seq, time_minus now t > uint dur * (n - ind - 1)) \<and> GetBatchID bi' = bid"
proof -
  have "bi' = bi\<lparr>bi_batch_id := bid, bi_highest_decoded_seq := seq, bi_decoding_done := False,
      time_left := dur * word_of_int (n - ind - 1), cur_recv_time := t\<rparr>"
    using set ind by (simp add: SetBatchInfo_def UpdateTimeLeft_def)
  then show ?thesis
    using time_left_no_wrap [OF ind dur]
    by (simp add: GetBatchInfo_def decoding_done_def IsTimeOut_def GetBatchID_def split: prod.splits)
qed

lemma decoding_done_stays:
  "bi_decoding_done bi \<Longrightarrow> bi_decoding_done (snd (GetBatchInfo now bi)) \<and> snd (fst (GetBatchInfo now bi))"
  by (simp add: GetBatchInfo_def decoding_done_def)

end
