(* ===== verification/Basic_Buf.thy ===== *)
theory Basic_Buf
  imports Headers Batch_Info
begin

text \<open>
  Class \<open>BasicBuf\<close> of \<open>src/wspace_asym_util.h\<close> and \<open>src/wspace_asym_util.cc\<close>, the ring buffer
  under the send and receive buffers, and \<open>TxSendBuf\<close>. \<open>head_pt_\<close> and \<open>tail_pt_\<close> only grow; the
  slot of a position is its remainder modulo \<open>BUF_SIZE\<close>. The queue lock and the element locks do
  not appear here: an operation that runs under a lock is one step. A call that has to wait returns
  \<open>None\<close>. The locks, and the member \<open>owner\<close> of a slot, which is written beside its lock and never
  read, are in \<open>Rx_Locks\<close>.
\<close>

section \<open>State\<close>

definition BUF_SIZE :: nat where "BUF_SIZE = 5000"

datatype status = kEmpty | kOccupiedNew | kBlock | kDrop | kRead

record book_keeping =
  bk_seq_num :: u32
  bk_status :: status
  bk_len :: u16
  num_retrans :: u8
  timestamp :: time

record basic_buf =
  head_pt :: u32
  tail_pt :: u32
  book_keep_arr :: "nat \<Rightarrow> book_keeping"
  pkt_buf :: "nat \<Rightarrow> u8 list"

text \<open>The constructor; the slots at positions from \<open>BUF_SIZE\<close> on do not exist.\<close>

definition empty_book :: "time \<Rightarrow> book_keeping" where
  "empty_book now = \<lparr>bk_seq_num = 0, bk_status = kEmpty, bk_len = 0, num_retrans = 0, timestamp = now\<rparr>"

definition BasicBuf :: "time \<Rightarrow> basic_buf" where
  "BasicBuf now = \<lparr>head_pt = 0, tail_pt = 0, book_keep_arr = (\<lambda>_. empty_book now),
     pkt_buf = (\<lambda>_. replicate PKT_SIZE 0)\<rparr>"

section \<open>Positions\<close>

definition IsFull :: "'a basic_buf_scheme \<Rightarrow> bool" where
  "IsFull b \<longleftrightarrow> head_pt b + word_of_nat BUF_SIZE = tail_pt b"

definition IsEmpty :: "'a basic_buf_scheme \<Rightarrow> bool" where
  "IsEmpty b \<longleftrightarrow> tail_pt b = head_pt b"

definition head_pt_mod :: "'a basic_buf_scheme \<Rightarrow> nat" where
  "head_pt_mod b = unat (head_pt b) mod BUF_SIZE"

definition tail_pt_mod :: "'a basic_buf_scheme \<Rightarrow> nat" where
  "tail_pt_mod b = unat (tail_pt b) mod BUF_SIZE"

definition IncrementHeadPt :: "'a basic_buf_scheme \<Rightarrow> 'a basic_buf_scheme" where
  "IncrementHeadPt b = b\<lparr>head_pt := head_pt b + 1\<rparr>"

definition IncrementTailPt :: "'a basic_buf_scheme \<Rightarrow> 'a basic_buf_scheme" where
  "IncrementTailPt b = b\<lparr>tail_pt := tail_pt b + 1\<rparr>"

definition set_head_pt :: "u32 \<Rightarrow> 'a basic_buf_scheme \<Rightarrow> 'a basic_buf_scheme" where
  [simp]: "set_head_pt p b = b\<lparr>head_pt := p\<rparr>"

definition set_tail_pt :: "u32 \<Rightarrow> 'a basic_buf_scheme \<Rightarrow> 'a basic_buf_scheme" where
  [simp]: "set_tail_pt p b = b\<lparr>tail_pt := p\<rparr>"

text \<open>\<open>Seq2Ind\<close>: the slot of a sequence number.\<close>

definition Seq2Ind :: "u32 \<Rightarrow> nat" where
  "Seq2Ind seq = unat (seq - 1) mod BUF_SIZE"

section \<open>Slots\<close>

text \<open>Every access by index first checks it and ends the process through \<open>Perror\<close>.\<close>

definition check_index :: "nat \<Rightarrow> unit outcome" where
  "check_index index = (if index > BUF_SIZE - 1 then abort Perror_Exit else ok ())"

definition UpdateBookKeeping ::
  "nat \<Rightarrow> u32 \<Rightarrow> status \<Rightarrow> u16 \<Rightarrow> 'a basic_buf_scheme \<Rightarrow> 'a basic_buf_scheme outcome" where
  "UpdateBookKeeping index seq_num stat len b =
     and_then (check_index index) (\<lambda>_. ok (b\<lparr>book_keep_arr := (book_keep_arr b)
       (index := (book_keep_arr b index)\<lparr>bk_seq_num := seq_num, bk_status := stat, bk_len := len\<rparr>)\<rparr>))"

text \<open>The overloaded version; the timestamp is updated when \<open>stamp\<close> holds the current time.\<close>

definition UpdateBookKeeping_full ::
  "nat \<Rightarrow> u32 \<Rightarrow> status \<Rightarrow> u16 \<Rightarrow> u8 \<Rightarrow> time option \<Rightarrow> 'a basic_buf_scheme \<Rightarrow> 'a basic_buf_scheme outcome" where
  "UpdateBookKeeping_full index seq_num stat len retrans stamp b =
     and_then (check_index index) (\<lambda>_.
       let k = (book_keep_arr b index)\<lparr>bk_seq_num := seq_num, bk_status := stat, bk_len := len, num_retrans := retrans\<rparr>;
           k = (case stamp of None \<Rightarrow> k | Some now \<Rightarrow> k\<lparr>timestamp := now\<rparr>)
       in ok (b\<lparr>book_keep_arr := (book_keep_arr b)(index := k)\<rparr>))"

definition GetBookKeeping :: "nat \<Rightarrow> 'a basic_buf_scheme \<Rightarrow> book_keeping outcome" where
  "GetBookKeeping index b = and_then (check_index index) (\<lambda>_. ok (book_keep_arr b index))"

text \<open>The overloaded version without the last two members, and the members one by one.\<close>

definition GetBookKeeping_short :: "nat \<Rightarrow> 'a basic_buf_scheme \<Rightarrow> (u32 \<times> status \<times> u16) outcome" where
  "GetBookKeeping_short index b =
     and_then (check_index index) (\<lambda>_. let k = book_keep_arr b index in ok (bk_seq_num k, bk_status k, bk_len k))"

definition GetElementStatus :: "nat \<Rightarrow> 'a basic_buf_scheme \<Rightarrow> status outcome" where
  "GetElementStatus index b = and_then (check_index index) (\<lambda>_. ok (bk_status (book_keep_arr b index)))"

definition GetElementSeqNum :: "nat \<Rightarrow> 'a basic_buf_scheme \<Rightarrow> u32 outcome" where
  "GetElementSeqNum index b = and_then (check_index index) (\<lambda>_. ok (bk_seq_num (book_keep_arr b index)))"

definition GetElementLen :: "nat \<Rightarrow> 'a basic_buf_scheme \<Rightarrow> u16 outcome" where
  "GetElementLen index b = and_then (check_index index) (\<lambda>_. ok (bk_len (book_keep_arr b index)))"

definition GetElementNumRetrans :: "nat \<Rightarrow> 'a basic_buf_scheme \<Rightarrow> u8 outcome" where
  "GetElementNumRetrans index b = and_then (check_index index) (\<lambda>_. ok (num_retrans (book_keep_arr b index)))"

definition GetElementTimeStamp :: "nat \<Rightarrow> 'a basic_buf_scheme \<Rightarrow> time outcome" where
  "GetElementTimeStamp index b = and_then (check_index index) (\<lambda>_. ok (timestamp (book_keep_arr b index)))"

text \<open>\<open>memcpy\<close> into a slot of \<open>PKT_SIZE\<close> bytes: a longer copy leaves the slot.\<close>

definition StorePkt :: "nat \<Rightarrow> u16 \<Rightarrow> u8 list \<Rightarrow> 'a basic_buf_scheme \<Rightarrow> 'a basic_buf_scheme outcome" where
  "StorePkt index len pkt b =
     and_then (check_index index) (\<lambda>_.
       if unat len > PKT_SIZE \<or> unat len > length pkt then abort Out_Of_Bounds
       else ok (b\<lparr>pkt_buf := (pkt_buf b)(index := take (unat len) pkt @ drop (unat len) (pkt_buf b index))\<rparr>))"

definition GetPkt :: "nat \<Rightarrow> u16 \<Rightarrow> 'a basic_buf_scheme \<Rightarrow> u8 list outcome" where
  "GetPkt index len b =
     and_then (check_index index) (\<lambda>_.
       if unat len > PKT_SIZE then abort Out_Of_Bounds else ok (take (unat len) (pkt_buf b index)))"

section \<open>Acquiring a position\<close>

text \<open>The head is dequeued, the tail enqueued; the result is the slot whose lock the caller holds.\<close>

definition AcquireHeadLock :: "'a basic_buf_scheme \<Rightarrow> (nat \<times> 'a basic_buf_scheme) option" where
  "AcquireHeadLock b = (if IsEmpty b then None else Some (head_pt_mod b, IncrementHeadPt b))"

definition AcquireTailLock :: "'a basic_buf_scheme \<Rightarrow> (nat \<times> 'a basic_buf_scheme) option" where
  "AcquireTailLock b = (if IsFull b then None else Some (tail_pt_mod b, IncrementTailPt b))"

section \<open>TxSendBuf\<close>

record tx_send_buf = basic_buf +
  curr_pt :: u32

definition TxSendBuf :: "time \<Rightarrow> tx_send_buf" where
  "TxSendBuf now = basic_buf.extend (BasicBuf now) \<lparr>curr_pt = 0\<rparr>"

definition tx_IsEmpty :: "tx_send_buf \<Rightarrow> bool" where
  "tx_IsEmpty b \<longleftrightarrow> tail_pt b = curr_pt b"

definition curr_pt_mod :: "tx_send_buf \<Rightarrow> nat" where
  "curr_pt_mod b = unat (curr_pt b) mod BUF_SIZE"

definition set_curr_pt :: "u32 \<Rightarrow> tx_send_buf \<Rightarrow> tx_send_buf" where
  "set_curr_pt p b = b\<lparr>curr_pt := p\<rparr>"

definition IncrementCurrPt :: "tx_send_buf \<Rightarrow> tx_send_buf" where
  "IncrementCurrPt b = b\<lparr>curr_pt := curr_pt b + 1\<rparr>"

definition AcquireCurrLock :: "tx_send_buf \<Rightarrow> (nat \<times> tx_send_buf) option" where
  "AcquireCurrLock b = (if tx_IsEmpty b then None else Some (curr_pt_mod b, IncrementCurrPt b))"

section \<open>The ring\<close>

text \<open>The distance of the pointers, modulo the range of \<open>uint32\<close>.\<close>

definition fill :: "'a basic_buf_scheme \<Rightarrow> nat" where
  "fill b = unat (tail_pt b - head_pt b)"

definition ring_inv :: "'a basic_buf_scheme \<Rightarrow> bool" where
  "ring_inv b \<longleftrightarrow> fill b \<le> BUF_SIZE"

lemma unat_BUF_SIZE: "unat (word_of_nat BUF_SIZE :: u32) = BUF_SIZE"
  by (simp add: BUF_SIZE_def)

lemma IsFull_fill: "IsFull b \<longleftrightarrow> fill b = BUF_SIZE"
proof -
  have "IsFull b \<longleftrightarrow> tail_pt b - head_pt b = word_of_nat BUF_SIZE"
    by (auto simp: IsFull_def algebra_simps)
  then show ?thesis by (simp add: fill_def word_unat_eq_iff unat_BUF_SIZE)
qed

lemma IsEmpty_fill: "IsEmpty b \<longleftrightarrow> fill b = 0"
  by (auto simp: IsEmpty_def fill_def unat_eq_zero)

lemma mod_BUF_SIZE_less [simp]: "n mod BUF_SIZE < BUF_SIZE" "head_pt_mod b < BUF_SIZE" "Seq2Ind s < BUF_SIZE"
  by (simp_all add: BUF_SIZE_def head_pt_mod_def Seq2Ind_def)

lemma check_index_ok [simp]: "i < BUF_SIZE \<Longrightarrow> check_index i = ok ()"
  by (simp add: check_index_def BUF_SIZE_def)

text \<open>What was stored in a slot is read from it, by the whole and by its members, and other slots keep theirs.\<close>

lemma book_keeping_roundtrip:
  assumes "UpdateBookKeeping_full i seq st len n stamp b = ok b'"
  shows "GetBookKeeping_short i b' = ok (seq, st, len) \<and> GetElementNumRetrans i b' = ok n
    \<and> GetElementTimeStamp i b' = ok (case stamp of None \<Rightarrow> timestamp (book_keep_arr b i) | Some now \<Rightarrow> now)
    \<and> (\<forall>j. j \<noteq> i \<longrightarrow> GetBookKeeping j b' = GetBookKeeping j b)"
  using assms
  by (auto simp: UpdateBookKeeping_full_def GetBookKeeping_short_def GetBookKeeping_def GetElementNumRetrans_def
      GetElementTimeStamp_def check_index_def Let_def split: option.splits if_splits)

lemma GetBookKeeping_members:
  "GetBookKeeping_short i b = ok (seq, st, len) \<longleftrightarrow>
     GetElementSeqNum i b = ok seq \<and> GetElementStatus i b = ok st \<and> GetElementLen i b = ok len"
  by (auto simp: GetBookKeeping_short_def GetElementSeqNum_def GetElementStatus_def GetElementLen_def check_index_def Let_def
      split: if_splits)

text \<open>\<open>memcpy\<close> both ways.\<close>

lemma StorePkt_GetPkt:
  "StorePkt i len pkt b = ok b' \<Longrightarrow> GetPkt i len b' = ok (take (unat len) pkt)"
  by (auto simp: StorePkt_def GetPkt_def check_index_def split: if_splits)

text \<open>Within a window of the modulus, the remainder determines the position.\<close>

lemma mod_window_unique:
  assumes "a mod n = b mod n" "h \<le> a" "a < h + n" "h \<le> b" "b < h + (n :: nat)"
  shows "a = b"
proof -
  have *: "x = y" if "x mod n = y mod n" "x \<le> y" "y < x + n" for x y
  proof -
    have "n dvd y - x" using mod_eq_dvd_iff_nat [of x y n] that(1,2) by simp
    then have "y - x = 0" using that(3) dvd_imp_le [of n "y - x"] that(2) by (cases "y - x = 0") auto
    then show ?thesis using that(2) by simp
  qed
  show ?thesis
  proof (cases "a \<le> b")
    case True
    then show ?thesis using * [of a b] assms by simp
  next
    case False
    then show ?thesis using * [of b a] assms by simp
  qed
qed

end
