(* ===== verification/Rx_Data_Buf.thy ===== *)
theory Rx_Data_Buf
  imports Basic_Buf
begin

text \<open>
  Class \<open>RxDataBuf\<close> of \<open>src/wspace_asym_util.h\<close> and \<open>src/wspace_asym_util.cc\<close>: the ring in which
  the receiving threads put decoded packets at the slots of their sequence numbers
  (\<open>EnqueuePkt\<close>), from which the writing thread takes them in order (\<open>DequeuePkt\<close>), and which the
  acknowledging thread searches for holes (\<open>FindNackSeqNum\<close>). The definitions give the program's
  atomic segments: a call runs from one wait on a condition variable to the next.
\<close>

section \<open>State\<close>

record rx_data_buf = basic_buf +
  highest_decoded_seq :: u32

definition RxDataBuf :: "time \<Rightarrow> rx_data_buf" where
  "RxDataBuf now = basic_buf.extend (BasicBuf now) \<lparr>highest_decoded_seq = 0\<rparr>"

definition set_highest_decoded_seq :: "u32 \<Rightarrow> rx_data_buf \<Rightarrow> rx_data_buf" where
  "set_highest_decoded_seq seq b = b\<lparr>highest_decoded_seq := seq\<rparr>"

abbreviation slot :: "'a basic_buf_scheme \<Rightarrow> nat \<Rightarrow> book_keeping" where
  "slot b i \<equiv> book_keep_arr b i"

definition set_slot :: "nat \<Rightarrow> (book_keeping \<Rightarrow> book_keeping) \<Rightarrow> 'a basic_buf_scheme \<Rightarrow> 'a basic_buf_scheme" where
  "set_slot i f b = b\<lparr>book_keep_arr := (book_keep_arr b)(i := f (slot b i))\<rparr>"

text \<open>\<open>UpdateBookKeeping(i, 0, kEmpty, 0, 0, false)\<close> for an index in range.\<close>

definition clear_slot :: "nat \<Rightarrow> 'a basic_buf_scheme \<Rightarrow> 'a basic_buf_scheme" where
  "clear_slot i b = set_slot i (\<lambda>k. k\<lparr>bk_seq_num := 0, bk_status := kEmpty, bk_len := 0, num_retrans := 0\<rparr>) b"

lemma clear_slot_update: "i < BUF_SIZE \<Longrightarrow> UpdateBookKeeping_full i 0 kEmpty 0 0 None b = ok (clear_slot i b)"
  by (simp add: UpdateBookKeeping_full_def clear_slot_def set_slot_def)

text \<open>\<open>AcquireHeadLock\<close>, redefined: the slot and the position, without moving the head.\<close>

definition rx_AcquireHeadLock :: "rx_data_buf \<Rightarrow> (nat \<times> u32) option" where
  "rx_AcquireHeadLock b = (if IsEmpty b then None else Some (head_pt_mod b, head_pt b))"

section \<open>EnqueuePkt\<close>

text \<open>The pass through \<open>while (IsFull())\<close>: a blocked head slot is given up, then the call waits.\<close>

definition give_up_head :: "rx_data_buf \<Rightarrow> rx_data_buf" where
  "give_up_head b =
     (if bk_status (slot b (head_pt_mod b)) = kBlock
      then set_slot (head_pt_mod b) (\<lambda>k. k\<lparr>bk_status := kDrop\<rparr>) b else b)"

text \<open>Storing a packet in its slot, unless the slot holds a packet that was not delivered yet.\<close>

definition store_in_slot :: "u32 \<Rightarrow> u16 \<Rightarrow> u8 list \<Rightarrow> rx_data_buf \<Rightarrow> rx_data_buf outcome" where
  "store_in_slot seq_num len pkt b =
     (let index = Seq2Ind seq_num in
      if bk_status (slot b index) \<noteq> kOccupiedNew
      then and_then (StorePkt index len pkt b) (UpdateBookKeeping index seq_num kOccupiedNew len)
      else ok b)"

text \<open>The wrap-around: the window restarts at the packet and every other slot is cleared.\<close>

definition restart_window :: "u32 \<Rightarrow> rx_data_buf \<Rightarrow> rx_data_buf" where
  "restart_window seq_num b =
     (let b = set_tail_pt seq_num (set_head_pt (seq_num - 1) b)
      in for_range 0 BUF_SIZE (\<lambda>i b. if i \<noteq> Seq2Ind seq_num then clear_slot i b else b) b)"

text \<open>A later packet moves the tail; slots of delivered packets in between are cleared.\<close>

definition clear_if_read :: "nat \<Rightarrow> rx_data_buf \<Rightarrow> rx_data_buf" where
  "clear_if_read index b =
     (let index_mod = index mod BUF_SIZE in
      if bk_status (slot b index_mod) = kRead then clear_slot index_mod b else b)"

definition advance_tail :: "u32 \<Rightarrow> rx_data_buf \<Rightarrow> rx_data_buf" where
  "advance_tail seq_num b =
     (let b = for_range (unat (tail_pt b)) (unat seq_num) clear_if_read b in set_tail_pt seq_num b)"

text \<open>
  The rest of \<open>EnqueuePkt\<close>. The repeated test \<open>seq_num <= head_pt\<close> under the element lock compares
  the same values as before and never holds.
\<close>

definition enqueue :: "u32 \<Rightarrow> u16 \<Rightarrow> u8 list \<Rightarrow> rx_data_buf \<Rightarrow> rx_data_buf outcome" where
  "enqueue seq_num len pkt b =
     (let is_wrap = (seq_num > head_pt b \<and> seq_num > head_pt b + word_of_nat BUF_SIZE) in
      and_then (if seq_num > head_pt b then store_in_slot seq_num len pkt b else ok b) (\<lambda>b.
        if is_wrap then ok (restart_window seq_num b)
        else if seq_num > tail_pt b then ok (advance_tail seq_num b)
        else ok b))"

text \<open>\<open>True\<close>: the call returned; \<open>False\<close>: it waits for space and then starts again.\<close>

definition EnqueuePkt :: "u32 \<Rightarrow> u16 \<Rightarrow> u8 list \<Rightarrow> rx_data_buf \<Rightarrow> (bool \<times> rx_data_buf) outcome" where
  "EnqueuePkt seq_num len pkt b =
     (if IsFull b then ok (False, give_up_head b)
      else and_then (enqueue seq_num len pkt b) (\<lambda>b. ok (True, b)))"

section \<open>DequeuePkt\<close>

text \<open>How a segment of \<open>DequeuePkt\<close> ends: waiting for the queue to fill, waiting on a slot, or
  returning with a packet or with a packet given up.\<close>

datatype dequeued = Wait_Fill | Wait_Slot nat | Got_Pkt "u8 list" u16 | Gave_Up

definition deq_slot :: "time \<Rightarrow> nat \<Rightarrow> rx_data_buf \<Rightarrow> (dequeued \<times> rx_data_buf) outcome" where
  "deq_slot now index b =
     (case bk_status (slot b index) of
        kEmpty \<Rightarrow> ok (Wait_Slot index, set_slot index (\<lambda>k. k\<lparr>bk_status := kBlock, timestamp := now\<rparr>) b)
      | kBlock \<Rightarrow> ok (Wait_Slot index, b)
      | kOccupiedNew \<Rightarrow>
          and_then (GetPkt index (bk_len (slot b index)) b) (\<lambda>pkt.
            ok (Got_Pkt pkt (bk_len (slot b index)),
                IncrementHeadPt (set_slot index (\<lambda>k. k\<lparr>bk_status := kRead\<rparr>) b)))
      | kRead \<Rightarrow> ok (Gave_Up, IncrementHeadPt (clear_slot index b))
      | kDrop \<Rightarrow> ok (Gave_Up, IncrementHeadPt (clear_slot index b)))"

definition DequeuePkt :: "time \<Rightarrow> rx_data_buf \<Rightarrow> (dequeued \<times> rx_data_buf) outcome" where
  "DequeuePkt now b = (if IsEmpty b then ok (Wait_Fill, b) else deq_slot now (head_pt_mod b) b)"

text \<open>The segment after a wait on slot \<open>index\<close>: the head's slot is looked up again unless the slot
  holds the packet the head waits for.\<close>

definition DequeuePkt_wake :: "time \<Rightarrow> nat \<Rightarrow> rx_data_buf \<Rightarrow> (dequeued \<times> rx_data_buf) outcome" where
  "DequeuePkt_wake now index b =
     deq_slot now (if bk_seq_num (slot b index) \<noteq> head_pt b + 1 then head_pt_mod b else index) b"

section \<open>FindNackSeqNum\<close>

text \<open>The call first waits when no new batch was announced and the queue is empty.\<close>

definition FindNack_waits :: "batch_info \<Rightarrow> u32 \<Rightarrow> rx_data_buf \<Rightarrow> bool" where
  "FindNack_waits bi batch_id_prev b \<longleftrightarrow> GetBatchID bi \<le> batch_id_prev \<and> IsEmpty b"

text \<open>What is to be acknowledged: nothing but \<open>end_seq\<close>, or the positions up to \<open>end_pt\<close>.\<close>

datatype nack_plan = Only_End u32 | Scan_To u32 u32

definition nack_range :: "u32 \<Rightarrow> u32 \<Rightarrow> u32 \<Rightarrow> bool \<Rightarrow> nack_plan" where
  "nack_range head tail highest done =
     (if \<not> done then
        if highest = 0 then Only_End highest
        else if highest < tail then
          (if head > highest - 1 then Only_End highest else Scan_To (highest - 1) highest)
        else Scan_To (tail - 1) highest
      else Scan_To (tail - 1) (if highest > tail then highest else tail))"

text \<open>One position of the search.\<close>

definition scan_slot :: "int \<Rightarrow> time \<Rightarrow> nat \<Rightarrow> u32 list \<times> rx_data_buf \<Rightarrow> u32 list \<times> rx_data_buf" where
  "scan_slot block_time now index s =
     (let (nacks, b) = s; index_mod = index mod BUF_SIZE; k = slot b index_mod; seq = word_of_nat (index + 1)
      in if bk_status k = kEmpty \<or> bk_status k = kBlock
         then if bk_status k = kBlock \<and> time_minus now (timestamp k) > block_time * 1000
              then (nacks, set_slot index_mod (\<lambda>k. k\<lparr>bk_status := kDrop, bk_seq_num := seq\<rparr>) b)
              else (nacks @ [seq], b)
         else (nacks, b))"

definition drop_nack :: "u32 \<Rightarrow> rx_data_buf \<Rightarrow> rx_data_buf" where
  "drop_nack seq b = set_slot (Seq2Ind seq) (\<lambda>k. k\<lparr>bk_status := kDrop, bk_seq_num := seq\<rparr>) b"

text \<open>The holes behind the tail, up to \<open>end_seq\<close>, which stays below the largest \<open>uint32\<close>.\<close>

definition nacks_behind :: "u32 \<Rightarrow> u32 \<Rightarrow> u32 list" where
  "nacks_behind tail end_seq = map word_of_nat [unat (tail + 1)..<unat end_seq + 1]"

definition find_nacks ::
  "int \<Rightarrow> nat \<Rightarrow> time \<Rightarrow> nack_plan \<Rightarrow> u32 \<Rightarrow> u32 \<Rightarrow> rx_data_buf \<Rightarrow> ((u32 list \<times> u32) \<times> rx_data_buf) outcome" where
  "find_nacks block_time max_num_nacks now plan head tail b =
     (case plan of
        Only_End end_seq \<Rightarrow> ok (([], end_seq), b)
      | Scan_To end_pt end_seq \<Rightarrow>
          if \<not> end_pt < tail then abort Assert_Failed
          else
            let (nacks, b) = for_range (unat head) (unat end_pt + 1) (scan_slot block_time now) ([], b);
                nacks = nacks @ nacks_behind tail end_seq
            in if length nacks \<ge> max_num_nacks
               then ok (([], end_seq), fold drop_nack nacks b)
               else ok ((nacks, end_seq), b))"

text \<open>
  How a segment of \<open>FindNackSeqNum\<close> ends: waiting for the queue to fill, or returning the numbers to
  report and \<open>end_seq\<close>.
\<close>

datatype nack_report = Nack_Wait | Nacks "u32 list" u32

text \<open>
  From the snapshot of the pointers on, as after the wait: the static variable \<open>batch_id_prev\<close> and the
  batch information are passed through, \<open>now\<close> is the time \<open>GetBatchInfo\<close> reads and \<open>end_time\<close> the local
  variable \<open>end\<close>.
\<close>

definition FindNackSeqNum_wake ::
  "int \<Rightarrow> nat \<Rightarrow> time \<Rightarrow> time \<Rightarrow> batch_info \<Rightarrow> u32 \<Rightarrow> rx_data_buf
     \<Rightarrow> (nack_report \<times> batch_info \<times> u32 \<times> rx_data_buf) outcome" where
  "FindNackSeqNum_wake block_time max_num_nacks now end_time bi batch_id_prev b =
     (let head = head_pt b; tail = tail_pt b;
          ((highest, done), bi) = GetBatchInfo now bi;
          plan = nack_range head tail highest done;
          prev = (if done \<and> GetBatchID bi > batch_id_prev then GetBatchID bi else batch_id_prev)
      in and_then (find_nacks block_time max_num_nacks end_time plan head tail b) (\<lambda>((nacks, end_seq), b).
           ok (Nacks nacks end_seq, bi, prev, b)))"

definition FindNackSeqNum ::
  "int \<Rightarrow> nat \<Rightarrow> time \<Rightarrow> time \<Rightarrow> batch_info \<Rightarrow> u32 \<Rightarrow> rx_data_buf
     \<Rightarrow> (nack_report \<times> batch_info \<times> u32 \<times> rx_data_buf) outcome" where
  "FindNackSeqNum block_time max_num_nacks now end_time bi batch_id_prev b =
     (if FindNack_waits bi batch_id_prev b then ok (Nack_Wait, bi, batch_id_prev, b)
      else FindNackSeqNum_wake block_time max_num_nacks now end_time bi batch_id_prev b)"

section \<open>Slots that only lose packets\<close>

text \<open>\<open>b'\<close> is \<open>b\<close> with some slots marked or cleared: no slot holds a new packet.\<close>

definition loses :: "rx_data_buf \<Rightarrow> rx_data_buf \<Rightarrow> bool" where
  "loses b b' \<longleftrightarrow> head_pt b' = head_pt b \<and> tail_pt b' = tail_pt b \<and> pkt_buf b' = pkt_buf b
     \<and> (\<forall>i. bk_status (slot b' i) = kOccupiedNew \<longrightarrow> slot b' i = slot b i)"

lemma loses_refl [simp]: "loses b b"
  by (simp add: loses_def)

lemma loses_trans: "loses a b \<Longrightarrow> loses b c \<Longrightarrow> loses a c"
  by (simp add: loses_def)

lemma loses_tail: "loses a b \<Longrightarrow> loses (a\<lparr>tail_pt := t\<rparr>) (b\<lparr>tail_pt := t\<rparr>)"
  by (simp add: loses_def)

lemma loses_set_slot: "bk_status (f (slot b i)) \<noteq> kOccupiedNew \<Longrightarrow> loses b (set_slot i f b)"
  by (simp add: loses_def set_slot_def)

lemma loses_fold: "(\<And>x b. loses b (f x b)) \<Longrightarrow> loses b (fold f xs b)"
  by (induction xs arbitrary: b) (auto intro: loses_trans)

lemma loses_steps [simp]:
  "loses b (clear_slot i b)" "loses b (give_up_head b)" "loses b (clear_if_read i b)" "loses b (drop_nack s b)"
  by (auto simp: clear_slot_def give_up_head_def clear_if_read_def drop_nack_def Let_def intro: loses_set_slot)

lemma loses_scan: "loses (snd s) (snd (scan_slot bt now i s))"
  by (cases s) (auto simp: scan_slot_def Let_def intro: loses_set_slot)

lemma loses_scan_range: "loses b (snd (fold (scan_slot bt now) xs (ns, b)))"
proof (induction xs arbitrary: ns b)
  case (Cons x xs)
  obtain ns' b' where s: "scan_slot bt now x (ns, b) = (ns', b')" by fastforce
  then have "loses b b'" using loses_scan [of "(ns, b)" bt now x] by simp
  then show ?case using s Cons.IH [where ns = ns' and b = b'] by (auto intro: loses_trans)
qed simp

lemma find_nacks_loses:
  assumes "find_nacks bt mx now plan h t b = ok (r, b')"
  shows "loses b b'"
proof (cases plan)
  case (Only_End e)
  then show ?thesis using assms by (simp add: find_nacks_def)
next
  case (Scan_To p e)
  obtain ns b1 where f: "for_range (unat h) (unat p + 1) (scan_slot bt now) ([], b) = (ns, b1)" by fastforce
  have "loses b b1" using loses_scan_range [of b bt now "[unat h..<unat p + 1]" "[]"] f by simp
  moreover from this have "loses b (fold drop_nack xs b1)" for xs
    by (rule loses_trans) (rule loses_fold, simp)
  ultimately show ?thesis
    using assms Scan_To f by (auto simp: find_nacks_def Let_def simp del: fold_append upt_Suc split: if_splits)
qed

section \<open>The invariant\<close>

text \<open>
  \<open>sent\<close> is the payload of every sequence number. The window is at most \<open>BUF_SIZE\<close> long, and a
  slot that holds an undelivered packet holds the one of a number of the window that belongs to it
  (\<open>rx_inv\<close>). After a restart over an undelivered packet the head's slot may hold an older one
  (\<open>slot_stale\<close>); \<open>rx_ok\<close> admits it when \<open>stale\<close> is true.
\<close>

definition slot_holds :: "(u32 \<Rightarrow> u8 list) \<Rightarrow> rx_data_buf \<Rightarrow> nat \<Rightarrow> bool" where
  "slot_holds sent b i \<longleftrightarrow> Seq2Ind (bk_seq_num (slot b i)) = i
     \<and> head_pt b < bk_seq_num (slot b i) \<and> bk_seq_num (slot b i) \<le> tail_pt b
     \<and> unat (bk_len (slot b i)) \<le> PKT_SIZE
     \<and> take (unat (bk_len (slot b i))) (pkt_buf b i) = sent (bk_seq_num (slot b i))"

definition rx_inv :: "(u32 \<Rightarrow> u8 list) \<Rightarrow> rx_data_buf \<Rightarrow> bool" where
  "rx_inv sent b \<longleftrightarrow> unat (head_pt b) \<le> unat (tail_pt b) \<and> unat (tail_pt b) \<le> unat (head_pt b) + BUF_SIZE
     \<and> (\<forall>i<BUF_SIZE. length (pkt_buf b i) = PKT_SIZE
          \<and> (bk_status (slot b i) = kOccupiedNew \<longrightarrow> slot_holds sent b i))"

definition slot_stale :: "(u32 \<Rightarrow> u8 list) \<Rightarrow> rx_data_buf \<Rightarrow> nat \<Rightarrow> bool" where
  "slot_stale sent b i \<longleftrightarrow> i = head_pt_mod b \<and> head_pt b < tail_pt b
     \<and> Seq2Ind (bk_seq_num (slot b i)) = i \<and> bk_seq_num (slot b i) \<le> head_pt b
     \<and> unat (bk_len (slot b i)) \<le> PKT_SIZE
     \<and> take (unat (bk_len (slot b i))) (pkt_buf b i) = sent (bk_seq_num (slot b i))"

definition rx_ok :: "bool \<Rightarrow> (u32 \<Rightarrow> u8 list) \<Rightarrow> rx_data_buf \<Rightarrow> bool" where
  "rx_ok stale sent b \<longleftrightarrow> unat (head_pt b) \<le> unat (tail_pt b) \<and> unat (tail_pt b) \<le> unat (head_pt b) + BUF_SIZE
     \<and> (\<forall>i<BUF_SIZE. length (pkt_buf b i) = PKT_SIZE
          \<and> (bk_status (slot b i) = kOccupiedNew \<longrightarrow> slot_holds sent b i \<or> stale \<and> slot_stale sent b i))"

lemma rx_ok_False: "rx_ok False = rx_inv"
  by (intro ext) (simp add: rx_ok_def rx_inv_def)

lemma rx_ok_mono: "rx_inv sent b \<Longrightarrow> rx_ok stale sent b"
  by (auto simp: rx_ok_def rx_inv_def)

lemma RxDataBuf_ok: "rx_ok stale sent (RxDataBuf now)"
  by (simp add: rx_ok_def RxDataBuf_def BasicBuf_def basic_buf.defs empty_book_def)

lemmas RxDataBuf_inv = RxDataBuf_ok [where stale = False, unfolded rx_ok_False]

lemma rx_ok_loses: "rx_ok stale sent b \<Longrightarrow> loses b b' \<Longrightarrow> rx_ok stale sent b'"
  by (auto simp: rx_ok_def loses_def slot_holds_def slot_stale_def head_pt_mod_def)

lemmas rx_inv_loses = rx_ok_loses [where stale = False, unfolded rx_ok_False]

lemma ok_head_before_tail: "rx_ok stale sent b \<Longrightarrow> head_pt b \<noteq> tail_pt b \<Longrightarrow> unat (head_pt b) < unat (tail_pt b)"
  using word_unat_eq_iff [of "head_pt b" "tail_pt b"] by (simp add: rx_ok_def)

lemmas head_before_tail = ok_head_before_tail [where stale = False, unfolded rx_ok_False]

lemma Seq2Ind_nat: "s \<noteq> 0 \<Longrightarrow> Seq2Ind s = (unat s - 1) mod BUF_SIZE"
proof -
  assume "s \<noteq> 0"
  then have "1 \<le> s" by (simp add: word_le_nat_alt unat_gt_0 Suc_le_eq)
  then have "unat (s - 1) = unat s - 1" by (simp add: unat_sub)
  then show ?thesis by (simp add: Seq2Ind_def)
qed

lemma Seq2Ind_head: "Seq2Ind (head_pt b + 1) = head_pt_mod b"
  by (simp add: Seq2Ind_def head_pt_mod_def)

lemma Seq2Ind_window:
  assumes "Seq2Ind s = Seq2Ind t" "h < s" "h < t" "unat s \<le> unat h + BUF_SIZE" "unat t \<le> unat h + BUF_SIZE"
  shows "s = t"
proof -
  have lt: "unat h < unat s" "unat h < unat t" using assms by (simp_all add: word_less_nat_alt)
  then have nz: "s \<noteq> 0" "t \<noteq> 0" by auto
  have "(unat s - 1) mod BUF_SIZE = (unat t - 1) mod BUF_SIZE"
    using assms(1) unfolding Seq2Ind_nat [OF nz(1)] Seq2Ind_nat [OF nz(2)] .
  moreover have "unat h \<le> unat s - 1" "unat s - 1 < unat h + BUF_SIZE" "unat h \<le> unat t - 1" "unat t - 1 < unat h + BUF_SIZE"
    using lt assms(4,5) by linarith+
  ultimately have "unat s - 1 = unat t - 1" by (rule mod_window_unique)
  then have "unat s = unat t" using lt by linarith
  then show ?thesis by (simp add: word_unat_eq_iff)
qed

section \<open>Enqueueing\<close>

text \<open>The buffer holds packet \<open>s\<close>, not delivered yet.\<close>

definition holds :: "rx_data_buf \<Rightarrow> u32 \<Rightarrow> bool" where
  "holds b s \<longleftrightarrow> bk_status (slot b (Seq2Ind s)) = kOccupiedNew \<and> bk_seq_num (slot b (Seq2Ind s)) = s"

definition stored :: "u32 \<Rightarrow> u16 \<Rightarrow> u8 list \<Rightarrow> rx_data_buf \<Rightarrow> rx_data_buf" where
  "stored seq len pkt b =
     set_slot (Seq2Ind seq) (\<lambda>k. k\<lparr>bk_seq_num := seq, bk_status := kOccupiedNew, bk_len := len\<rparr>)
       (b\<lparr>pkt_buf := (pkt_buf b)(Seq2Ind seq := take (unat len) pkt @ drop (unat len) (pkt_buf b (Seq2Ind seq)))\<rparr>)"

lemma store_in_slot_eq:
  assumes "unat len \<le> PKT_SIZE" "unat len \<le> length pkt"
  shows "store_in_slot seq len pkt b =
    ok (if bk_status (slot b (Seq2Ind seq)) = kOccupiedNew then b else stored seq len pkt b)"
  using assms by (simp add: store_in_slot_def StorePkt_def UpdateBookKeeping_def stored_def set_slot_def Let_def not_less)

lemma stored_fields:
  "head_pt (stored seq len pkt b) = head_pt b" "tail_pt (stored seq len pkt b) = tail_pt b"
  "i \<noteq> Seq2Ind seq \<Longrightarrow> slot (stored seq len pkt b) i = slot b i"
  "i \<noteq> Seq2Ind seq \<Longrightarrow> pkt_buf (stored seq len pkt b) i = pkt_buf b i"
  "bk_status (slot (stored seq len pkt b) (Seq2Ind seq)) = kOccupiedNew"
  "bk_seq_num (slot (stored seq len pkt b) (Seq2Ind seq)) = seq"
  "bk_len (slot (stored seq len pkt b) (Seq2Ind seq)) = len"
  "pkt_buf (stored seq len pkt b) (Seq2Ind seq) = take (unat len) pkt @ drop (unat len) (pkt_buf b (Seq2Ind seq))"
  by (simp_all add: stored_def set_slot_def)

lemma restart_window_fields:
  fixes seq :: u32 and b :: rx_data_buf
  defines "r \<equiv> restart_window seq b"
  shows "head_pt r = seq - 1" "tail_pt r = seq" "pkt_buf r = pkt_buf b" "slot r (Seq2Ind seq) = slot b (Seq2Ind seq)"
    "i < BUF_SIZE \<Longrightarrow> i \<noteq> Seq2Ind seq \<Longrightarrow> bk_status (slot r i) = kEmpty"
proof -
  let ?P = "\<lambda>n r. head_pt r = seq - 1 \<and> tail_pt r = seq \<and> pkt_buf r = pkt_buf b
    \<and> slot r (Seq2Ind seq) = slot b (Seq2Ind seq) \<and> (\<forall>i<n. i \<noteq> Seq2Ind seq \<longrightarrow> bk_status (slot r i) = kEmpty)"
  have "?P BUF_SIZE r"
    unfolding r_def restart_window_def Let_def
  proof (rule for_range_invariant [where P = ?P])
    fix n and r :: rx_data_buf
    assume "?P n r"
    then show "?P (Suc n) (if n \<noteq> Seq2Ind seq then clear_slot n r else r)"
      by (auto simp: clear_slot_def set_slot_def less_Suc_eq)
  qed simp_all
  then show "head_pt r = seq - 1" "tail_pt r = seq" "pkt_buf r = pkt_buf b" "slot r (Seq2Ind seq) = slot b (Seq2Ind seq)"
    "i < BUF_SIZE \<Longrightarrow> i \<noteq> Seq2Ind seq \<Longrightarrow> bk_status (slot r i) = kEmpty" by simp_all
qed

definition keeps :: "rx_data_buf \<Rightarrow> rx_data_buf \<Rightarrow> bool" where
  "keeps b b' \<longleftrightarrow> loses b b' \<and> (\<forall>i. bk_status (slot b i) = kOccupiedNew \<longrightarrow> slot b' i = slot b i)"

lemma keeps_clear_if_read: "keeps b (clear_if_read i b)"
  by (auto simp: keeps_def clear_if_read_def Let_def clear_slot_def set_slot_def loses_def)

lemma keeps_fold: "keeps b (fold clear_if_read xs b)"
proof (induction xs arbitrary: b)
  case (Cons x xs)
  then show ?case
    using keeps_clear_if_read [of b x] Cons.IH [of "clear_if_read x b"]
      loses_trans [of b "clear_if_read x b" "fold clear_if_read xs (clear_if_read x b)"]
    by (simp add: keeps_def)
qed (simp add: keeps_def)

lemma advance_keeps:
  obtains b1 where "advance_tail seq b = b1\<lparr>tail_pt := seq\<rparr>" "keeps b b1"
  using that keeps_fold by (simp add: advance_tail_def)

lemma keeps_holds: "keeps b b' \<Longrightarrow> holds b s \<Longrightarrow> holds b' s"
  by (simp add: keeps_def holds_def)

lemma unat_add_BUF_SIZE: "unat h + BUF_SIZE < 2 ^ 32 \<Longrightarrow> unat (h + word_of_nat BUF_SIZE :: u32) = unat h + BUF_SIZE"
  using unat_add_lem [of h "word_of_nat BUF_SIZE"] by (simp add: unat_BUF_SIZE)

text \<open>Storing a packet of the window keeps the invariant, with the tail at or behind the packet.\<close>

lemma stored_ok:
  assumes inv: "rx_ok stale sent b" and seq: "head_pt b < seq" "unat seq \<le> unat (head_pt b) + BUF_SIZE"
    and pay: "unat len \<le> PKT_SIZE" "unat len \<le> length pkt" "take (unat len) pkt = sent seq"
    and tail: "unat (tail_pt b) \<le> unat t" "unat seq \<le> unat t" "unat t \<le> unat (head_pt b) + BUF_SIZE"
  shows "rx_ok stale sent ((stored seq len pkt b)\<lparr>tail_pt := t\<rparr>)"
proof -
  let ?b = "(stored seq len pkt b)\<lparr>tail_pt := t\<rparr>"
  have lt: "head_pt b < t" using seq(1) tail(2) by (simp add: word_less_nat_alt)
  have "length (pkt_buf ?b i) = PKT_SIZE \<and> (bk_status (slot ?b i) = kOccupiedNew
      \<longrightarrow> slot_holds sent ?b i \<or> stale \<and> slot_stale sent ?b i)" if i: "i < BUF_SIZE" for i
  proof (cases "i = Seq2Ind seq")
    case True
    have "length (pkt_buf b i) = PKT_SIZE" using inv i by (simp add: rx_ok_def)
    moreover have "length (sent seq) = unat len" using pay(2,3) by (metis length_take min.absorb2)
    ultimately show ?thesis
      using True seq(1) tail(2) pay by (simp add: stored_fields slot_holds_def word_le_nat_alt)
  next
    case False
    have "length (pkt_buf b i) = PKT_SIZE \<and> (bk_status (slot b i) = kOccupiedNew
        \<longrightarrow> slot_holds sent b i \<or> stale \<and> slot_stale sent b i)"
      using inv i by (simp add: rx_ok_def)
    then show ?thesis
      using False tail(1) lt by (auto simp: stored_fields slot_holds_def slot_stale_def head_pt_mod_def word_le_nat_alt)
  qed
  moreover have "unat (head_pt b) \<le> unat t" using seq(1) tail(2) by (simp add: word_less_nat_alt)
  ultimately show ?thesis using tail(3) by (simp add: rx_ok_def stored_fields)
qed

lemma rx_ok_tail:
  "rx_ok stale sent b \<Longrightarrow> unat (tail_pt b) \<le> unat t \<Longrightarrow> unat t \<le> unat (head_pt b) + BUF_SIZE
    \<Longrightarrow> rx_ok stale sent (b\<lparr>tail_pt := t\<rparr>)"
  by (auto simp: rx_ok_def slot_holds_def slot_stale_def head_pt_mod_def word_le_nat_alt word_less_nat_alt)

text \<open>An occupied slot in the window of \<open>seq\<close> already holds \<open>seq\<close>, or it is the stale slot of the head.\<close>

lemma occupied_in_window:
  assumes inv: "rx_ok stale sent b" and seq: "head_pt b < seq" "unat seq \<le> unat (head_pt b) + BUF_SIZE"
    and occ: "bk_status (slot b (Seq2Ind seq)) = kOccupiedNew"
  shows "\<not> stale \<Longrightarrow> bk_seq_num (slot b (Seq2Ind seq)) = seq" "unat seq \<le> unat (tail_pt b)"
proof -
  have tail: "unat (tail_pt b) \<le> unat (head_pt b) + BUF_SIZE" using inv by (simp add: rx_ok_def)
  have eq: "bk_seq_num (slot b (Seq2Ind seq)) = seq" if h: "slot_holds sent b (Seq2Ind seq)"
    using h seq tail by (intro Seq2Ind_window [where h = "head_pt b"]) (auto simp: slot_holds_def word_le_nat_alt)
  have cases: "slot_holds sent b (Seq2Ind seq) \<or> stale \<and> slot_stale sent b (Seq2Ind seq)"
    using inv occ by (simp add: rx_ok_def)
  then show "\<not> stale \<Longrightarrow> bk_seq_num (slot b (Seq2Ind seq)) = seq" using eq by blast
  show "unat seq \<le> unat (tail_pt b)"
  proof (cases "slot_holds sent b (Seq2Ind seq)")
    case True
    then have "slot_holds sent b (Seq2Ind seq)" "bk_seq_num (slot b (Seq2Ind seq)) = seq" using eq by blast+
    then show ?thesis by (simp add: slot_holds_def word_le_nat_alt)
  next
    case False
    then have st: "Seq2Ind seq = head_pt_mod b" "head_pt b < tail_pt b" using cases by (simp_all add: slot_stale_def)
    have next_pos: "unat (head_pt b + 1) = unat (head_pt b) + 1"
      using st(2) by (intro unat_u32_next) (simp add: word_less_nat_alt)
    have "seq = head_pt b + 1"
    proof (rule Seq2Ind_window [where h = "head_pt b"])
      show "Seq2Ind seq = Seq2Ind (head_pt b + 1)" using st(1) Seq2Ind_head [of b] by simp
    qed (use seq next_pos in \<open>simp_all add: word_less_nat_alt BUF_SIZE_def\<close>)
    then show ?thesis using next_pos st(2) by (simp add: word_less_nat_alt)
  qed
qed

lemma occupied_is_duplicate:
  assumes inv: "rx_inv sent b" and seq: "head_pt b < seq" "unat seq \<le> unat (head_pt b) + BUF_SIZE"
    and occ: "bk_status (slot b (Seq2Ind seq)) = kOccupiedNew"
  shows "bk_seq_num (slot b (Seq2Ind seq)) = seq" "unat seq \<le> unat (tail_pt b)"
  using occupied_in_window [OF inv [folded rx_ok_False] seq occ] by simp_all

text \<open>The three branches of \<open>enqueue\<close>.\<close>

lemma enqueue_old_ok:
  assumes inv: "rx_ok stale sent b" and old: "seq \<le> head_pt b"
  shows "enqueue seq len pkt b = ok b"
proof -
  have "\<not> seq > tail_pt b" using inv old by (simp add: rx_ok_def word_le_nat_alt word_less_nat_alt)
  moreover have "\<not> seq > head_pt b" using old by simp
  ultimately show ?thesis by (simp add: enqueue_def)
qed

lemmas enqueue_old = enqueue_old_ok [where stale = False, unfolded rx_ok_False]

lemma enqueue_window_ok:
  assumes inv: "rx_ok stale sent b" and seq: "head_pt b < seq" "unat seq \<le> unat (head_pt b) + BUF_SIZE"
    and room: "unat (head_pt b) + BUF_SIZE < 2 ^ 32"
    and pay: "unat len \<le> PKT_SIZE" "unat len \<le> length pkt" "take (unat len) pkt = sent seq"
  obtains b' where "enqueue seq len pkt b = ok b'" "rx_ok stale sent b'" "head_pt b' = head_pt b"
    "unat (tail_pt b') = max (unat (tail_pt b)) (unat seq)" "\<not> stale \<Longrightarrow> holds b' seq"
    "\<And>s. holds b s \<Longrightarrow> holds b' s"
proof -
  have no_wrap: "\<not> seq > head_pt b + word_of_nat BUF_SIZE"
    using seq(2) unat_add_BUF_SIZE [OF room] by (simp add: word_less_nat_alt)
  define b1 where "b1 = (if bk_status (slot b (Seq2Ind seq)) = kOccupiedNew then b else stored seq len pkt b)"
  have b1: "head_pt b1 = head_pt b" "tail_pt b1 = tail_pt b" by (simp_all add: b1_def stored_fields)
  have hold1: "holds b1 seq" if "\<not> stale"
    using occupied_in_window(1) [OF inv seq] that by (simp add: b1_def holds_def stored_fields)
  have keep1: "holds b1 s" if "holds b s" for s
    using that by (cases "Seq2Ind s = Seq2Ind seq") (auto simp: b1_def holds_def stored_fields split: if_splits)
  have inv1: "rx_ok stale sent (b1\<lparr>tail_pt := t\<rparr>)"
    if "unat (tail_pt b) \<le> unat t" "unat seq \<le> unat t" "unat t \<le> unat (head_pt b) + BUF_SIZE" for t
    using rx_ok_tail [OF inv that(1,3)] stored_ok [OF inv seq pay that] by (simp add: b1_def)
  have enq: "enqueue seq len pkt b = (if seq > tail_pt b1 then ok (advance_tail seq b1) else ok b1)"
    using seq(1) no_wrap store_in_slot_eq [OF pay(1,2), of seq b] b1 by (simp add: enqueue_def Let_def b1_def)
  show thesis
  proof (cases "seq > tail_pt b")
    case True
    obtain b2 where b2: "advance_tail seq b1 = b2\<lparr>tail_pt := seq\<rparr>" "keeps b1 b2" by (rule advance_keeps)
    have lt: "unat (tail_pt b) < unat seq" using True by (simp add: word_less_nat_alt)
    have "loses (b1\<lparr>tail_pt := seq\<rparr>) (b2\<lparr>tail_pt := seq\<rparr>)" 
      using b2(2) by (intro loses_tail) (simp add: keeps_def)
    then have "rx_ok stale sent (b2\<lparr>tail_pt := seq\<rparr>)"
      using inv1 [of seq] lt seq(2) rx_ok_loses [of stale sent "b1\<lparr>tail_pt := seq\<rparr>" "b2\<lparr>tail_pt := seq\<rparr>"] by simp
    moreover have "holds (b2\<lparr>tail_pt := seq\<rparr>) s" if "holds b1 s" for s
      using keeps_holds [OF b2(2) that] by (simp add: holds_def)
    moreover have "head_pt b2 = head_pt b" using b2(2) b1(1) by (auto simp: keeps_def loses_def)
    ultimately show ?thesis
      using that [of "b2\<lparr>tail_pt := seq\<rparr>"] enq True b1 b2(1) hold1 keep1 lt by (simp add: max_def)
  next
    case False
    then have "unat seq \<le> unat (tail_pt b)" by (simp add: word_less_nat_alt)
    moreover from this have "rx_ok stale sent (b1\<lparr>tail_pt := tail_pt b\<rparr>)"
      using inv by (intro inv1) (simp_all add: rx_ok_def)
    moreover have "b1\<lparr>tail_pt := tail_pt b\<rparr> = b1" using b1 by simp
    ultimately show ?thesis
      using that [of b1] enq False b1 hold1 keep1 by simp
  qed
qed

lemma enqueue_window:
  assumes inv: "rx_inv sent b" and seq: "head_pt b < seq" "unat seq \<le> unat (head_pt b) + BUF_SIZE"
    and room: "unat (head_pt b) + BUF_SIZE < 2 ^ 32"
    and pay: "unat len \<le> PKT_SIZE" "unat len \<le> length pkt" "take (unat len) pkt = sent seq"
  obtains b' where "enqueue seq len pkt b = ok b'" "rx_inv sent b'" "head_pt b' = head_pt b"
    "unat (tail_pt b') = max (unat (tail_pt b)) (unat seq)" "holds b' seq"
    "\<And>s. holds b s \<Longrightarrow> holds b' s"
  by (rule enqueue_window_ok [OF inv [folded rx_ok_False] seq room pay]) (simp add: rx_ok_False that)

text \<open>The slot of a packet that restarts the window holds a packet that was not delivered.\<close>

definition overruns :: "u32 \<Rightarrow> rx_data_buf \<Rightarrow> bool" where
  "overruns seq b \<longleftrightarrow> unat (head_pt b) + BUF_SIZE < unat seq \<and> bk_status (slot b (Seq2Ind seq)) = kOccupiedNew"

lemma enqueue_wrap_ok:
  assumes inv: "rx_ok stale sent b" and seq: "unat (head_pt b) + BUF_SIZE < unat seq"
    and free: "overruns seq b \<Longrightarrow> stale"
    and pay: "unat len \<le> PKT_SIZE" "unat len \<le> length pkt" "take (unat len) pkt = sent seq"
  obtains b' where "enqueue seq len pkt b = ok b'" "rx_ok stale sent b'" "head_pt b' = seq - 1" "tail_pt b' = seq"
    "\<not> overruns seq b \<Longrightarrow> holds b' seq"
proof -
  define b1 where "b1 = (if bk_status (slot b (Seq2Ind seq)) = kOccupiedNew then b else stored seq len pkt b)"
  let ?i = "Seq2Ind seq" and ?b = "restart_window seq b1"
  have room: "unat (head_pt b) + BUF_SIZE < 2 ^ 32" using seq unat_u32_less [of seq] by simp
  have wrap: "seq > head_pt b" "seq > head_pt b + word_of_nat BUF_SIZE"
    using seq unat_add_BUF_SIZE [OF room] by (simp_all add: word_less_nat_alt)
  have enq: "enqueue seq len pkt b = ok ?b"
    using wrap store_in_slot_eq [OF pay(1,2), of seq b] by (simp add: enqueue_def Let_def b1_def)
  note r = restart_window_fields [where seq = seq and b = b1]
  have pos: "0 < unat seq" using seq by simp
  then have one: "1 \<le> seq" by (simp add: word_le_nat_alt)
  have pred: "unat (seq - 1) = unat seq - 1" using one by (simp add: unat_sub)
  have len: "length (sent seq) = unat len" using pay(2,3) by (metis length_take min.absorb2)
  have pkts: "length (pkt_buf b1 i) = PKT_SIZE" if i: "i < BUF_SIZE" for i
    using inv i pay len by (cases "i = ?i") (auto simp: b1_def rx_ok_def stored_fields)
  have "bk_status (slot ?b i) = kOccupiedNew \<longrightarrow> slot_holds sent ?b i \<or> stale \<and> slot_stale sent ?b i"
    if i: "i < BUF_SIZE" for i
  proof (cases "i = ?i")
    case False
    then show ?thesis using r(5) [OF i False] by simp
  next
    case at: True
    show ?thesis
    proof (cases "bk_status (slot b ?i) = kOccupiedNew")
      case True
      then have old: "stale" "slot_holds sent b ?i \<or> slot_stale sent b ?i"
        using free seq inv i at by (auto simp: overruns_def rx_ok_def)
      let ?q = "bk_seq_num (slot b ?i)"
      have "unat ?q \<le> unat (head_pt b) + BUF_SIZE"
        using old(2) inv by (auto simp: slot_holds_def slot_stale_def rx_ok_def word_le_nat_alt)
      then have "?q \<le> seq - 1" using pred seq by (simp add: word_le_nat_alt)
      moreover have "head_pt_mod ?b = ?i" "head_pt ?b < tail_pt ?b" using r(1,2) pos pred
        by (simp_all add: head_pt_mod_def Seq2Ind_def word_less_nat_alt)
      moreover have "Seq2Ind ?q = ?i" "unat (bk_len (slot b ?i)) \<le> PKT_SIZE"
        "take (unat (bk_len (slot b ?i))) (pkt_buf b ?i) = sent ?q"
        using old(2) by (auto simp: slot_holds_def slot_stale_def)
      ultimately have "slot_stale sent ?b ?i" using True r(1,3,4) by (simp add: slot_stale_def b1_def)
      then show ?thesis using old(1) at by simp
    next
      case False
      then have b1: "b1 = stored seq len pkt b" by (simp add: b1_def)
      have "length (pkt_buf b i) = PKT_SIZE" using inv i by (simp add: rx_ok_def)
      then have "slot_holds sent ?b ?i" using at pay len pos pred
        unfolding slot_holds_def r(1-4) unfolding b1 by (simp add: stored_fields word_less_nat_alt)
      then show ?thesis using at by simp
    qed
  qed
  then have "rx_ok stale sent ?b" using pos pred pkts by (simp add: rx_ok_def r(1-3) BUF_SIZE_def)
  moreover have "holds ?b seq" if "\<not> overruns seq b"
    using that seq unfolding holds_def r(4) by (auto simp: b1_def stored_fields overruns_def)
  ultimately show thesis using that enq r(1,2) by blast
qed

lemma enqueue_wrap:
  assumes inv: "rx_inv sent b" and seq: "unat (head_pt b) + BUF_SIZE < unat seq"
    and free: "bk_status (slot b (Seq2Ind seq)) \<noteq> kOccupiedNew"
    and pay: "unat len \<le> PKT_SIZE" "unat len \<le> length pkt" "take (unat len) pkt = sent seq"
  obtains b' where "enqueue seq len pkt b = ok b'" "rx_inv sent b'" "head_pt b' = seq - 1" "tail_pt b' = seq" "holds b' seq"
proof -
  have "\<not> overruns seq b" using free by (simp add: overruns_def)
  then show thesis
    using enqueue_wrap_ok [OF inv [folded rx_ok_False] seq _ pay, of thesis] that by (simp add: rx_ok_False)
qed

section \<open>Dequeueing\<close>

text \<open>A packet that is delivered at a position is the one sent under it, or an older one of its slot.\<close>

definition delivers :: "bool \<Rightarrow> (u32 \<Rightarrow> u8 list) \<Rightarrow> u32 \<Rightarrow> u8 list \<Rightarrow> bool" where
  "delivers stale sent p d \<longleftrightarrow> d = sent p \<or> stale \<and> (\<exists>q<p. Seq2Ind q = Seq2Ind p \<and> d = sent q)"

lemma head_slot_ok:
  assumes inv: "rx_ok stale sent b" and ne: "head_pt b \<noteq> tail_pt b" and occ: "bk_status (slot b (head_pt_mod b)) = kOccupiedNew"
  defines "k \<equiv> slot b (head_pt_mod b)"
  shows "unat (bk_len k) \<le> PKT_SIZE" "delivers stale sent (head_pt b + 1) (take (unat (bk_len k)) (pkt_buf b (head_pt_mod b)))"
    "\<not> stale \<Longrightarrow> holds b (head_pt b + 1)"
proof -
  let ?h = "head_pt_mod b" and ?s = "head_pt b + 1" and ?q = "bk_seq_num (slot b (head_pt_mod b))"
  have lt: "unat (head_pt b) < unat (tail_pt b)" using ok_head_before_tail [OF inv ne] .
  then have sat: "unat ?s = unat (head_pt b) + 1" by (rule unat_u32_next)
  have h: "?h < BUF_SIZE" by (simp add: head_pt_mod_def BUF_SIZE_def)
  then have cases: "slot_holds sent b ?h \<or> stale \<and> slot_stale sent b ?h" using inv occ by (simp add: rx_ok_def)
  have eq: "?q = ?s" if sh: "slot_holds sent b ?h"
  proof (rule Seq2Ind_window [where h = "head_pt b"])
    show "Seq2Ind ?q = Seq2Ind ?s" using sh Seq2Ind_head [of b] by (simp add: slot_holds_def)
  qed (use sh sat inv lt in \<open>simp_all add: slot_holds_def rx_ok_def word_less_nat_alt word_le_nat_alt BUF_SIZE_def\<close>)
  show "unat (bk_len k) \<le> PKT_SIZE" using cases by (auto simp: k_def slot_holds_def slot_stale_def)
  show "\<not> stale \<Longrightarrow> holds b ?s" using cases eq occ Seq2Ind_head [of b] unfolding holds_def by auto
  show "delivers stale sent ?s (take (unat (bk_len k)) (pkt_buf b ?h))"
  proof (cases "slot_holds sent b ?h")
    case True
    then have "slot_holds sent b ?h" "?q = ?s" using eq by blast+
    then show ?thesis by (simp add: k_def slot_holds_def delivers_def)
  next
    case False
    then have "stale" "slot_stale sent b ?h" using cases by simp_all
    moreover from this have "?q < ?s" using sat by (simp add: slot_stale_def word_le_nat_alt word_less_nat_alt)
    ultimately show ?thesis using Seq2Ind_head [of b] by (auto simp: k_def slot_stale_def delivers_def)
  qed
qed

lemma advance_ok:
  assumes inv: "rx_ok stale sent b" and ne: "head_pt b \<noteq> tail_pt b"
    and lo: "loses b c" and free: "bk_status (slot c (head_pt_mod b)) \<noteq> kOccupiedNew"
  shows "rx_ok stale sent (c\<lparr>head_pt := head_pt b + 1\<rparr>)"
proof -
  let ?h = "head_pt_mod b" and ?s = "head_pt b + 1"
  have lt: "unat (head_pt b) < unat (tail_pt b)" using ok_head_before_tail [OF inv ne] .
  then have sat: "unat ?s = unat (head_pt b) + 1" by (rule unat_u32_next)
  have c: "rx_ok stale sent c" "head_pt c = head_pt b" "tail_pt c = tail_pt b"
    using rx_ok_loses [OF inv lo] lo by (simp_all add: loses_def)
  have "slot_holds sent (c\<lparr>head_pt := ?s\<rparr>) i" if i: "i < BUF_SIZE" "bk_status (slot c i) = kOccupiedNew" for i
  proof -
    have ne_h: "i \<noteq> ?h" using i(2) free by auto
    then have sh: "slot_holds sent c i" using c(1,2) i by (auto simp: rx_ok_def slot_stale_def head_pt_mod_def)
    have "bk_seq_num (slot c i) \<noteq> ?s" using sh ne_h Seq2Ind_head [of b] by (auto simp: slot_holds_def)
    then have "bk_seq_num (slot c i) > ?s" using sh c(2) sat word_unat_eq_iff [of "bk_seq_num (slot c i)" ?s]
      by (simp add: slot_holds_def word_less_nat_alt)
    then show ?thesis using sh by (simp add: slot_holds_def)
  qed
  then show ?thesis using c lt sat by (auto simp: rx_ok_def)
qed

lemma deq_head_ok:
  assumes inv: "rx_ok stale sent b" and ne: "head_pt b \<noteq> tail_pt b" and deq: "deq_slot now (head_pt_mod b) b = ok (r, b')"
  shows "rx_ok stale sent b'"
    and "case r of
        Wait_Fill \<Rightarrow> False
      | Wait_Slot i \<Rightarrow> i = head_pt_mod b \<and> head_pt b' = head_pt b \<and> \<not> holds b (head_pt b + 1)
      | Got_Pkt p len \<Rightarrow> delivers stale sent (head_pt b + 1) p \<and> head_pt b' = head_pt b + 1 \<and> (stale \<or> holds b (head_pt b + 1))
      | Gave_Up \<Rightarrow> head_pt b' = head_pt b + 1 \<and> \<not> holds b (head_pt b + 1)"
proof -
  let ?h = "head_pt_mod b" and ?s = "head_pt b + 1"
  let ?k = "slot b ?h"
  have inc: "IncrementHeadPt c = c\<lparr>head_pt := ?s\<rparr>" if "loses b c" for c
    using that by (simp add: IncrementHeadPt_def loses_def)
  have gone: "\<not> holds b ?s" if "bk_status ?k \<noteq> kOccupiedNew"
    using that Seq2Ind_head [of b] by (simp add: holds_def)
  let ?result = "case r of
        Wait_Fill \<Rightarrow> False
      | Wait_Slot i \<Rightarrow> i = head_pt_mod b \<and> head_pt b' = head_pt b \<and> \<not> holds b (head_pt b + 1)
      | Got_Pkt p len \<Rightarrow> delivers stale sent (head_pt b + 1) p \<and> head_pt b' = head_pt b + 1 \<and> (stale \<or> holds b (head_pt b + 1))
      | Gave_Up \<Rightarrow> head_pt b' = head_pt b + 1 \<and> \<not> holds b (head_pt b + 1)"
  have given_up: "rx_ok stale sent b' \<and> ?result" if "bk_status ?k = kDrop \<or> bk_status ?k = kRead"
  proof -
    have "r = Gave_Up" "b' = (clear_slot ?h b)\<lparr>head_pt := ?s\<rparr>"
      using deq that inc [of "clear_slot ?h b"] by (auto simp: deq_slot_def)
    moreover have "rx_ok stale sent ((clear_slot ?h b)\<lparr>head_pt := ?s\<rparr>)"
      by (rule advance_ok [OF inv ne]) (simp_all add: clear_slot_def set_slot_def loses_def)
    ultimately show ?thesis using gone that by auto
  qed
  have "rx_ok stale sent b' \<and> ?result"
  proof (cases "bk_status ?k")
    case kEmpty
    let ?b = "set_slot ?h (\<lambda>k. k\<lparr>bk_status := kBlock, timestamp := now\<rparr>) b"
    have "r = Wait_Slot ?h" "b' = ?b" using deq kEmpty by (simp_all add: deq_slot_def)
    moreover have "loses b ?b" by (rule loses_set_slot) simp
    then have "rx_ok stale sent ?b" "head_pt ?b = head_pt b" using rx_ok_loses [OF inv] by (simp_all add: loses_def)
    ultimately show ?thesis using gone kEmpty by simp
  next
    case kBlock
    then have "r = Wait_Slot ?h" "b' = b" using deq by (auto simp: deq_slot_def)
    then show ?thesis using inv gone kBlock by simp
  next
    case kOccupiedNew
    note head = head_slot_ok [OF inv ne kOccupiedNew]
    let ?b = "set_slot ?h (\<lambda>k. k\<lparr>bk_status := kRead\<rparr>) b"
    have lo: "loses b ?b" by (rule loses_set_slot) simp
    have "GetPkt ?h (bk_len ?k) b = ok (take (unat (bk_len ?k)) (pkt_buf b ?h))" using head(1) by (simp add: GetPkt_def)
    then have "r = Got_Pkt (take (unat (bk_len ?k)) (pkt_buf b ?h)) (bk_len ?k)" "b' = ?b\<lparr>head_pt := ?s\<rparr>"
      using deq kOccupiedNew inc [OF lo] by (simp_all add: deq_slot_def)
    moreover have "rx_ok stale sent (?b\<lparr>head_pt := ?s\<rparr>)"
      by (rule advance_ok [OF inv ne lo]) (simp add: set_slot_def)
    ultimately show ?thesis using head(2,3) by auto
  qed (use given_up in simp_all)
  then show "rx_ok stale sent b'" and ?result by blast+
qed

lemma deq_head:
  assumes inv: "rx_inv sent b" and ne: "head_pt b \<noteq> tail_pt b" and deq: "deq_slot now (head_pt_mod b) b = ok (r, b')"
  shows "rx_inv sent b'"
    and "case r of
        Wait_Fill \<Rightarrow> False
      | Wait_Slot i \<Rightarrow> i = head_pt_mod b \<and> head_pt b' = head_pt b \<and> \<not> holds b (head_pt b + 1)
      | Got_Pkt p len \<Rightarrow> p = sent (head_pt b + 1) \<and> head_pt b' = head_pt b + 1 \<and> holds b (head_pt b + 1)
      | Gave_Up \<Rightarrow> head_pt b' = head_pt b + 1 \<and> \<not> holds b (head_pt b + 1)"
  using deq_head_ok [OF inv [folded rx_ok_False] ne deq] by (auto simp: rx_ok_False delivers_def split: dequeued.splits)

end
