(* ===== verification/Rx_Run.thy ===== *)
theory Rx_Run
  imports Rx_Data_Buf
begin

text \<open>
  The three threads on one receive buffer as a step relation. A step is an atomic segment: an
  \<open>EnqueuePkt\<close> of a receiving thread, a segment of \<open>DequeuePkt\<close> of the writing thread up to its
  next wait, or the work of the acknowledging thread on one slot. The steps interleave freely,
  wake-ups may be spurious. The invariant of the reachable states gives ordered delivery. \<open>Lock_Delivery\<close> shows that the locks justify these steps.
\<close>

section \<open>Sequence numbers stay in their slots\<close>

definition placed :: "rx_data_buf \<Rightarrow> bool" where
  "placed b \<longleftrightarrow> (\<forall>i<BUF_SIZE. bk_seq_num (slot b i) \<noteq> 0 \<longrightarrow> Seq2Ind (bk_seq_num (slot b i)) = i)"

lemma placed_set_slot:
  "placed b \<Longrightarrow> (bk_seq_num (f (slot b i)) \<noteq> bk_seq_num (slot b i) \<Longrightarrow> bk_seq_num (f (slot b i)) \<noteq> 0
      \<Longrightarrow> Seq2Ind (bk_seq_num (f (slot b i))) = i) \<Longrightarrow> placed (set_slot i f b)"
  by (auto simp: placed_def set_slot_def) metis

lemma placed_clear: "placed b \<Longrightarrow> placed (clear_slot i b)"
  unfolding clear_slot_def by (rule placed_set_slot) simp_all

lemma placed_fields:
  "placed (b\<lparr>head_pt := h\<rparr>) = placed b" "placed (b\<lparr>tail_pt := t\<rparr>) = placed b" "placed (b\<lparr>pkt_buf := p\<rparr>) = placed b"
  by (simp_all add: placed_def)

lemma placed_fold: "(\<And>x b. placed b \<Longrightarrow> placed (f x b)) \<Longrightarrow> placed b \<Longrightarrow> placed (fold f xs b)"
  by (induction xs arbitrary: b) auto

lemma placed_stored: "placed b \<Longrightarrow> placed (stored seq len pkt b)"
  unfolding stored_def by (rule placed_set_slot) (simp_all add: placed_fields)

lemma placed_enqueue:
  assumes "placed b" "unat len \<le> PKT_SIZE" "unat len \<le> length pkt" "enqueue seq len pkt b = ok b'"
  shows "placed b'"
proof -
  have r: "placed (restart_window seq b)" if "placed b" for b
    unfolding restart_window_def Let_def by (rule placed_fold) (simp_all add: placed_clear placed_fields that)
  have a: "placed (advance_tail seq b)" if "placed b" for b
    unfolding advance_tail_def Let_def set_tail_pt_def placed_fields
    by (rule placed_fold) (simp_all add: clear_if_read_def Let_def placed_clear that)
  show ?thesis
    using assms store_in_slot_eq [OF assms(2,3), of seq b] placed_stored [OF assms(1), of seq len pkt]
    by (auto simp: enqueue_def Let_def intro: r a split: if_splits)
qed

lemma placed_give_up: "placed b \<Longrightarrow> placed (give_up_head b)"
  by (auto simp: give_up_head_def intro: placed_set_slot)

lemma placed_deq_slot: "placed b \<Longrightarrow> deq_slot now i b = ok (r, b') \<Longrightarrow> placed b'"
  by (auto simp: deq_slot_def and_then_eq_ok IncrementHeadPt_def placed_fields placed_clear
      split: status.splits intro!: placed_set_slot)

lemma placed_drop_nack: "placed b \<Longrightarrow> placed (drop_nack s b)"
  unfolding drop_nack_def by (rule placed_set_slot) simp_all

lemma Seq2Ind_position: "i < 2 ^ 32 - 1 \<Longrightarrow> Seq2Ind (word_of_nat (i + 1)) = i mod BUF_SIZE"
  by (simp add: Seq2Ind_def unat_of_nat)

lemma placed_scan: "placed b \<Longrightarrow> i < 2 ^ 32 - 1 \<Longrightarrow> scan_slot bt now i (ns, b) = (ns', b') \<Longrightarrow> placed b'"
  using Seq2Ind_position [of i]
  by (auto simp: scan_slot_def Let_def split: if_splits intro!: placed_set_slot)

section \<open>The step relation\<close>

text \<open>The writing thread is between two calls (\<open>Calling\<close>) or waits on a slot; \<open>delivered\<close> records the
  position and the contents of every packet it got.\<close>

datatype consumer = Calling | Waiting nat

record rx_state =
  the_buf :: rx_data_buf
  consumer :: consumer
  delivered :: "(u32 \<times> u8 list) list"

definition rx_init :: "time \<Rightarrow> rx_state" where
  "rx_init now = \<lparr>the_buf = RxDataBuf now, consumer = Calling, delivered = []\<rparr>"

definition take_result :: "dequeued \<Rightarrow> rx_data_buf \<Rightarrow> rx_state \<Rightarrow> rx_state" where
  "take_result r b s =
     (case r of
        Wait_Fill \<Rightarrow> s\<lparr>the_buf := b, consumer := Calling\<rparr>
      | Wait_Slot i \<Rightarrow> s\<lparr>the_buf := b, consumer := Waiting i\<rparr>
      | Got_Pkt p len \<Rightarrow> s\<lparr>the_buf := b, consumer := Calling,
          delivered := delivered s @ [(head_pt (the_buf s) + 1, p)]\<rparr>
      | Gave_Up \<Rightarrow> s\<lparr>the_buf := b, consumer := Calling\<rparr>)"

text \<open>
  What is assumed of the packets: the payload is the one of its number and fits a slot, and the numbers
  stay away from the end of \<open>uint32\<close> (\<open>fitting\<close>, a condition on the input alone). The code does not
  rule out that a packet restarts the window while its slot holds an undelivered packet (\<open>overruns\<close>);
  \<open>any_fitting\<close> admits it, \<open>no_overrun\<close> is the condition that it does not happen.
\<close>

definition fitting :: "(u32 \<Rightarrow> u8 list) \<Rightarrow> u32 \<Rightarrow> u16 \<Rightarrow> u8 list \<Rightarrow> bool" where
  "fitting sent seq len pkt \<longleftrightarrow> unat len \<le> PKT_SIZE \<and> unat len \<le> length pkt \<and> take (unat len) pkt = sent seq
     \<and> unat seq + BUF_SIZE < 2 ^ 32"

definition admissible :: "bool \<Rightarrow> (u32 \<Rightarrow> u8 list) \<Rightarrow> u32 \<Rightarrow> u16 \<Rightarrow> u8 list \<Rightarrow> rx_data_buf \<Rightarrow> bool" where
  "admissible stale sent seq len pkt b \<longleftrightarrow> fitting sent seq len pkt \<and> (overruns seq b \<longrightarrow> stale)"

abbreviation any_fitting :: "(u32 \<Rightarrow> u8 list) \<Rightarrow> u32 \<Rightarrow> u16 \<Rightarrow> u8 list \<Rightarrow> rx_data_buf \<Rightarrow> bool" where
  "any_fitting \<equiv> admissible True"

abbreviation no_overrun :: "(u32 \<Rightarrow> u8 list) \<Rightarrow> u32 \<Rightarrow> u16 \<Rightarrow> u8 list \<Rightarrow> rx_data_buf \<Rightarrow> bool" where
  "no_overrun \<equiv> admissible False"

inductive rx_step :: "bool \<Rightarrow> (u32 \<Rightarrow> u8 list) \<Rightarrow> rx_state \<Rightarrow> rx_state \<Rightarrow> bool" for stale sent where
  enqueue_step: "admissible stale sent seq len pkt (the_buf s) \<Longrightarrow> EnqueuePkt seq len pkt (the_buf s) = ok (r, b)
      \<Longrightarrow> rx_step stale sent s (s\<lparr>the_buf := b\<rparr>)"
| call_step: "consumer s = Calling \<Longrightarrow> DequeuePkt now (the_buf s) = ok (r, b) \<Longrightarrow> rx_step stale sent s (take_result r b s)"
| wake_step: "consumer s = Waiting i \<Longrightarrow> DequeuePkt_wake now i (the_buf s) = ok (r, b)
      \<Longrightarrow> rx_step stale sent s (take_result r b s)"
| scan_step: "i < 2 ^ 32 - 1 \<Longrightarrow> scan_slot bt now i (ns, the_buf s) = (ns', b) \<Longrightarrow> rx_step stale sent s (s\<lparr>the_buf := b\<rparr>)"
| drop_step: "rx_step stale sent s (s\<lparr>the_buf := drop_nack seq (the_buf s)\<rparr>)"

inductive_cases rx_stepE: "rx_step stale sent s s'"

definition rx_reachable :: "bool \<Rightarrow> (u32 \<Rightarrow> u8 list) \<Rightarrow> rx_state \<Rightarrow> bool" where
  "rx_reachable stale sent s \<longleftrightarrow> (\<exists>now. (rx_step stale sent)\<^sup>*\<^sup>* (rx_init now) s)"

section \<open>The invariant of the reachable states\<close>

text \<open>
  The delivered positions are strictly increasing and not behind the head, each packet is the one
  sent under its position, or an older one of its slot when a restart may overrun packets, and a
  waiting consumer waits on the head's slot of a non-empty queue.
\<close>

definition state_inv :: "bool \<Rightarrow> (u32 \<Rightarrow> u8 list) \<Rightarrow> rx_state \<Rightarrow> bool" where
  "state_inv stale sent s \<longleftrightarrow> rx_ok stale sent (the_buf s) \<and> placed (the_buf s)
     \<and> unat (tail_pt (the_buf s)) + BUF_SIZE < 2 ^ 32
     \<and> (\<forall>i. consumer s = Waiting i \<longrightarrow> head_pt (the_buf s) \<noteq> tail_pt (the_buf s) \<and> i < BUF_SIZE)
     \<and> sorted_wrt (<) (map fst (delivered s))
     \<and> (\<forall>(p, d)\<in>set (delivered s). p \<le> head_pt (the_buf s) \<and> delivers stale sent p d)"

lemma rx_init_inv: "state_inv stale sent (rx_init now)"
  by (simp add: state_inv_def rx_init_def RxDataBuf_ok)
    (simp add: placed_def RxDataBuf_def BasicBuf_def basic_buf.defs empty_book_def BUF_SIZE_def)

text \<open>A step on the buffer that keeps the head, or moves it forward, and leaves a packet to wait for.\<close>

lemma state_inv_buf:
  assumes "state_inv stale sent s" "rx_ok stale sent b" "placed b" "unat (head_pt (the_buf s)) \<le> unat (head_pt b)"
    and "unat (tail_pt b) + BUF_SIZE < 2 ^ 32"
    and "head_pt (the_buf s) \<noteq> tail_pt (the_buf s) \<Longrightarrow> head_pt b \<noteq> tail_pt b"
  shows "state_inv stale sent (s\<lparr>the_buf := b\<rparr>)"
  using assms by (fastforce simp: state_inv_def word_le_nat_alt)

lemma state_inv_loses:
  "state_inv stale sent s \<Longrightarrow> loses (the_buf s) b \<Longrightarrow> placed b \<Longrightarrow> state_inv stale sent (s\<lparr>the_buf := b\<rparr>)"
  using rx_ok_loses [of stale sent "the_buf s" b]
  by (intro state_inv_buf) (simp_all add: state_inv_def, simp_all add: loses_def)

lemma enqueue_step_inv:
  assumes inv: "state_inv stale sent s" and adm: "admissible stale sent seq len pkt (the_buf s)"
    and enq: "EnqueuePkt seq len pkt (the_buf s) = ok (r, b)"
  shows "state_inv stale sent (s\<lparr>the_buf := b\<rparr>)"
proof (cases "IsFull (the_buf s)")
  case True
  then have "b = give_up_head (the_buf s)" using enq by (simp add: EnqueuePkt_def)
  moreover have "placed (give_up_head (the_buf s))" using inv by (intro placed_give_up) (simp add: state_inv_def)
  ultimately show ?thesis using state_inv_loses [OF inv loses_steps(2)] by simp
next
  case False
  let ?b = "the_buf s"
  have e: "enqueue seq len pkt ?b = ok b" using enq False by (simp add: EnqueuePkt_def and_then_eq_ok)
  have i: "rx_ok stale sent ?b" "placed ?b" using inv by (simp_all add: state_inv_def)
  have p: "unat len \<le> PKT_SIZE" "unat len \<le> length pkt" "take (unat len) pkt = sent seq" "unat seq + BUF_SIZE < 2 ^ 32"
    "overruns seq ?b \<Longrightarrow> stale" using adm by (simp_all add: admissible_def fitting_def)
  have tail: "unat (tail_pt ?b) + BUF_SIZE < 2 ^ 32" "unat (head_pt ?b) \<le> unat (tail_pt ?b)"
    using inv i(1) by (simp_all add: state_inv_def rx_ok_def)
  then have room: "unat (head_pt ?b) + BUF_SIZE < 2 ^ 32" by linarith
  have pl: "placed b" using placed_enqueue [OF i(2) p(1,2) e] .
  consider (old) "seq \<le> head_pt ?b" | (window) "head_pt ?b < seq" "unat seq \<le> unat (head_pt ?b) + BUF_SIZE"
    | (wrap) "unat (head_pt ?b) + BUF_SIZE < unat seq" by fastforce
  then show ?thesis
  proof cases
    case old
    have "b = ?b" using enqueue_old_ok [OF i(1) old] e by simp
    moreover have "s\<lparr>the_buf := ?b\<rparr> = s" by simp
    ultimately show ?thesis using inv by metis
  next
    case window
    obtain b' where b': "enqueue seq len pkt ?b = ok b'" "rx_ok stale sent b'" "head_pt b' = head_pt ?b"
      "unat (tail_pt b') = max (unat (tail_pt ?b)) (unat seq)"
      by (rule enqueue_window_ok [OF i(1) window room p(1-3)])
    have "unat (head_pt ?b) < unat (tail_pt b')" using window(1) b'(4) by (simp add: word_less_nat_alt)
    then have "head_pt b' \<noteq> tail_pt b'" using b'(3) by auto
    moreover have "unat (tail_pt b') + BUF_SIZE < 2 ^ 32" using b'(4) tail(1) p(4) by (simp add: max_def)
    ultimately show ?thesis using state_inv_buf [OF inv b'(2)] pl b' e by simp
  next
    case wrap
    obtain b' where b': "enqueue seq len pkt ?b = ok b'" "rx_ok stale sent b'" "head_pt b' = seq - 1" "tail_pt b' = seq"
      by (rule enqueue_wrap_ok [OF i(1) wrap p(5,1-3)])
    have "1 \<le> seq" using wrap by (simp add: word_le_nat_alt)
    then have "unat (head_pt ?b) \<le> unat (seq - 1)" using wrap by (simp add: unat_sub)
    then show ?thesis using state_inv_buf [OF inv b'(2)] pl b' e p(4) by simp
  qed
qed

lemma deq_step_inv:
  assumes inv: "state_inv stale sent s" and ne: "head_pt (the_buf s) \<noteq> tail_pt (the_buf s)"
    and deq: "deq_slot now (head_pt_mod (the_buf s)) (the_buf s) = ok (r, b)"
  shows "state_inv stale sent (take_result r b s)"
proof -
  let ?b = "the_buf s"
  have i: "rx_ok stale sent ?b" "placed ?b" using inv by (simp_all add: state_inv_def)
  note d = deq_head_ok [OF i(1) ne deq]
  have pl: "placed b" using placed_deq_slot [OF i(2) deq] .
  have suc: "unat (head_pt ?b + 1) = unat (head_pt ?b) + 1"
    using ok_head_before_tail [OF i(1) ne] by (rule unat_u32_next)
  have tail: "tail_pt b = tail_pt ?b"
    using deq by (auto simp: deq_slot_def and_then_eq_ok set_slot_def clear_slot_def IncrementHeadPt_def split: status.splits)
  have old: "p < head_pt ?b + 1" if "(p, c) \<in> set (delivered s)" for p c
    using inv that suc by (fastforce simp: state_inv_def word_le_nat_alt word_less_nat_alt)
  have le: "p \<le> head_pt ?b + 1" if "(p, c) \<in> set (delivered s)" for p c
    using old [OF that] by simp
  show ?thesis
  proof (cases r)
    case Wait_Fill
    then show ?thesis using d(2) by simp
  next
    case (Wait_Slot j)
    then show ?thesis using d inv pl ne tail by (auto simp: state_inv_def take_result_def)
  next
    case (Got_Pkt q len)
    then show ?thesis
      using d inv pl old le tail by (auto simp: state_inv_def take_result_def sorted_wrt_append)
  next
    case Gave_Up
    then show ?thesis using d inv pl le tail by (auto simp: state_inv_def take_result_def)
  qed
qed

lemma rx_step_inv:
  assumes inv: "state_inv stale sent s" and step: "rx_step stale sent s s'"
  shows "state_inv stale sent s'"
  using step
proof (cases rule: rx_step.cases)
  case (enqueue_step seq len pkt r b)
  then show ?thesis using enqueue_step_inv [OF inv] by simp
next
  case (call_step now r b)
  show ?thesis
  proof (cases "IsEmpty (the_buf s)")
    case True
    then have "s' = s" using call_step by (simp add: DequeuePkt_def take_result_def)
    then show ?thesis using inv by simp
  next
    case False
    then show ?thesis using deq_step_inv [OF inv] call_step by (simp add: DequeuePkt_def IsEmpty_def)
  qed
next
  case (wake_step i now r b)
  let ?b = "the_buf s"
  have ne: "head_pt ?b \<noteq> tail_pt ?b" and i: "i < BUF_SIZE" using inv wake_step(2) by (simp_all add: state_inv_def)
  have "i = head_pt_mod ?b" if eq: "bk_seq_num (slot ?b i) = head_pt ?b + 1"
  proof -
    have "unat (head_pt ?b) < unat (tail_pt ?b)"
      using ok_head_before_tail [OF _ ne] inv by (auto simp: state_inv_def)
    then have "unat (head_pt ?b + 1) = unat (head_pt ?b) + 1" by (rule unat_u32_next)
    then have "head_pt ?b + 1 \<noteq> 0" by (metis Suc_eq_plus1 nat.distinct(1) unat_0)
    then show ?thesis using inv i eq Seq2Ind_head [of ?b] by (auto simp: state_inv_def placed_def)
  qed
  then have "deq_slot now (head_pt_mod ?b) ?b = ok (r, b)"
    using wake_step(3) by (auto simp: DequeuePkt_wake_def split: if_splits)
  then show ?thesis using deq_step_inv [OF inv ne] wake_step(1) by simp
next
  case (scan_step i bt now ns ns' b)
  have "placed (the_buf s)" using inv by (simp add: state_inv_def)
  then have "placed b" by (rule placed_scan [OF _ scan_step(2,3)])
  moreover have "loses (the_buf s) b" using loses_scan [of "(ns, the_buf s)" bt now i] scan_step(3) by simp
  ultimately show ?thesis using state_inv_loses [OF inv] scan_step(1) by simp
next
  case (drop_step seq)
  moreover have "placed (drop_nack seq (the_buf s))" using inv by (intro placed_drop_nack) (simp add: state_inv_def)
  ultimately show ?thesis using state_inv_loses [OF inv loses_steps(4)] by simp
qed

lemma rx_reachable_inv: "rx_reachable stale sent s \<Longrightarrow> state_inv stale sent s"
  unfolding rx_reachable_def
proof (elim exE)
  fix now
  assume "(rx_step stale sent)\<^sup>*\<^sup>* (rx_init now) s"
  then show "state_inv stale sent s"
    by (induction rule: rtranclp_induct) (auto intro: rx_init_inv rx_step_inv)
qed

end
