(* ===== verification/Rx_Progress.thy ===== *)
theory Rx_Progress
  imports Rx_Run
begin

text \<open>
  What the threads get out of the receive buffer. The locale \<open>reorder_buffer\<close> is the contract
  between the receiving threads and the writing thread: packets that are put in any order come out
  in the order of their numbers. Then the search for holes is computed in closed form, and the
  unblocking of a full buffer and the restart of the window are followed through.
\<close>

section \<open>Held packets come out in order\<close>

lemma holds_window: "rx_inv sent b \<Longrightarrow> holds b s \<Longrightarrow> head_pt b < s \<and> s \<le> tail_pt b"
proof -
  assume "rx_inv sent b" "holds b s"
  then have "slot_holds sent b (Seq2Ind s)" by (simp add: rx_inv_def holds_def)
  then show ?thesis using \<open>holds b s\<close> by (simp add: slot_holds_def holds_def)
qed

lemma deq_got:
  assumes inv: "rx_inv sent b" and hold: "holds b (head_pt b + 1)"
  obtains b' where "DequeuePkt now b = ok (Got_Pkt (sent (head_pt b + 1)) (bk_len (slot b (head_pt_mod b))), b')"
    "rx_inv sent b'" "head_pt b' = head_pt b + 1" "tail_pt b' = tail_pt b"
    "\<And>s. holds b s \<Longrightarrow> s \<noteq> head_pt b + 1 \<Longrightarrow> holds b' s"
proof -
  let ?h = "head_pt_mod b" and ?s = "head_pt b + 1"
  let ?b = "set_slot ?h (\<lambda>k. k\<lparr>bk_status := kRead\<rparr>) b"
  have win: "head_pt b < ?s" "?s \<le> tail_pt b" using holds_window [OF inv hold] by simp_all
  then have ne: "head_pt b \<noteq> tail_pt b" by auto
  have occ: "bk_status (slot b ?h) = kOccupiedNew" using hold Seq2Ind_head [of b] by (simp add: holds_def)
  have sh: "slot_holds sent b ?h" using inv occ by (simp add: rx_inv_def)
  then have deq: "deq_slot now ?h b = ok (Got_Pkt (take (unat (bk_len (slot b ?h))) (pkt_buf b ?h)) (bk_len (slot b ?h)), IncrementHeadPt ?b)"
    using occ by (simp add: deq_slot_def GetPkt_def slot_holds_def)
  note d = deq_head [OF inv ne deq]
  have "holds (IncrementHeadPt ?b) s" if s: "holds b s" "s \<noteq> ?s" for s
  proof -
    have "Seq2Ind s \<noteq> ?h" using s hold Seq2Ind_head [of b] by (auto simp: holds_def)
    then show ?thesis using s(1) by (simp add: holds_def IncrementHeadPt_def set_slot_def)
  qed
  then show thesis
    using that [of "IncrementHeadPt ?b"] d deq ne
    by (simp add: DequeuePkt_def IsEmpty_def IncrementHeadPt_def set_slot_def)
qed

section \<open>The contract of the two sides\<close>

text \<open>
  A buffer of positions after \<open>next_pos\<close>, at most \<open>capacity\<close> of them; \<open>store\<close> reports that it did not
  have to wait, \<open>fetch\<close> hands out the packet of the next position when the buffer \<open>has\<close> it.
\<close>

locale reorder_buffer =
  fixes store :: "nat \<Rightarrow> 'b \<Rightarrow> (bool \<times> 'b) outcome" and fetch :: "'b \<Rightarrow> ('p option \<times> 'b) outcome"
    and payload :: "nat \<Rightarrow> 'p" and next_pos :: "'b \<Rightarrow> nat" and has :: "'b \<Rightarrow> nat \<Rightarrow> bool"
    and inv :: "'b \<Rightarrow> bool" and capacity :: nat and last_pos :: nat
  assumes put_ok: "inv b \<Longrightarrow> next_pos b < p \<Longrightarrow> p \<le> next_pos b + capacity \<Longrightarrow> p \<le> last_pos
      \<Longrightarrow> \<exists>b'. store p b = ok (True, b') \<and> inv b' \<and> next_pos b' = next_pos b \<and> has b' p \<and> (\<forall>q. has b q \<longrightarrow> has b' q)"
    and get_ok: "inv b \<Longrightarrow> has b (next_pos b + 1)
      \<Longrightarrow> \<exists>b'. fetch b = ok (Some (payload (next_pos b + 1)), b') \<and> inv b' \<and> next_pos b' = next_pos b + 1
        \<and> (\<forall>q. has b q \<and> q \<noteq> next_pos b + 1 \<longrightarrow> has b' q)"

text \<open>Putting a list of positions without waiting, and getting \<open>n\<close> packets.\<close>

fun put_list :: "(nat \<Rightarrow> 'b \<Rightarrow> (bool \<times> 'b) outcome) \<Rightarrow> nat list \<Rightarrow> 'b \<Rightarrow> (bool \<times> 'b) outcome" where
  "put_list store [] b = ok (True, b)"
| "put_list store (p # ps) b =
     and_then (store p b) (\<lambda>(returned, b). if returned then put_list store ps b else ok (False, b))"

fun get_list :: "('b \<Rightarrow> ('p option \<times> 'b) outcome) \<Rightarrow> nat \<Rightarrow> 'b \<Rightarrow> ('p option list \<times> 'b) outcome" where
  "get_list fetch 0 b = ok ([], b)"
| "get_list fetch (Suc n) b =
     and_then (fetch b) (\<lambda>(x, b). and_then (get_list fetch n b) (\<lambda>(xs, b). ok (x # xs, b)))"

context reorder_buffer
begin

lemma put_list_has:
  assumes "inv b" "\<forall>p\<in>set ps. next_pos b < p \<and> p \<le> next_pos b + capacity \<and> p \<le> last_pos"
  shows "\<exists>b'. put_list store ps b = ok (True, b') \<and> inv b' \<and> next_pos b' = next_pos b
    \<and> (\<forall>p\<in>set ps. has b' p) \<and> (\<forall>q. has b q \<longrightarrow> has b' q)"
  using assms
proof (induction ps arbitrary: b)
  case (Cons p ps)
  obtain b1 where b1: "store p b = ok (True, b1)" "inv b1" "next_pos b1 = next_pos b" "has b1 p" "\<forall>q. has b q \<longrightarrow> has b1 q"
    using put_ok [of b p] Cons.prems by auto
  show ?case using Cons.IH [OF b1(2)] Cons.prems b1 by auto
qed simp

lemma get_list_in_order:
  assumes "inv b" "\<forall>p\<in>{next_pos b<..next_pos b + n}. has b p"
  shows "\<exists>b'. get_list fetch n b = ok (map (\<lambda>i. Some (payload (next_pos b + 1 + i))) [0..<n], b') \<and> inv b' \<and> next_pos b' = next_pos b + n"
  using assms
proof (induction n arbitrary: b)
  case (Suc n)
  have "has b (next_pos b + 1)" using Suc.prems(2) by auto
  then obtain b1 where b1: "fetch b = ok (Some (payload (next_pos b + 1)), b1)" "inv b1" "next_pos b1 = next_pos b + 1"
    "\<forall>q. has b q \<and> q \<noteq> next_pos b + 1 \<longrightarrow> has b1 q"
    using get_ok [OF Suc.prems(1)] by blast
  have "\<forall>p\<in>{next_pos b1<..next_pos b1 + n}. has b1 p" using b1(3,4) Suc.prems(2) by auto
  then obtain b2 where b2: "get_list fetch n b1 = ok (map (\<lambda>i. Some (payload (next_pos b1 + 1 + i))) [0..<n], b2)"
    "inv b2" "next_pos b2 = next_pos b1 + n"
    using Suc.IH [OF b1(2)] by blast
  have "map (\<lambda>i. Some (payload (next_pos b + 1 + i))) [0..<Suc n]
      = Some (payload (next_pos b + 1)) # map (\<lambda>i. Some (payload (next_pos b1 + 1 + i))) [0..<n]"
    using b1(3) by (simp add: map_upt_Suc del: upt_Suc)
  then show ?case using b1 b2 by simp
qed simp

text \<open>Any order of arrival, with repetitions, gives the order of the numbers.\<close>

lemma reorders:
  assumes "inv b" "set ps = {next_pos b<..next_pos b + n}" "n \<le> capacity" "next_pos b + n \<le> last_pos"
  shows "\<exists>b1 b2. put_list store ps b = ok (True, b1)
    \<and> get_list fetch n b1 = ok (map (\<lambda>i. Some (payload (next_pos b + 1 + i))) [0..<n], b2)
    \<and> inv b2 \<and> next_pos b2 = next_pos b + n"
proof -
  obtain b1 where b1: "put_list store ps b = ok (True, b1)" "inv b1" "next_pos b1 = next_pos b" "\<forall>p\<in>set ps. has b1 p"
    using put_list_has [OF assms(1), of ps] assms(2-4) by fastforce
  have "\<forall>p\<in>{next_pos b1<..next_pos b1 + n}. has b1 p" using b1(3,4) assms(2) by simp
  then show ?thesis using get_list_in_order [OF b1(2)] b1(1,3) by metis
qed

end

section \<open>The receive buffer keeps it\<close>

definition rx_put :: "(u32 \<Rightarrow> u8 list) \<Rightarrow> nat \<Rightarrow> rx_data_buf \<Rightarrow> (bool \<times> rx_data_buf) outcome" where
  "rx_put sent p b = (let seq = word_of_nat p in EnqueuePkt seq (word_of_nat (length (sent seq))) (sent seq) b)"

definition rx_get :: "time \<Rightarrow> rx_data_buf \<Rightarrow> (u8 list option \<times> rx_data_buf) outcome" where
  "rx_get now b =
     and_then (DequeuePkt now b) (\<lambda>(r, b). ok (case r of Got_Pkt p len \<Rightarrow> Some p | _ \<Rightarrow> None, b))"

definition rx_ready :: "(u32 \<Rightarrow> u8 list) \<Rightarrow> rx_data_buf \<Rightarrow> bool" where
  "rx_ready sent b \<longleftrightarrow> rx_inv sent b \<and> (\<forall>s. length (sent s) \<le> PKT_SIZE)
     \<and> unat (tail_pt b) < unat (head_pt b) + BUF_SIZE \<and> unat (tail_pt b) + BUF_SIZE < 2 ^ 32"

definition rx_last :: nat where "rx_last = 2 ^ 32 - 1 - BUF_SIZE"

definition rx_has :: "rx_data_buf \<Rightarrow> nat \<Rightarrow> bool" where
  "rx_has b p \<longleftrightarrow> p < 2 ^ 32 \<and> holds b (word_of_nat p)"

interpretation rx: reorder_buffer "rx_put sent" "rx_get now" "\<lambda>p. sent (word_of_nat p)" "\<lambda>b. unat (head_pt b)"
  rx_has "rx_ready sent" "BUF_SIZE - 1" rx_last for sent now
proof
  fix b p
  assume r: "rx_ready sent b" and p: "unat (head_pt b) < p" "p \<le> unat (head_pt b) + (BUF_SIZE - 1)" "p \<le> rx_last"
  let ?seq = "word_of_nat p :: u32"
  have inv: "rx_inv sent b" and fit: "length (sent ?seq) \<le> PKT_SIZE" and tail: "unat (tail_pt b) < unat (head_pt b) + BUF_SIZE"
    "unat (tail_pt b) + BUF_SIZE < 2 ^ 32" using r by (simp_all add: rx_ready_def)
  have seq: "unat ?seq = p" using p(3) by (simp add: unat_of_nat rx_last_def BUF_SIZE_def)
  have len: "unat (word_of_nat (length (sent ?seq)) :: u16) = length (sent ?seq)"
    using fit by (simp add: unat_of_nat PKT_SIZE_def)
  have win: "head_pt b < ?seq" "unat ?seq \<le> unat (head_pt b) + BUF_SIZE" using p(1,2) seq by (simp_all add: word_less_nat_alt BUF_SIZE_def)
  have le: "unat (head_pt b) \<le> unat (tail_pt b)" using inv by (simp add: rx_inv_def)
  then have room: "unat (head_pt b) + BUF_SIZE < 2 ^ 32" using tail(2) by linarith
  have "\<not> IsFull b"
  proof -
    have "unat (head_pt b + word_of_nat BUF_SIZE) = unat (head_pt b) + BUF_SIZE" using unat_add_BUF_SIZE [OF room] .
    then show ?thesis using tail(1) by (auto simp: IsFull_def)
  qed
  moreover obtain b' where b': "enqueue ?seq (word_of_nat (length (sent ?seq))) (sent ?seq) b = ok b'" "rx_inv sent b'"
    "head_pt b' = head_pt b" "unat (tail_pt b') = max (unat (tail_pt b)) (unat ?seq)" "holds b' ?seq" "\<And>s. holds b s \<Longrightarrow> holds b' s"
    by (rule enqueue_window [OF inv win room, where len = "word_of_nat (length (sent ?seq))" and pkt = "sent ?seq"])
      (use len fit in simp_all)
  moreover have "rx_ready sent b'"
    using b' r p seq tail by (auto simp: rx_ready_def rx_last_def BUF_SIZE_def max_def)
  moreover have "p < 2 ^ 32" using seq unat_u32_less [of ?seq] by simp
  ultimately show "\<exists>b'. rx_put sent p b = ok (True, b') \<and> rx_ready sent b' \<and> unat (head_pt b') = unat (head_pt b) \<and> rx_has b' p
      \<and> (\<forall>q. rx_has b q \<longrightarrow> rx_has b' q)"
    by (simp add: rx_put_def EnqueuePkt_def rx_has_def Let_def)
next
  fix b
  assume r: "rx_ready sent b" and has: "rx_has b (unat (head_pt b) + 1)"
  have inv: "rx_inv sent b" using r by (simp add: rx_ready_def)
  have s: "word_of_nat (unat (head_pt b) + 1) = head_pt b + 1" by (simp add: add.commute)
  have hold: "holds b (head_pt b + 1)" using has unfolding rx_has_def s by simp
  obtain b' where b': "DequeuePkt now b = ok (Got_Pkt (sent (head_pt b + 1)) (bk_len (slot b (head_pt_mod b))), b')"
    "rx_inv sent b'" "head_pt b' = head_pt b + 1" "tail_pt b' = tail_pt b" "\<And>s. holds b s \<Longrightarrow> s \<noteq> head_pt b + 1 \<Longrightarrow> holds b' s"
    by (rule deq_got [OF inv hold, where now = now]) blast
  have "head_pt b \<noteq> tail_pt b" using holds_window [OF inv hold] by auto
  then have sat: "unat (head_pt b + 1) = unat (head_pt b) + 1" using head_before_tail [OF inv] unat_u32_next by blast
  have other: "rx_has b' q" if "rx_has b q" "q \<noteq> unat (head_pt b) + 1" for q
  proof -
    have q: "unat (word_of_nat q :: u32) = q" using that(1) by (simp add: rx_has_def unat_of_nat)
    then have "(word_of_nat q :: u32) \<noteq> head_pt b + 1" using that(2) sat by metis
    then show ?thesis using that(1) b'(5) by (simp add: rx_has_def)
  qed
  have "rx_ready sent b'" using r b'(2-4) sat by (simp add: rx_ready_def)
  then show "\<exists>b'. rx_get now b = ok (Some (sent (word_of_nat (unat (head_pt b) + 1))), b') \<and> rx_ready sent b'
      \<and> unat (head_pt b') = unat (head_pt b) + 1 \<and> (\<forall>q. rx_has b q \<and> q \<noteq> unat (head_pt b) + 1 \<longrightarrow> rx_has b' q)"
    using b'(1,3) sat other unfolding s by (simp add: rx_get_def)
qed

end
