(* ===== verification/Rx_Nacks.thy ===== *)
theory Rx_Nacks
  imports Rx_Progress
begin

text \<open>
  The search for holes, \<open>FindNackSeqNum\<close>, in closed form: which numbers it reports, that the
  report is sorted and names no packet the buffer holds, and when its assertion fails.
\<close>

section \<open>The scan\<close>

text \<open>A position without a packet that is not given up yet.\<close>

definition open_hole :: "int \<Rightarrow> time \<Rightarrow> rx_data_buf \<Rightarrow> nat \<Rightarrow> bool" where
  "open_hole bt now b i \<longleftrightarrow> bk_status (slot b (i mod BUF_SIZE)) = kEmpty
     \<or> bk_status (slot b (i mod BUF_SIZE)) = kBlock \<and> time_minus now (timestamp (slot b (i mod BUF_SIZE))) \<le> bt * 1000"

lemma scan_slot_result:
  "scan_slot bt now i (ns, b) = (ns', b') \<Longrightarrow> slot b (i mod BUF_SIZE) = slot b0 (i mod BUF_SIZE)
    \<Longrightarrow> ns' = ns @ (if open_hole bt now b0 i then [word_of_nat (i + 1)] else [])"
  by (auto simp: scan_slot_def open_hole_def Let_def split: if_splits)

lemma scan_slot_other:
  "scan_slot bt now i (ns, b) = (ns', b') \<Longrightarrow> j \<noteq> i mod BUF_SIZE \<Longrightarrow> slot b' j = slot b j"
  by (auto simp: scan_slot_def Let_def set_slot_def split: if_splits)

lemma scan_range:
  assumes "h \<le> e" "e \<le> h + BUF_SIZE" "for_range h e (scan_slot bt now) ([], b) = (ns, b')"
  shows "ns = map word_of_nat (map Suc (filter (open_hole bt now b) [h..<e]))"
proof -
  let ?P = "\<lambda>n s. fst s = map (\<lambda>i. word_of_nat (i + 1)) (filter (open_hole bt now b) [h..<n])
    \<and> (\<forall>i\<in>{n..<e}. slot (snd s) (i mod BUF_SIZE) = slot b (i mod BUF_SIZE))"
  have "?P e (for_range h e (scan_slot bt now) ([], b))"
  proof (rule for_range_invariant [where P = ?P])
    fix i and s :: "u32 list \<times> rx_data_buf"
    assume i: "h \<le> i" "i < e" and P: "?P i s"
    obtain xs c where s: "s = (xs, c)" by (cases s)
    obtain xs' c' where step: "scan_slot bt now i (xs, c) = (xs', c')" by fastforce
    have "slot c (i mod BUF_SIZE) = slot b (i mod BUF_SIZE)" using P s i by simp
    then have "xs' = xs @ (if open_hole bt now b i then [word_of_nat (i + 1)] else [])"
      by (rule scan_slot_result [OF step])
    moreover have "slot c' (j mod BUF_SIZE) = slot b (j mod BUF_SIZE)" if j: "j \<in> {Suc i..<e}" for j
    proof -
      have "j mod BUF_SIZE \<noteq> i mod BUF_SIZE"
        using mod_window_unique [of j BUF_SIZE i h] j i assms(2) by auto
      then show ?thesis using scan_slot_other [OF step] P s j by simp
    qed
    ultimately show "?P (Suc i) (scan_slot bt now i s)" using P s i step by simp
  qed (use assms(1) in simp_all)
  then show ?thesis using assms(3) by (simp add: comp_def)
qed

lemma scan_keeps_held:
  assumes "for_range h e (scan_slot bt now) ([], b) = (ns, b')" "holds b s"
  shows "holds b' s"
proof -
  have *: "holds (snd (fold (scan_slot bt now) xs (ns, b))) s" if "holds b s" for xs ns b
    using that
  proof (induction xs arbitrary: ns b)
    case (Cons x xs)
    obtain ns1 b1 where s1: "scan_slot bt now x (ns, b) = (ns1, b1)" by fastforce
    then have "holds b1 s" using Cons.prems
      by (auto simp: scan_slot_def Let_def set_slot_def holds_def split: if_splits)
    then show ?case using Cons.IH s1 by simp
  qed simp
  show ?thesis using * [OF assms(2), of "[h..<e]" "[]"] assms(1) by simp
qed

section \<open>The report\<close>

definition nack_positions :: "int \<Rightarrow> time \<Rightarrow> rx_data_buf \<Rightarrow> u32 \<Rightarrow> u32 \<Rightarrow> nat list" where
  "nack_positions bt now b end_pt end_seq =
     map Suc (filter (open_hole bt now b) [unat (head_pt b)..<unat end_pt + 1]) @ [unat (tail_pt b + 1)..<unat end_seq + 1]"

lemma nack_positions_bounds:
  assumes "unat end_pt < unat (tail_pt b)" "unat (tail_pt b) + 1 < 2 ^ 32" "p \<in> set (nack_positions bt now b end_pt end_seq)"
  shows "unat (head_pt b) < p \<and> p \<le> unat (tail_pt b) \<and> open_hole bt now b (p - 1) \<or> unat (tail_pt b) < p \<and> p \<le> unat end_seq"
    "p < 2 ^ 32"
proof -
  have "unat (tail_pt b + 1) = unat (tail_pt b) + 1" using assms(2) unat_add_lem [of "tail_pt b" 1] by simp
  then show *: "unat (head_pt b) < p \<and> p \<le> unat (tail_pt b) \<and> open_hole bt now b (p - 1) \<or> unat (tail_pt b) < p \<and> p \<le> unat end_seq"
    using assms(1,3) by (auto simp: nack_positions_def)
  then show "p < 2 ^ 32" using unat_u32_less [of "tail_pt b"] unat_u32_less [of end_seq] by auto
qed

lemma sorted_nack_positions:
  assumes "unat end_pt < unat (tail_pt b)" "unat (tail_pt b) + 1 < 2 ^ 32"
  shows "sorted_wrt (<) (nack_positions bt now b end_pt end_seq)"
proof -
  have "unat (tail_pt b + 1) = unat (tail_pt b) + 1" using assms(2) unat_add_lem [of "tail_pt b" 1] by simp
  moreover have "sorted_wrt (<) (map Suc (filter (open_hole bt now b) [unat (head_pt b)..<unat end_pt + 1]))"
    unfolding sorted_wrt_map by (rule sorted_wrt_mono_rel [of _ "(<)"], simp) (rule sorted_wrt_filter, rule sorted_wrt_upt)
  ultimately show ?thesis using assms(1) by (auto simp: nack_positions_def sorted_wrt_append simp del: upt_Suc)
qed

lemma sorted_words:
  assumes "sorted_wrt (<) xs" "\<forall>x\<in>set xs. x < 2 ^ 32"
  shows "sorted_wrt (<) (map word_of_nat xs :: u32 list)"
proof -
  have "sorted_wrt (\<lambda>x y. (word_of_nat x :: u32) < word_of_nat y) xs"
    by (rule sorted_wrt_mono_rel [OF _ assms(1)]) (use assms(2) in \<open>simp add: word_less_nat_alt unat_of_nat\<close>)
  then show ?thesis by (simp add: sorted_wrt_map)
qed

lemma find_nacks_report:
  assumes inv: "rx_ok stale sent b" and end_pt: "end_pt < tail_pt b" "unat (head_pt b) \<le> unat end_pt + 1" and tail: "unat (tail_pt b) + 1 < 2 ^ 32"
    and few: "length (nack_positions bt now b end_pt end_seq) < mx"
  obtains b' where "find_nacks bt mx now (Scan_To end_pt end_seq) (head_pt b) (tail_pt b) b
      = ok ((map word_of_nat (nack_positions bt now b end_pt end_seq), end_seq), b')"
    "\<And>s. holds b s \<Longrightarrow> holds b' s" "loses b b'"
proof -
  obtain ns b' where f: "for_range (unat (head_pt b)) (unat end_pt + 1) (scan_slot bt now) ([], b) = (ns, b')" by fastforce
  have "unat end_pt + 1 \<le> unat (head_pt b) + BUF_SIZE"
    using inv end_pt(1) by (simp add: rx_ok_def word_less_nat_alt)
  then have "ns @ nacks_behind (tail_pt b) end_seq = map word_of_nat (nack_positions bt now b end_pt end_seq)"
    using scan_range [OF end_pt(2) _ f] by (simp add: nack_positions_def nacks_behind_def)
  moreover from this have "length ns + length (nacks_behind (tail_pt b) end_seq) < mx"
    using few by (metis length_append length_map)
  ultimately have r: "find_nacks bt mx now (Scan_To end_pt end_seq) (head_pt b) (tail_pt b) b
      = ok ((map word_of_nat (nack_positions bt now b end_pt end_seq), end_seq), b')"
    using f end_pt(1) by (simp add: find_nacks_def Let_def del: upt_Suc fold_append)
  then show thesis using that [OF r] scan_keeps_held [OF f] find_nacks_loses [OF r] by blast
qed

text \<open>No held packet is reported.\<close>

lemma hole_not_held:
  assumes "open_hole bt now b i" "i + 1 < 2 ^ 32"
  shows "\<not> holds b (word_of_nat (i + 1))"
proof -
  have "Seq2Ind (word_of_nat (i + 1)) = i mod BUF_SIZE" using assms(2) by (intro Seq2Ind_position) simp
  then show ?thesis using assms(1) by (auto simp: open_hole_def holds_def)
qed

lemma held_before_tail: "rx_ok stale sent b \<Longrightarrow> holds b s \<Longrightarrow> s \<le> tail_pt b"
proof -
  assume ok: "rx_ok stale sent b" and h: "holds b s"
  have "slot_holds sent b (Seq2Ind s) \<or> slot_stale sent b (Seq2Ind s)"
    using ok h mod_BUF_SIZE_less(3) [of s] unfolding rx_ok_def holds_def by blast
  then show ?thesis using h by (auto simp: slot_holds_def slot_stale_def holds_def)
qed

lemma nack_not_held:
  assumes inv: "rx_ok stale sent b" and end_pt: "unat end_pt < unat (tail_pt b)" and tail: "unat (tail_pt b) + 1 < 2 ^ 32"
    and p: "p \<in> set (nack_positions bt now b end_pt end_seq)"
  shows "\<not> holds b (word_of_nat p)"
  using nack_positions_bounds(1) [OF end_pt tail p]
proof
  assume h: "unat (head_pt b) < p \<and> p \<le> unat (tail_pt b) \<and> open_hole bt now b (p - 1)"
  then show ?thesis using hole_not_held [of bt now b "p - 1"] tail by simp
next
  assume h: "unat (tail_pt b) < p \<and> p \<le> unat end_seq"
  then have "unat (word_of_nat p :: u32) = p" using unat_u32_less [of end_seq] by (simp add: unat_of_nat)
  then show ?thesis using held_before_tail [OF inv, of "word_of_nat p"] h by (auto simp: word_le_nat_alt)
qed

section \<open>The plan\<close>

lemma nack_range_end:
  "nack_range head tail highest d = Scan_To end_pt end_seq \<Longrightarrow> end_pt < tail \<longleftrightarrow> tail \<noteq> 0"
proof -
  have pred: "x - 1 < x \<longleftrightarrow> x \<noteq> 0" for x :: u32
    by (cases "x = 0") (simp_all add: word_less_nat_alt unat_sub word_le_nat_alt unat_gt_0 Suc_le_eq)
  have low: "x - 1 < t" if "x \<noteq> 0" "x < t" for x t :: u32
    using that pred [of x] by simp
  assume "nack_range head tail highest d = Scan_To end_pt end_seq"
  then show ?thesis
    using pred [of tail] low [of highest tail] by (auto simp: nack_range_def split: if_splits)
qed

text \<open>The assertion fails exactly on a buffer that never got a packet, when there is something to report.\<close>

lemma find_nacks_aborts:
  "(\<exists>e. find_nacks bt mx now (nack_range head tail highest d) head tail b = abort e)
    \<longleftrightarrow> tail = 0 \<and> (d \<or> highest \<noteq> 0)"
proof (cases "nack_range head tail highest d")
  case (Only_End e)
  then show ?thesis by (auto simp: find_nacks_def nack_range_def split: if_splits)
next
  case (Scan_To p e)
  have "tail = 0 \<Longrightarrow> d \<or> highest \<noteq> 0" using Scan_To by (auto simp: nack_range_def split: if_splits)
  then show ?thesis using nack_range_end [OF Scan_To] Scan_To
    by (auto simp: find_nacks_def Let_def split: prod.splits if_splits)
qed

lemma FindNackSeqNum_wake_aborts:
  "(\<exists>e. FindNackSeqNum_wake bt mx now end_time bi prev b = abort e)
    \<longleftrightarrow> tail_pt b = 0 \<and> (case GetBatchInfo now bi of ((highest, d), bi') \<Rightarrow> d \<or> highest \<noteq> 0)"
proof -
  obtain highest d bi' where g: "GetBatchInfo now bi = ((highest, d), bi')" by (metis prod.exhaust)
  have "(\<exists>e. FindNackSeqNum_wake bt mx now end_time bi prev b = abort e)
      \<longleftrightarrow> (\<exists>e. find_nacks bt mx end_time (nack_range (head_pt b) (tail_pt b) highest d) (head_pt b) (tail_pt b) b = abort e)"
    using g by (simp add: FindNackSeqNum_wake_def Let_def and_then_def split: sum.splits prod.splits)
  then show ?thesis using find_nacks_aborts [of bt mx end_time "head_pt b" "tail_pt b" highest d b] g by simp
qed

text \<open>The last position of the search and the last number reported, of a buffer that got a packet.\<close>

definition scans :: "u32 \<Rightarrow> u32 \<Rightarrow> u32 \<Rightarrow> bool \<Rightarrow> bool" where
  "scans head tail highest d \<longleftrightarrow> d \<or> highest \<noteq> 0 \<and> (tail \<le> highest \<or> head < highest)"

definition scan_last :: "u32 \<Rightarrow> u32 \<Rightarrow> bool \<Rightarrow> u32" where
  "scan_last tail highest d = (if d \<or> tail \<le> highest then tail else highest)"

definition scan_end :: "u32 \<Rightarrow> u32 \<Rightarrow> bool \<Rightarrow> u32" where
  "scan_end tail highest d = (if d \<and> highest < tail then tail else highest)"

lemma nack_range_scans:
  "nack_range head tail highest d
    = (if scans head tail highest d then Scan_To (scan_last tail highest d - 1) (scan_end tail highest d) else Only_End highest)"
proof -
  have "head > highest - 1 \<longleftrightarrow> \<not> head < highest" if "highest \<noteq> 0"
  proof -
    have "unat (highest - 1) + 1 = unat highest" using that
      by (simp add: unat_sub word_le_nat_alt unat_gt_0 Suc_le_eq)
    then show ?thesis by (auto simp: word_less_nat_alt)
  qed
  then show ?thesis by (auto simp: nack_range_def scans_def scan_last_def scan_end_def not_less)
qed

lemma scan_last_bounds:
  assumes "tail \<noteq> 0" "scans head tail highest d" "head \<le> tail"
  shows "scan_last tail highest d \<le> tail" "0 < unat (scan_last tail highest d)" "head \<le> scan_last tail highest d"
proof -
  show "scan_last tail highest d \<le> tail" by (auto simp: scan_last_def)
  have "scan_last tail highest d \<noteq> 0" using assms by (auto simp: scan_last_def scans_def split: if_splits)
  then show "0 < unat (scan_last tail highest d)" by (simp add: unat_gt_0)
  show "head \<le> scan_last tail highest d" using assms(2,3) by (auto simp: scan_last_def scans_def split: if_splits)
qed

text \<open>The numbers of the report: the open holes up to \<open>scan_last\<close> and what is behind the tail up to \<open>scan_end\<close>.\<close>

definition hole_numbers :: "int \<Rightarrow> time \<Rightarrow> rx_data_buf \<Rightarrow> u32 \<Rightarrow> bool \<Rightarrow> nat list" where
  "hole_numbers bt now b highest d =
     (if scans (head_pt b) (tail_pt b) highest d
      then map Suc (filter (open_hole bt now b) [unat (head_pt b)..<unat (scan_last (tail_pt b) highest d)])
        @ [unat (tail_pt b) + 1..<unat (scan_end (tail_pt b) highest d) + 1]
      else [])"

lemma hole_numbers_positions:
  assumes ok: "rx_ok stale sent b" and tail: "tail_pt b \<noteq> 0" "unat (tail_pt b) + 1 < 2 ^ 32" and "scans (head_pt b) (tail_pt b) highest d"
  defines "p \<equiv> scan_last (tail_pt b) highest d - 1"
  shows "hole_numbers bt now b highest d = nack_positions bt now b p (scan_end (tail_pt b) highest d)"
    "p < tail_pt b" "unat (head_pt b) \<le> unat p + 1"
proof -
  have "head_pt b \<le> tail_pt b" using ok by (simp add: rx_ok_def word_le_nat_alt)
  note last = scan_last_bounds [OF tail(1) assms(4) this]
  have pred: "unat p + 1 = unat (scan_last (tail_pt b) highest d)"
    using last(2) by (simp add: p_def unat_sub word_le_nat_alt Suc_le_eq)
  have "unat (tail_pt b + 1) = unat (tail_pt b) + 1" using tail(2) unat_add_lem [of "tail_pt b" 1] by simp
  then show "hole_numbers bt now b highest d = nack_positions bt now b p (scan_end (tail_pt b) highest d)"
    using assms(4) pred by (simp add: hole_numbers_def nack_positions_def)
  show "p < tail_pt b" "unat (head_pt b) \<le> unat p + 1"
    using last pred by (simp_all add: word_le_nat_alt word_less_nat_alt)
qed

section \<open>Too many holes\<close>

lemma slot_fold_drop:
  "i \<notin> Seq2Ind ` set ss \<Longrightarrow> slot (fold drop_nack ss b) i = slot b i"
  "i \<in> Seq2Ind ` set ss \<Longrightarrow> bk_status (slot (fold drop_nack ss b) i) = kDrop"
proof -
  show other: "i \<notin> Seq2Ind ` set ss \<Longrightarrow> slot (fold drop_nack ss b) i = slot b i" for ss b
    by (induction ss arbitrary: b) (simp_all add: drop_nack_def set_slot_def)
  show "i \<in> Seq2Ind ` set ss \<Longrightarrow> bk_status (slot (fold drop_nack ss b) i) = kDrop"
  proof (induction ss arbitrary: b)
    case (Cons s ss)
    have "bk_status (slot (drop_nack s b) (Seq2Ind s)) = kDrop" by (simp add: drop_nack_def set_slot_def)
    then show ?case
      using other [of ss "drop_nack s b"] Cons by (cases "i \<in> Seq2Ind ` set ss") auto
  qed simp
qed

lemma held_slot_number:
  assumes "rx_ok stale sent b" "holds b s"
  obtains q where "Seq2Ind q = Seq2Ind s" "head_pt b < q" "q \<le> tail_pt b"
proof (cases "slot_holds sent b (Seq2Ind s)")
  case True
  then show thesis using that [of s] assms(2) by (simp add: slot_holds_def holds_def)
next
  case False
  then have "slot_stale sent b (Seq2Ind s)"
    using assms mod_BUF_SIZE_less(3) [of s] unfolding rx_ok_def holds_def by blast
  then have st: "Seq2Ind s = head_pt_mod b" "head_pt b < tail_pt b" by (simp_all add: slot_stale_def)
  then have "unat (head_pt b + 1) = unat (head_pt b) + 1" by (intro unat_u32_next) (simp add: word_less_nat_alt)
  then show thesis using that [of "head_pt b + 1"] st Seq2Ind_head [of b] by (simp add: word_less_nat_alt word_le_nat_alt)
qed

lemma find_nacks_overfull:
  assumes inv: "rx_ok stale sent b" and end_pt: "end_pt < tail_pt b" "unat (head_pt b) \<le> unat end_pt + 1" and tail: "unat (tail_pt b) + 1 < 2 ^ 32"
    and many: "length (nack_positions bt now b end_pt end_seq) \<ge> mx" and last: "unat end_seq \<le> unat (head_pt b) + BUF_SIZE"
  obtains b' where "find_nacks bt mx now (Scan_To end_pt end_seq) (head_pt b) (tail_pt b) b = ok (([], end_seq), b')"
    "\<And>p. p \<in> set (nack_positions bt now b end_pt end_seq) \<Longrightarrow> bk_status (slot b' (Seq2Ind (word_of_nat p))) = kDrop"
    "\<And>s. holds b s \<Longrightarrow> holds b' s"
proof -
  let ?ps = "nack_positions bt now b end_pt end_seq"
  let ?ss = "map word_of_nat ?ps :: u32 list"
  obtain ns b1 where f: "for_range (unat (head_pt b)) (unat end_pt + 1) (scan_slot bt now) ([], b) = (ns, b1)" by fastforce
  have lt: "unat end_pt < unat (tail_pt b)" using end_pt(1) by (simp add: word_less_nat_alt)
  have room: "unat (tail_pt b) \<le> unat (head_pt b) + BUF_SIZE" using inv by (simp add: rx_ok_def)
  have nacks: "ns @ nacks_behind (tail_pt b) end_seq = ?ss"
    using scan_range [OF end_pt(2) _ f] lt room by (simp add: nack_positions_def nacks_behind_def)
  define xs where "xs = ns @ nacks_behind (tail_pt b) end_seq"
  have len: "length xs \<ge> mx" using many arg_cong [OF nacks, of length] by (simp add: xs_def)
  then have r: "find_nacks bt mx now (Scan_To end_pt end_seq) (head_pt b) (tail_pt b) b = ok (([], end_seq), fold drop_nack xs b1)"
    using f end_pt(1) by (simp add: find_nacks_def Let_def xs_def del: upt_Suc fold_append)
  have drop: "bk_status (slot (fold drop_nack xs b1) (Seq2Ind (word_of_nat p))) = kDrop" if "p \<in> set ?ps" for p
    using that nacks by (intro slot_fold_drop(2)) (auto simp: xs_def)
  have keep: "holds (fold drop_nack xs b1) s" if s: "holds b s" for s
  proof -
    have occ: "bk_status (slot b (Seq2Ind s)) = kOccupiedNew" using s by (simp add: holds_def)
    obtain q where q: "Seq2Ind q = Seq2Ind s" "head_pt b < q" "q \<le> tail_pt b" by (rule held_slot_number [OF inv s])
    have win: "unat q \<le> unat (head_pt b) + BUF_SIZE" using q(3) room by (simp add: word_le_nat_alt)
    have "Seq2Ind s \<noteq> Seq2Ind (word_of_nat p)" if p: "p \<in> set ?ps" for p
    proof
      assume eq: "Seq2Ind s = Seq2Ind (word_of_nat p)"
      note bounds = nack_positions_bounds [OF lt tail p]
      have u: "unat (word_of_nat p :: u32) = p" using bounds(2) by (simp add: unat_of_nat)
      have "unat (head_pt b) \<le> unat (tail_pt b)" using inv by (simp add: rx_ok_def)
      then have "unat (head_pt b) < p" "p \<le> unat (head_pt b) + BUF_SIZE" using bounds(1) room last by auto
      then have above: "head_pt b < word_of_nat p" "unat (word_of_nat p :: u32) \<le> unat (head_pt b) + BUF_SIZE"
        unfolding word_less_nat_alt u by blast+
      have "q = word_of_nat p" by (rule Seq2Ind_window [OF _ q(2) above(1) win above(2)]) (simp only: q(1) eq)
      then have "p \<le> unat (tail_pt b)" using q(3) u by (simp add: word_le_nat_alt)
      then have hole: "open_hole bt now b (p - 1)" and p1: "p - 1 + 1 = p" "p - 1 < 2 ^ 32 - 1" using bounds by auto
      have "Seq2Ind (word_of_nat p) = (p - 1) mod BUF_SIZE" using Seq2Ind_position [OF p1(2)] unfolding p1(1) .
      then have "bk_status (slot b (Seq2Ind (word_of_nat p))) \<noteq> kOccupiedNew"
        using hole unfolding open_hole_def by auto
      then show False using occ eq by simp
    qed
    then have "Seq2Ind s \<notin> Seq2Ind ` set ?ss" by auto
    moreover have "set xs = set ?ss" using nacks by (simp only: xs_def)
    ultimately have "slot (fold drop_nack xs b1) (Seq2Ind s) = slot b1 (Seq2Ind s)" by (intro slot_fold_drop(1)) simp
    then show ?thesis using scan_keeps_held [OF f s] by (simp add: holds_def)
  qed
  show thesis using that [OF r drop keep] .
qed

end
