(* ===== verification/Rx_Blocking.thy ===== *)
theory Rx_Blocking
  imports Rx_Nacks
begin

text \<open>
  How the threads free each other on the receive buffer, and what the restart of the window does to
  packets that were not delivered yet.
\<close>

section \<open>An enqueue always ends its segment\<close>

lemma enqueue_total:
  assumes "unat len \<le> PKT_SIZE" "unat len \<le> length pkt"
  obtains b' where "enqueue seq len pkt b = ok b'"
proof -
  obtain b1 where "(if seq > head_pt b then store_in_slot seq len pkt b else ok b) = ok b1"
    using store_in_slot_eq [OF assms] by (cases "seq > head_pt b") auto
  then have "\<exists>b'. enqueue seq len pkt b = ok b'" by (simp add: enqueue_def Let_def)
  then show thesis using that by blast
qed

lemma enqueue_overlong:
  assumes "\<not> IsFull b" "seq > head_pt b" "bk_status (slot b (Seq2Ind seq)) \<noteq> kOccupiedNew" "unat len > PKT_SIZE"
  shows "EnqueuePkt seq len pkt b = abort Out_Of_Bounds"
  using assms by (simp add: EnqueuePkt_def enqueue_def store_in_slot_def StorePkt_def Let_def)

section \<open>A slot given up lets the writing thread go on\<close>

lemma slot_set_slot: "slot (set_slot i f b) j = (if j = i then f (slot b i) else slot b j)"
  by (simp add: set_slot_def)

lemma set_slot_points: "head_pt (set_slot i f b) = head_pt b" "tail_pt (set_slot i f b) = tail_pt b"
  by (simp_all add: set_slot_def)

lemma head_pt_mod_cong: "head_pt b = head_pt c \<Longrightarrow> head_pt_mod b = head_pt_mod c"
  by (simp add: head_pt_mod_def)

text \<open>The writing thread waits on the head's slot; whoever marks it \<open>kDrop\<close> makes it move on.\<close>

lemma dropped_head_moves:
  assumes "bk_status (slot b (head_pt_mod b)) = kDrop"
  shows "DequeuePkt_wake now (head_pt_mod b) b = ok (Gave_Up, IncrementHeadPt (clear_slot (head_pt_mod b) b))"
  using assms by (simp add: DequeuePkt_wake_def deq_slot_def)

lemma IncrementHeadPt_fill: "fill b \<noteq> 0 \<Longrightarrow> fill (IncrementHeadPt b) = fill b - 1"
proof -
  assume "fill b \<noteq> 0"
  then have "1 \<le> tail_pt b - head_pt b" by (simp add: fill_def word_le_nat_alt unat_gt_0 Suc_le_eq)
  then have "unat (tail_pt b - head_pt b - 1) = fill b - 1" by (simp add: fill_def unat_sub)
  moreover have "fill (IncrementHeadPt b) = unat (tail_pt b - head_pt b - 1)"
    by (simp add: fill_def IncrementHeadPt_def diff_diff_add)
  ultimately show ?thesis by simp
qed

lemma fill_clear [simp]: "fill (clear_slot i b) = fill b" "fill (set_slot i f b) = fill b"
  by (simp_all add: fill_def clear_slot_def set_slot_def)

lemma give_up_unblocks:
  assumes full: "IsFull b" and blocked: "bk_status (slot b (head_pt_mod b)) = kBlock"
    and len: "unat len \<le> PKT_SIZE" "unat len \<le> length pkt"
  obtains b1 b2 b3 where "EnqueuePkt seq len pkt b = ok (False, b1)"
    "DequeuePkt_wake now (head_pt_mod b) b1 = ok (Gave_Up, b2)" "EnqueuePkt seq len pkt b2 = ok (True, b3)"
proof -
  let ?h = "head_pt_mod b" and ?b1 = "give_up_head b"
  let ?b2 = "IncrementHeadPt (clear_slot ?h ?b1)"
  have b1: "bk_status (slot ?b1 ?h) = kDrop" "head_pt_mod ?b1 = ?h" "fill ?b1 = BUF_SIZE"
    using blocked full by (simp_all add: give_up_head_def slot_set_slot head_pt_mod_def set_slot_points IsFull_fill)
  have "DequeuePkt_wake now ?h ?b1 = ok (Gave_Up, ?b2)" using dropped_head_moves [of ?b1 now] b1 by simp
  moreover have "fill ?b2 = BUF_SIZE - 1" using IncrementHeadPt_fill [of "clear_slot ?h ?b1"] b1(3) by (simp add: BUF_SIZE_def)
  then have "\<not> IsFull ?b2" by (simp add: IsFull_fill BUF_SIZE_def)
  moreover obtain b3 where "enqueue seq len pkt ?b2 = ok b3" by (rule enqueue_total [OF len])
  ultimately show thesis using that [of ?b1 ?b2 b3] full by (simp add: EnqueuePkt_def)
qed

text \<open>The search of the acknowledging thread passes the head's slot first, and leaves it marked.\<close>

lemma drop_stays:
  "bk_status (slot b i) = kDrop \<Longrightarrow> bk_status (slot (drop_nack s b) i) = kDrop"
  "bk_status (slot b i) = kDrop \<Longrightarrow> bk_status (slot (snd (scan_slot bt now k (ns, b))) i) = kDrop"
  by (auto simp: drop_nack_def scan_slot_def slot_set_slot Let_def)

lemma drop_stays_fold:
  "bk_status (slot b i) = kDrop \<Longrightarrow> bk_status (slot (fold drop_nack ss b) i) = kDrop"
  "bk_status (slot b i) = kDrop \<Longrightarrow> bk_status (slot (snd (fold (scan_slot bt now) ks (ns, b))) i) = kDrop"
proof -
  show "bk_status (slot b i) = kDrop \<Longrightarrow> bk_status (slot (fold drop_nack ss b) i) = kDrop"
    by (induction ss arbitrary: b) (simp_all add: drop_stays)
  show "bk_status (slot b i) = kDrop \<Longrightarrow> bk_status (slot (snd (fold (scan_slot bt now) ks (ns, b))) i) = kDrop"
  proof (induction ks arbitrary: ns b)
    case (Cons k ks)
    obtain ns1 b1 where s: "scan_slot bt now k (ns, b) = (ns1, b1)" by fastforce
    then have "bk_status (slot b1 i) = kDrop" using drop_stays(2) [OF Cons.prems, of bt now k ns] by simp
    then show ?case using Cons.IH s by simp
  qed simp
qed

lemma scan_late_head:
  assumes "bk_status (slot b (head_pt_mod b)) = kBlock" "bt * 1000 < time_minus now (timestamp (slot b (head_pt_mod b)))"
  shows "\<exists>b1. scan_slot bt now (unat (head_pt b)) (ns, b) = (ns, b1) \<and> bk_status (slot b1 (head_pt_mod b)) = kDrop"
  using assms by (simp add: scan_slot_def Let_def head_pt_mod_def slot_set_slot)

lemma find_nacks_late_head:
  assumes blocked: "bk_status (slot b (head_pt_mod b)) = kBlock"
    and late: "bt * 1000 < time_minus now (timestamp (slot b (head_pt_mod b)))"
    and range: "head_pt b \<le> end_pt" "end_pt < tail_pt b" "unat (tail_pt b) \<le> unat (head_pt b) + BUF_SIZE"
      "unat (tail_pt b) + 1 < 2 ^ 32"
  shows "\<exists>nacks b1. find_nacks bt mx now (Scan_To end_pt end_seq) (head_pt b) (tail_pt b) b = ok ((nacks, end_seq), b1)
    \<and> head_pt b + 1 \<notin> set nacks \<and> loses b b1 \<and> bk_status (slot b1 (head_pt_mod b)) = kDrop"
proof -
  let ?h = "unat (head_pt b)" and ?e = "unat end_pt + 1"
  let ?ps = "nack_positions bt now b end_pt end_seq"
  have he: "?h < ?e" "?e \<le> unat (tail_pt b)" using range(1,2) by (simp_all add: word_le_nat_alt word_less_nat_alt)
  obtain ns b1 where f: "for_range ?h ?e (scan_slot bt now) ([], b) = (ns, b1)" by fastforce
  obtain c where c: "scan_slot bt now ?h ([], b) = ([], c)" "bk_status (slot c (head_pt_mod b)) = kDrop"
    using scan_late_head [OF blocked late] by blast
  have "b1 = snd (fold (scan_slot bt now) [Suc ?h..<?e] ([], c))"
    using f c(1) upt_conv_Cons [OF he(1)] by (simp del: upt_Suc)
  then have drop: "bk_status (slot b1 (head_pt_mod b)) = kDrop" using drop_stays_fold(2) [OF c(2)] by simp
  have nacks: "ns @ nacks_behind (tail_pt b) end_seq = map word_of_nat ?ps"
    using scan_range [OF _ _ f] he range(3) by (simp add: nack_positions_def nacks_behind_def)
  have lt: "unat end_pt < unat (tail_pt b)" using he by simp
  have "word_of_nat p \<noteq> head_pt b + 1" if p: "p \<in> set ?ps" for p
  proof -
    note bounds = nack_positions_bounds [OF lt range(4) p]
    have "\<not> open_hole bt now b ?h" using blocked late by (simp add: open_hole_def head_pt_mod_def)
    moreover have "?h + 1 \<le> unat (tail_pt b)" using he by simp
    ultimately have "p \<noteq> ?h + 1" using bounds(1) by auto
    moreover have "unat (head_pt b + 1) = ?h + 1" using unat_u32_next [of "head_pt b" "tail_pt b"] he by simp
    moreover have "unat (word_of_nat p :: u32) = p" using bounds(2) by (simp add: unat_of_nat)
    ultimately show ?thesis by metis
  qed
  then have fresh: "head_pt b + 1 \<notin> set (ns @ nacks_behind (tail_pt b) end_seq)" unfolding nacks set_map by (metis imageE)
  define xs where "xs = ns @ nacks_behind (tail_pt b) end_seq"
  have r: "find_nacks bt mx now (Scan_To end_pt end_seq) (head_pt b) (tail_pt b) b
      = ok ((if length xs \<ge> mx then [] else xs, end_seq), if length xs \<ge> mx then fold drop_nack xs b1 else b1)"
    using f range(2) by (simp add: find_nacks_def Let_def xs_def del: upt_Suc fold_append)
  have "head_pt b + 1 \<notin> set (if length xs \<ge> mx then [] else xs)" using fresh by (simp add: xs_def)
  then show ?thesis
    using r find_nacks_loses [OF r] drop drop_stays_fold(1) [OF drop, of xs] by (intro exI conjI) (assumption+, simp)
qed

text \<open>
  The whole search, and the woken writing thread: the search comes to the head when the batch is
  decoded or the head is before the end of the previous batch.
\<close>

lemma timeout_unblocks:
  assumes blocked: "bk_status (slot b (head_pt_mod b)) = kBlock"
    and late: "bt * 1000 < time_minus end_time (timestamp (slot b (head_pt_mod b)))"
    and window: "head_pt b < tail_pt b" "unat (tail_pt b) \<le> unat (head_pt b) + BUF_SIZE" "unat (tail_pt b) + 1 < 2 ^ 32"
    and info: "GetBatchInfo now bi = ((highest, d), bi')" and reach: "d \<or> head_pt b < highest"
  shows "\<exists>nacks end_seq prev' b1 b2. FindNackSeqNum bt mx now end_time bi prev b = ok (Nacks nacks end_seq, bi', prev', b1)
    \<and> head_pt b + 1 \<notin> set nacks \<and> loses b b1 \<and> bk_status (slot b1 (head_pt_mod b)) = kDrop
    \<and> DequeuePkt_wake now' (head_pt_mod b) b1 = ok (Gave_Up, b2) \<and> head_pt b2 = head_pt b + 1"
proof -
  let ?last = "scan_last (tail_pt b) highest d" and ?fin = "scan_end (tail_pt b) highest d"
  have t0: "tail_pt b \<noteq> 0" using window(1) by auto
  have "scans (head_pt b) (tail_pt b) highest d" using reach by (auto simp: scans_def)
  then have plan: "nack_range (head_pt b) (tail_pt b) highest d = Scan_To (?last - 1) ?fin"
    by (simp add: nack_range_scans)
  have last: "head_pt b < ?last" using reach window(1) by (auto simp: scan_last_def)
  then have pred: "unat (?last - 1) + 1 = unat ?last"
    by (simp add: unat_sub word_le_nat_alt word_less_nat_alt Suc_le_eq)
  have range: "head_pt b \<le> ?last - 1" "?last - 1 < tail_pt b"
    using last pred nack_range_end [OF plan] t0 by (simp_all add: word_le_nat_alt word_less_nat_alt)
  obtain nacks b1 where f: "find_nacks bt mx end_time (Scan_To (?last - 1) ?fin) (head_pt b) (tail_pt b) b = ok ((nacks, ?fin), b1)"
    "head_pt b + 1 \<notin> set nacks" "loses b b1" "bk_status (slot b1 (head_pt_mod b)) = kDrop"
    using find_nacks_late_head [OF blocked late range window(2,3)] by blast
  have "\<not> FindNack_waits bi prev b" using window(1) by (auto simp: FindNack_waits_def IsEmpty_def)
  then obtain prev' where find: "FindNackSeqNum bt mx now end_time bi prev b = ok (Nacks nacks ?fin, bi', prev', b1)"
    using info plan f(1) by (simp add: FindNackSeqNum_def FindNackSeqNum_wake_def Let_def)
  have h: "head_pt b1 = head_pt b" using f(3) by (simp add: loses_def)
  then have m: "head_pt_mod b1 = head_pt_mod b" by (rule head_pt_mod_cong)
  then have "DequeuePkt_wake now' (head_pt_mod b) b1 = ok (Gave_Up, IncrementHeadPt (clear_slot (head_pt_mod b) b1))"
    using dropped_head_moves [of b1 now'] f(4) by simp
  moreover have "head_pt (IncrementHeadPt (clear_slot (head_pt_mod b) b1)) = head_pt b + 1"
    using h by (simp add: IncrementHeadPt_def clear_slot_def set_slot_def)
  ultimately show ?thesis using find f(2-4) by blast
qed

section \<open>The restart over an undelivered packet\<close>

lemma enqueue_wrap_occupied:
  assumes seq: "unat (head_pt b) + BUF_SIZE < unat seq" and occ: "bk_status (slot b (Seq2Ind seq)) = kOccupiedNew"
    and len: "unat len \<le> PKT_SIZE" "unat len \<le> length pkt"
  shows "enqueue seq len pkt b = ok (restart_window seq b)"
proof -
  have "unat (head_pt b) + BUF_SIZE < 2 ^ 32" using seq unat_u32_less [of seq] by simp
  then have "seq > head_pt b" "seq > head_pt b + word_of_nat BUF_SIZE"
    using seq unat_add_BUF_SIZE by (simp_all add: word_less_nat_alt)
  then show ?thesis using occ store_in_slot_eq [OF len, of seq b] by (simp add: enqueue_def Let_def)
qed

text \<open>The old packet is handed out at the position of the new one, which is lost.\<close>

lemma stale_delivery:
  assumes inv: "rx_inv sent b" and seq: "unat (head_pt b) + BUF_SIZE < unat seq"
    and occ: "bk_status (slot b (Seq2Ind seq)) = kOccupiedNew" and len: "unat len \<le> PKT_SIZE" "unat len \<le> length pkt"
  obtains b1 b2 old n where "enqueue seq len pkt b = ok b1" "head_pt b1 + 1 = seq" "old < seq"
    "DequeuePkt now b1 = ok (Got_Pkt (sent old) n, b2)" "head_pt b2 = seq"
proof -
  let ?i = "Seq2Ind seq" and ?b1 = "restart_window seq b"
  let ?old = "bk_seq_num (slot b ?i)"
  note r = restart_window_fields [where seq = seq and b = b]
  have sh: "slot_holds sent b ?i" using inv occ by (simp add: rx_inv_def)
  have "unat ?old \<le> unat (tail_pt b)" "unat (tail_pt b) \<le> unat (head_pt b) + BUF_SIZE"
    using sh inv by (simp_all add: slot_holds_def rx_inv_def word_le_nat_alt)
  then have old: "?old < seq" using seq by (simp add: word_less_nat_alt)
  have h: "head_pt_mod ?b1 = ?i" using r(1) by (simp add: head_pt_mod_def Seq2Ind_def)
  have ne: "\<not> IsEmpty ?b1" using r(1,2) by (simp add: IsEmpty_def)
  have "GetPkt ?i (bk_len (slot b ?i)) ?b1 = ok (sent ?old)"
    using sh r(3) by (simp add: GetPkt_def slot_holds_def)
  then have "DequeuePkt now ?b1 = ok (Got_Pkt (sent ?old) (bk_len (slot b ?i)),
      IncrementHeadPt (set_slot ?i (\<lambda>k. k\<lparr>bk_status := kRead\<rparr>) ?b1))"
    using ne h occ r(4) by (simp add: DequeuePkt_def deq_slot_def)
  then show thesis
    using that [OF enqueue_wrap_occupied [OF seq occ len] _ old] r(1) by (simp add: IncrementHeadPt_def set_slot_points)
qed

end
