(* ===== verification/Ring_Queue.thy ===== *)
theory Ring_Queue
  imports Basic_Buf
begin

text \<open>
  \<open>AcquireTailLock\<close> and \<open>AcquireHeadLock\<close> of \<open>BasicBuf\<close> refine a bounded first-in first-out queue
  of slots. The locale \<open>slot_queue\<close> is that contract; its client lemma follows any interleaving of
  producers and consumers.
\<close>

section \<open>The contract\<close>

datatype ring_op = Acquire_Tail | Acquire_Head

record 'b ring_log =
  ring :: 'b
  produced :: "nat list"
  consumed :: "nat list"

definition ring_step ::
  "('b \<Rightarrow> (nat \<times> 'b) option) \<Rightarrow> ('b \<Rightarrow> (nat \<times> 'b) option) \<Rightarrow> ring_op \<Rightarrow> 'b ring_log \<Rightarrow> 'b ring_log" where
  "ring_step tail head op l =
     (case op of
        Acquire_Tail \<Rightarrow> (case tail (ring l) of None \<Rightarrow> l | Some (i, b) \<Rightarrow> l\<lparr>ring := b, produced := produced l @ [i]\<rparr>)
      | Acquire_Head \<Rightarrow> (case head (ring l) of None \<Rightarrow> l | Some (i, b) \<Rightarrow> l\<lparr>ring := b, consumed := consumed l @ [i]\<rparr>))"

definition ring_run ::
  "('b \<Rightarrow> (nat \<times> 'b) option) \<Rightarrow> ('b \<Rightarrow> (nat \<times> 'b) option) \<Rightarrow> ring_op list \<Rightarrow> 'b \<Rightarrow> 'b ring_log" where
  "ring_run tail head ops b = fold (ring_step tail head) ops \<lparr>ring = b, produced = [], consumed = []\<rparr>"

locale slot_queue =
  fixes tail head :: "'b \<Rightarrow> (nat \<times> 'b) option" and slots :: "'b \<Rightarrow> nat list" and inv :: "'b \<Rightarrow> bool" and capacity :: nat
  assumes tail_none: "inv b \<Longrightarrow> tail b = None \<longleftrightarrow> length (slots b) = capacity"
    and tail_some: "inv b \<Longrightarrow> tail b = Some (i, b') \<Longrightarrow> inv b' \<and> slots b' = slots b @ [i]"
    and head_none: "inv b \<Longrightarrow> head b = None \<longleftrightarrow> slots b = []"
    and head_some: "inv b \<Longrightarrow> head b = Some (i, b') \<Longrightarrow> inv b' \<and> slots b = i # slots b'"
    and bounded: "inv b \<Longrightarrow> length (slots b) \<le> capacity"
begin

lemma step_fifo:
  "inv (ring l) \<Longrightarrow> produced l = consumed l @ slots (ring l)
    \<Longrightarrow> inv (ring (ring_step tail head op l))
      \<and> produced (ring_step tail head op l) = consumed (ring_step tail head op l) @ slots (ring (ring_step tail head op l))"
  by (cases op) (auto simp: ring_step_def split: option.splits dest: tail_some head_some)

lemma run_fifo:
  assumes "inv b" "slots b = []"
  shows "inv (ring (ring_run tail head ops b))
    \<and> produced (ring_run tail head ops b) = consumed (ring_run tail head ops b) @ slots (ring (ring_run tail head ops b))"
  unfolding ring_run_def by (induction ops rule: rev_induct) (simp_all add: assms step_fifo)

end

section \<open>The ring buffer keeps it\<close>

text \<open>The slots of the positions from the head to the tail.\<close>

definition ring_slots :: "'a basic_buf_scheme \<Rightarrow> nat list" where
  "ring_slots b = map (\<lambda>k. unat (head_pt b + word_of_nat k) mod BUF_SIZE) [0..<fill b]"

lemma fill_IncrementTailPt: "\<not> IsFull b \<Longrightarrow> ring_inv b \<Longrightarrow> fill (IncrementTailPt b) = fill b + 1"
proof -
  assume "\<not> IsFull b" "ring_inv b"
  then have "unat (tail_pt b - head_pt b) < 5000" by (simp add: IsFull_fill ring_inv_def fill_def BUF_SIZE_def)
  then have "unat (tail_pt b - head_pt b + 1) = unat (tail_pt b - head_pt b) + 1"
    using unat_add_lem [of "tail_pt b - head_pt b" 1] by simp
  moreover have "fill (IncrementTailPt b) = unat (tail_pt b - head_pt b + 1)"
    by (simp add: fill_def IncrementTailPt_def algebra_simps)
  ultimately show ?thesis by (simp add: fill_def)
qed

lemma fill_IncrementHeadPt: "\<not> IsEmpty b \<Longrightarrow> fill (IncrementHeadPt b) + 1 = fill b"
proof -
  assume "\<not> IsEmpty b"
  then have ne: "fill b \<noteq> 0" by (simp add: IsEmpty_fill)
  then have "1 \<le> tail_pt b - head_pt b" by (simp add: fill_def word_le_nat_alt unat_gt_0 Suc_le_eq)
  then have "unat (tail_pt b - head_pt b - 1) = fill b - 1" by (simp add: fill_def unat_sub)
  moreover have "fill (IncrementHeadPt b) = unat (tail_pt b - head_pt b - 1)"
    by (simp add: fill_def IncrementHeadPt_def diff_diff_add)
  ultimately show ?thesis using ne by simp
qed

lemma AcquireTailLock_slots:
  assumes "ring_inv b" "AcquireTailLock b = Some (i, b')"
  shows "ring_inv b' \<and> ring_slots b' = ring_slots b @ [i]"
proof -
  have b': "\<not> IsFull b" "b' = IncrementTailPt b" "i = tail_pt_mod b"
    using assms(2) by (auto simp: AcquireTailLock_def split: if_splits)
  have f: "fill b' = fill b + 1" using fill_IncrementTailPt [OF b'(1) assms(1)] b'(2) by simp
  have "fill b < BUF_SIZE" using b'(1) assms(1) by (simp add: IsFull_fill ring_inv_def)
  moreover have "head_pt b' = head_pt b" using b'(2) by (simp add: IncrementTailPt_def)
  moreover have "head_pt b + word_of_nat (fill b) = tail_pt b" by (simp add: fill_def)
  ultimately show ?thesis using f b'(3) by (simp add: ring_inv_def ring_slots_def tail_pt_mod_def)
qed

lemma AcquireHeadLock_slots:
  assumes "ring_inv b" "AcquireHeadLock b = Some (i, b')"
  shows "ring_inv b' \<and> ring_slots b = i # ring_slots b'"
proof -
  have b': "\<not> IsEmpty b" "b' = IncrementHeadPt b" "i = head_pt_mod b"
    using assms(2) by (auto simp: AcquireHeadLock_def split: if_splits)
  have f: "fill b = Suc (fill b')" using fill_IncrementHeadPt [OF b'(1)] b'(2) by simp
  have "head_pt b' = head_pt b + 1" using b'(2) by (simp add: IncrementHeadPt_def)
  then have "ring_slots b = i # ring_slots b'"
    using b'(3) unfolding ring_slots_def f by (simp add: map_upt_Suc head_pt_mod_def add.assoc del: upt_Suc)
  then show ?thesis using f assms(1) by (simp add: ring_inv_def)
qed

lemma length_ring_slots: "length (ring_slots b) = fill b"
  by (simp add: ring_slots_def)

interpretation ringq: slot_queue AcquireTailLock AcquireHeadLock ring_slots ring_inv BUF_SIZE
proof
  fix b :: "'a basic_buf_scheme"
  assume inv: "ring_inv b"
  show "AcquireTailLock b = None \<longleftrightarrow> length (ring_slots b) = BUF_SIZE"
    by (simp add: AcquireTailLock_def IsFull_fill length_ring_slots)
  show "AcquireHeadLock b = None \<longleftrightarrow> ring_slots b = []"
    using length_ring_slots [of b] by (auto simp: AcquireHeadLock_def IsEmpty_fill)
  show "length (ring_slots b) \<le> BUF_SIZE" using inv by (simp add: ring_inv_def length_ring_slots)
qed (use AcquireTailLock_slots AcquireHeadLock_slots in blast)+

text \<open>Up to the end of the positions of \<open>uint32\<close>, no slot is handed out twice.\<close>

lemma distinct_ring_slots:
  assumes "ring_inv b" "unat (head_pt b) + fill b \<le> 2 ^ 32"
  shows "distinct (ring_slots b)"
proof -
  have pos: "unat (head_pt b + word_of_nat k) = unat (head_pt b) + k" if "k < fill b" for k
  proof -
    have "unat (word_of_nat k :: u32) = k" using that assms(2) by (simp add: unat_of_nat)
    then show ?thesis using unat_add_lem [of "head_pt b" "word_of_nat k"] that assms(2) by simp
  qed
  have "inj_on (\<lambda>k. unat (head_pt b + word_of_nat k) mod BUF_SIZE) {0..<fill b}"
  proof (rule inj_onI)
    fix x y
    assume xy: "x \<in> {0..<fill b}" "y \<in> {0..<fill b}"
      and eq: "unat (head_pt b + word_of_nat x) mod BUF_SIZE = unat (head_pt b + word_of_nat y) mod BUF_SIZE"
    have "(unat (head_pt b) + x) mod BUF_SIZE = (unat (head_pt b) + y) mod BUF_SIZE"
      using eq pos xy by simp
    then have "unat (head_pt b) + x = unat (head_pt b) + y"
      by (rule mod_window_unique [where h = "unat (head_pt b)"]) (use xy assms(1) in \<open>simp_all add: ring_inv_def\<close>)
    then show "x = y" by simp
  qed
  then show ?thesis by (simp add: ring_slots_def distinct_map)
qed

end
