(* ===== verification/Raw_Buf.thy ===== *)
theory Raw_Buf
  imports Prelude
begin

text \<open>
  Class \<open>RxRawBuf\<close> of \<open>src/wspace_asym_util.h\<close>: the receiver's record of raw packets. The
  receiving thread calls \<open>PushPkts\<close> with the sequence number of each packet, the acknowledging
  thread collects the holes with \<open>PopPktStatus\<close>. Both hold the object's lock from begin to end, so
  a run is a sequence of these calls, from the value \<open>c\<close> of \<open>max_send_cnt\<close> that the constructor
  (1) or option \<open>-A\<close> leaves. The main result: over any run without an overflow, every missing number
  is reported \<open>max_reports c\<close> times.
\<close>

section \<open>State and operations\<close>

definition kMaxBufSize :: u32 where "kMaxBufSize = 500"

record raw_status =
  rs_seq :: u32
  send_cnt :: u8

record raw_buf =
  nack_deq :: "raw_status list"
  rb_end_seq :: u32
  max_send_cnt :: u8
  pkt_cnt :: u32

definition RxRawBuf :: raw_buf where
  "RxRawBuf = \<lparr>nack_deq = [], rb_end_seq = 0, max_send_cnt = 1, pkt_cnt = 0\<rparr>"

definition set_max_send_cnt :: "u8 \<Rightarrow> raw_buf \<Rightarrow> raw_buf" where
  "set_max_send_cnt c b = b\<lparr>max_send_cnt := c\<rparr>"

definition raw_IsEmpty :: "raw_buf \<Rightarrow> bool" where
  "raw_IsEmpty b \<longleftrightarrow> pkt_cnt b = 0"

text \<open>The loop \<open>for (i = end_seq_+1; i < cur_seq; i++)\<close>; \<open>end_seq_ < cur_seq\<close>, so \<open>i\<close> does not wrap.\<close>

definition gap :: "u32 \<Rightarrow> u32 \<Rightarrow> u32 list" where
  "gap end_seq cur_seq = map word_of_nat [unat end_seq + 1..<unat cur_seq]"

definition PushPkts :: "u32 \<Rightarrow> bool \<Rightarrow> raw_buf \<Rightarrow> bool \<times> raw_buf" where
  "PushPkts cur_seq is_cur_good b =
     (if cur_seq \<le> rb_end_seq b then (False, b)
      else
        let b = (if cur_seq - rb_end_seq b \<le> kMaxBufSize - pkt_cnt b
                 then b\<lparr>nack_deq := nack_deq b @ map (\<lambda>i. \<lparr>rs_seq = i, send_cnt = 0\<rparr>) (gap (rb_end_seq b) cur_seq),
                        pkt_cnt := pkt_cnt b + (cur_seq - rb_end_seq b)\<rparr>
                 else b\<lparr>nack_deq := [], pkt_cnt := 1\<rparr>);
            b = (if \<not> is_cur_good then b\<lparr>nack_deq := nack_deq b @ [\<lparr>rs_seq = cur_seq, send_cnt = 0\<rparr>]\<rparr> else b)
        in (True, b\<lparr>rb_end_seq := cur_seq\<rparr>))"

text \<open>
  \<open>PopPktStatus\<close> waits while fewer than \<open>min_pkt_cnt\<close> packets are recorded: \<open>None\<close>. Otherwise the
  results are \<open>seq_vec\<close>, \<open>good_seq\<close> and \<open>num_pkts\<close>.
\<close>

definition count_send :: "raw_status \<Rightarrow> raw_status" where
  "count_send s = s\<lparr>send_cnt := send_cnt s + 1\<rparr>"

definition PopPktStatus :: "u32 \<Rightarrow> raw_buf \<Rightarrow> ((u32 list \<times> u32 \<times> u16) \<times> raw_buf) option" where
  "PopPktStatus min_pkt_cnt b =
     (if pkt_cnt b < min_pkt_cnt then None
      else
        let seq_vec = map rs_seq (nack_deq b);
            deq = map count_send (nack_deq b);
            deq = dropWhile (\<lambda>s. send_cnt s = max_send_cnt b) deq
        in Some ((seq_vec, rb_end_seq b, ucast (pkt_cnt b)), b\<lparr>nack_deq := deq, pkt_cnt := 0\<rparr>))"

section \<open>The holes between two numbers\<close>

lemma word_of_nat_less_unat: "n < unat (c :: u32) \<Longrightarrow> unat (word_of_nat n :: u32) = n"
proof -
  assume n: "n < unat c"
  have "unat c < 4294967296" using unsigned_less [of c] by simp
  then show ?thesis using n by (simp add: unat_of_nat)
qed

lemma set_gap: "set (gap e c) = {s. e < s \<and> s < c}"
proof (intro set_eqI iffI)
  fix s assume "s \<in> set (gap e c)"
  then obtain n where n: "s = word_of_nat n" "unat e < n" "n < unat c" by (auto simp: gap_def)
  then have "unat s = n" using word_of_nat_less_unat by simp
  then show "s \<in> {s. e < s \<and> s < c}" using n by (simp add: word_less_nat_alt)
next
  fix s assume "s \<in> {s. e < s \<and> s < c}"
  then have "unat s \<in> {unat e + 1..<unat c}" by (simp add: word_less_nat_alt)
  then have "word_of_nat (unat s) \<in> set (gap e c)" unfolding gap_def by (simp only: set_map set_upt image_eqI)
  then show "s \<in> set (gap e c)" by simp
qed

lemma length_gap: "length (gap e c) = unat c - unat e - 1"
  by (simp add: gap_def)

lemma distinct_gap: "distinct (gap e c)"
proof -
  have "inj_on (word_of_nat :: nat \<Rightarrow> u32) {unat e + 1..<unat c}"
    by (rule inj_onI) (metis atLeastLessThan_iff word_of_nat_less_unat)
  then show ?thesis by (simp add: gap_def distinct_map)
qed

section \<open>Capacity\<close>

text \<open>
  How often a number is reported before it is removed: the 8-bit counter is compared after its
  increment, so that 0 stands for 256.
\<close>

definition max_reports :: "u8 \<Rightarrow> nat" where
  "max_reports c = unat (c - 1) + 1"

lemma max_reports_one [simp]: "max_reports 1 = 1"
  by (simp add: max_reports_def)

lemma max_reports_pos: "0 < max_reports c"
  by (simp add: max_reports_def)

text \<open>
  Between two collections at most \<open>kMaxBufSize\<close> packets are counted. The entries are sorted by the
  number of their reports, which is below \<open>max_send_cnt\<close>.
\<close>

definition raw_inv :: "raw_buf \<Rightarrow> bool" where
  "raw_inv b \<longleftrightarrow> unat (pkt_cnt b) \<le> 500 \<and> sorted_wrt (\<lambda>s t. send_cnt t \<le> send_cnt s) (nack_deq b)
     \<and> (\<forall>s\<in>set (nack_deq b). send_cnt s \<le> max_send_cnt b - 1 \<and> rs_seq s \<le> rb_end_seq b)"

lemma room_unat:
  assumes "e < (c :: u32)" "c - e \<le> kMaxBufSize - cnt" "unat cnt \<le> 500"
  shows "unat (c - e) = unat c - unat e" "unat c - unat e + unat cnt \<le> 500"
    "unat (cnt + (c - e)) = unat cnt + (unat c - unat e)"
proof -
  have le: "e \<le> c" using assms(1) by simp
  show d: "unat (c - e) = unat c - unat e" using le by (simp add: unat_sub)
  have "cnt \<le> kMaxBufSize" using assms(3) by (simp add: kMaxBufSize_def word_le_nat_alt)
  then have "unat (kMaxBufSize - cnt) = 500 - unat cnt" by (simp add: unat_sub kMaxBufSize_def)
  then show le5: "unat c - unat e + unat cnt \<le> 500"
    using assms(2,3) d by (simp add: word_le_nat_alt)
  then show "unat (cnt + (c - e)) = unat cnt + (unat c - unat e)"
    using unat_add_lem [of cnt "c - e"] d by simp
qed

abbreviation fresh_status :: "u32 \<Rightarrow> raw_status" where "fresh_status i \<equiv> \<lparr>rs_seq = i, send_cnt = 0\<rparr>"

lemma PushPkts_fits:
  assumes "rb_end_seq b < cur" "cur - rb_end_seq b \<le> kMaxBufSize - pkt_cnt b"
  shows "PushPkts cur good b = (True, b\<lparr>nack_deq := nack_deq b @ map fresh_status (gap (rb_end_seq b) cur @ (if good then [] else [cur])),
    pkt_cnt := pkt_cnt b + (cur - rb_end_seq b), rb_end_seq := cur\<rparr>)"
  using assms by (simp add: PushPkts_def Let_def)

lemma PushPkts_overflow:
  assumes "rb_end_seq b < cur" "\<not> cur - rb_end_seq b \<le> kMaxBufSize - pkt_cnt b"
  shows "PushPkts cur good b = (True, b\<lparr>nack_deq := (if good then [] else [fresh_status cur]), pkt_cnt := 1, rb_end_seq := cur\<rparr>)"
  using assms by (simp add: PushPkts_def Let_def)

lemma PushPkts_inv:
  assumes inv: "raw_inv b" and push: "PushPkts cur good b = (r, b')"
  shows "raw_inv b'"
proof (cases "cur \<le> rb_end_seq b")
  case True
  then show ?thesis using inv push by (simp add: PushPkts_def)
next
  case False
  then have less: "rb_end_seq b < cur" by simp
  show ?thesis
  proof (cases "cur - rb_end_seq b \<le> kMaxBufSize - pkt_cnt b")
    case True
    have cnt: "unat (pkt_cnt b) \<le> 500" using inv by (simp add: raw_inv_def)
    let ?new = "map fresh_status (gap (rb_end_seq b) cur @ (if good then [] else [cur]))"
    have b': "b' = b\<lparr>nack_deq := nack_deq b @ ?new, pkt_cnt := pkt_cnt b + (cur - rb_end_seq b), rb_end_seq := cur\<rparr>"
      using push PushPkts_fits [OF less True, of good] by simp
    have fresh: "\<forall>s\<in>set ?new. send_cnt s = 0 \<and> rs_seq s \<le> cur" by (auto simp: set_gap)
    have "sorted_wrt (\<lambda>s t. send_cnt t \<le> send_cnt s) ?new"
      by (rule sorted_wrt_mono_rel [of _ "\<lambda>s t. True"]) (auto simp del: map_append)
    then have "sorted_wrt (\<lambda>s t. send_cnt t \<le> send_cnt s) (nack_deq b @ ?new)"
      using inv fresh by (auto simp: raw_inv_def sorted_wrt_append simp del: map_append)
    moreover have "unat (pkt_cnt b + (cur - rb_end_seq b)) \<le> 500" using room_unat(2,3) [OF less True cnt] by simp
    moreover have "\<forall>s\<in>set (nack_deq b @ ?new). send_cnt s \<le> max_send_cnt b - 1 \<and> rs_seq s \<le> cur"
    proof -
      have "send_cnt s \<le> max_send_cnt b - 1 \<and> rs_seq s \<le> cur" if "s \<in> set (nack_deq b)" for s
        using inv that less by (auto simp: raw_inv_def intro: order_trans [of _ "rb_end_seq b"])
      then show ?thesis using fresh by (simp del: map_append add: ball_Un)
    qed
    ultimately show ?thesis by (simp add: b' raw_inv_def del: map_append)
  next
    case over: False
    show ?thesis
      using inv push PushPkts_overflow [OF less over, of good] by (cases good) (auto simp: raw_inv_def)
  qed
qed

text \<open>A collection counts every entry and removes the ones that were reported often enough.\<close>

lemma dropWhile_sorted:
  assumes "sorted_wrt (\<lambda>s t. f t \<le> f s) xs" "\<forall>s\<in>set xs. f s \<le> (m :: 'a :: linorder)"
  shows "dropWhile (\<lambda>s. f s = m) xs = filter (\<lambda>s. f s \<noteq> m) xs"
  using assms
proof (induction xs)
  case (Cons x xs)
  show ?case
  proof (cases "f x = m")
    case False
    then have "f s \<noteq> m" if "s \<in> set xs" for s using Cons.prems that by fastforce
    then show ?thesis using False by (simp add: filter_id_conv)
  qed (use Cons in simp)
qed simp

lemma count_send_simps [simp]: "rs_seq (count_send s) = rs_seq s" "send_cnt (count_send s) = send_cnt s + 1"
  by (simp_all add: count_send_def)

definition remaining :: "raw_buf \<Rightarrow> raw_status list" where
  "remaining b = filter (\<lambda>s. send_cnt s \<noteq> max_send_cnt b - 1) (nack_deq b)"

lemma PopPktStatus_eq:
  assumes "raw_inv b"
  shows "PopPktStatus m b = (if pkt_cnt b < m then None
    else Some ((map rs_seq (nack_deq b), rb_end_seq b, ucast (pkt_cnt b)),
      b\<lparr>nack_deq := map count_send (remaining b), pkt_cnt := 0\<rparr>))"
proof -
  have "send_cnt (count_send s) = max_send_cnt b \<longleftrightarrow> send_cnt s = max_send_cnt b - 1" for s
    by (auto simp: eq_diff_eq)
  then have "dropWhile (\<lambda>s. send_cnt s = max_send_cnt b) (map count_send (nack_deq b))
      = map count_send (dropWhile (\<lambda>s. send_cnt s = max_send_cnt b - 1) (nack_deq b))"
    by (simp add: dropWhile_map comp_def)
  also have "\<dots> = map count_send (remaining b)"
    using assms dropWhile_sorted [of send_cnt "nack_deq b" "max_send_cnt b - 1"] by (simp add: remaining_def raw_inv_def)
  finally show ?thesis by (simp add: PopPktStatus_def Let_def)
qed

lemma remaining_below:
  assumes "raw_inv b" "s \<in> set (remaining b)"
  shows "s \<in> set (nack_deq b)" "unat (send_cnt (count_send s)) = unat (send_cnt s) + 1" "send_cnt (count_send s) \<le> max_send_cnt b - 1"
proof -
  show s: "s \<in> set (nack_deq b)" using assms(2) by (simp add: remaining_def)
  have "send_cnt s \<le> max_send_cnt b - 1" "send_cnt s \<noteq> max_send_cnt b - 1"
    using assms s by (simp_all add: raw_inv_def remaining_def)
  then have lt: "send_cnt s < max_send_cnt b - 1" by simp
  then have "unat (send_cnt s) + 1 < 2 ^ 8" 
  proof -
    have "unat (max_send_cnt b - 1) < 256" using unsigned_less [of "max_send_cnt b - 1"] by simp
    then show ?thesis using lt by (simp add: word_less_nat_alt)
  qed
  then show n: "unat (send_cnt (count_send s)) = unat (send_cnt s) + 1" using unat_add_lem [of "send_cnt s" 1] by simp
  show "send_cnt (count_send s) \<le> max_send_cnt b - 1" using lt n by (simp add: word_less_nat_alt word_le_nat_alt)
qed

lemma remaining_sorted:
  assumes "raw_inv b" shows "sorted_wrt (\<lambda>s t. send_cnt t \<le> send_cnt s) (map count_send (remaining b))"
proof -
  have "sorted_wrt (\<lambda>s t. send_cnt t \<le> send_cnt s) (remaining b)"
    using assms by (auto simp: remaining_def raw_inv_def intro: sorted_wrt_filter)
  then have "sorted_wrt (\<lambda>s t. send_cnt (count_send t) \<le> send_cnt (count_send s)) (remaining b)"
    by (rule sorted_wrt_mono_rel [rotated])
      (use remaining_below(2) [OF assms] in \<open>simp add: word_le_nat_alt del: count_send_simps\<close>)
  then show ?thesis by (simp add: sorted_wrt_map del: count_send_simps)
qed

lemma PopPktStatus_inv: "raw_inv b \<Longrightarrow> PopPktStatus m b = Some (r, b') \<Longrightarrow> raw_inv b'"
proof -
  assume inv: "raw_inv b" and pop: "PopPktStatus m b = Some (r, b')"
  have b': "b' = b\<lparr>nack_deq := map count_send (remaining b), pkt_cnt := 0\<rparr>"
    using pop PopPktStatus_eq [OF inv, of m] by (simp split: if_splits)
  have "\<forall>s\<in>set (map count_send (remaining b)). send_cnt s \<le> max_send_cnt b - 1 \<and> rs_seq s \<le> rb_end_seq b"
    using remaining_below(1,3) [OF inv] inv by (auto simp: raw_inv_def)
  then show ?thesis using remaining_sorted [OF inv] by (simp add: raw_inv_def b')
qed

section \<open>Good packets only\<close>

text \<open>
  When all packets are good, as the client's receiver pushes them, fewer than 500 entries have been
  reported equally often. The entries are sorted, and those reported \<open>k\<close> times are within 500 times
  \<open>k\<close> numbers of the packets counted since the last collection.
\<close>

definition reported_often :: "nat \<Rightarrow> raw_buf \<Rightarrow> raw_status list" where
  "reported_often k b = filter (\<lambda>s. unat (send_cnt s) = k) (nack_deq b)"

definition raw_good :: "raw_buf \<Rightarrow> bool" where
  "raw_good b \<longleftrightarrow> raw_inv b \<and> (\<forall>k. length (reported_often k b) < 500)
     \<and> (reported_often 0 b = [] \<or> length (reported_often 0 b) < unat (pkt_cnt b))"

definition raw_span :: "raw_buf \<Rightarrow> bool" where
  "raw_span b \<longleftrightarrow> sorted_wrt (<) (map rs_seq (nack_deq b))
     \<and> (\<forall>s\<in>set (nack_deq b). unat (rb_end_seq b) < unat (rs_seq s) + unat (pkt_cnt b) + 500 * unat (send_cnt s))"

lemma filtered_length: "length (filter P (filter Q xs)) \<le> length (filter P xs)"
  by (induction xs) auto

lemma length_classes:
  assumes "\<forall>x\<in>set xs. f x < n" "\<forall>k. length (filter (\<lambda>x. f x = k) xs) \<le> m"
  shows "length xs \<le> m * n"
  using assms
proof (induction n arbitrary: xs)
  case (Suc n)
  let ?rest = "filter (\<lambda>x. f x \<noteq> n) xs"
  have "\<forall>x\<in>set ?rest. f x < n" using Suc.prems(1) by (auto simp: less_Suc_eq)
  moreover have "length (filter (\<lambda>x. f x = k) ?rest) \<le> m" for k
    using filtered_length [of "\<lambda>x. f x = k"] Suc.prems(2) le_trans by blast
  ultimately have "length ?rest \<le> m * n" using Suc.IH by blast
  moreover have "length xs = length (filter (\<lambda>x. f x = n) xs) + length ?rest"
    by (rule sum_length_filter_compl [symmetric])
  moreover have "length (filter (\<lambda>x. f x = n) xs) \<le> m" using Suc.prems(2) by blast
  ultimately show ?case by simp
qed simp

lemma raw_inv_reports: "raw_inv b \<Longrightarrow> s \<in> set (nack_deq b) \<Longrightarrow> unat (send_cnt s) < max_reports (max_send_cnt b)"
  by (simp add: raw_inv_def max_reports_def word_le_nat_alt less_Suc_eq_le)

lemma raw_good_pending: "raw_good b \<Longrightarrow> length (nack_deq b) \<le> 499 * max_reports (max_send_cnt b)"
proof (rule length_classes [where f = "\<lambda>s. unat (send_cnt s)"])
  assume b: "raw_good b"
  then show "\<forall>s\<in>set (nack_deq b). unat (send_cnt s) < max_reports (max_send_cnt b)"
    using raw_inv_reports by (auto simp: raw_good_def)
  have "length (reported_often k b) \<le> 499" for k 
  proof -
    have "length (reported_often k b) < 500" using b by (simp add: raw_good_def)
    then show ?thesis by simp
  qed
  then show "\<forall>k. length (filter (\<lambda>s. unat (send_cnt s) = k) (nack_deq b)) \<le> 499" by (simp add: reported_often_def)
qed

lemma raw_span_near:
  assumes "raw_inv b" "raw_span b" "s \<in> set (nack_deq b)"
  shows "unat (rb_end_seq b) < unat (rs_seq s) + 500 * max_reports (max_send_cnt b)"
proof -
  have "unat (send_cnt s) + 1 \<le> max_reports (max_send_cnt b)" using raw_inv_reports [OF assms(1,3)] by simp
  then have "500 * unat (send_cnt s) + 500 \<le> 500 * max_reports (max_send_cnt b)" by linarith
  moreover have "unat (rb_end_seq b) < unat (rs_seq s) + unat (pkt_cnt b) + 500 * unat (send_cnt s)"
    "unat (pkt_cnt b) \<le> 500"
    using assms by (auto simp: raw_span_def raw_inv_def)
  ultimately show ?thesis by linarith
qed

lemma sorted_gap: "sorted_wrt (<) (gap e c)"
proof -
  have "sorted_wrt (\<lambda>x y. (word_of_nat x :: u32) < word_of_nat y) [unat e + 1..<unat c]"
  proof (rule sorted_wrt_mono_rel [OF _ sorted_wrt_upt])
    fix x y assume "x \<in> set [unat e + 1..<unat c]" "y \<in> set [unat e + 1..<unat c]" "x < y"
    then show "(word_of_nat x :: u32) < word_of_nat y"
      using word_of_nat_less_unat [of x c] word_of_nat_less_unat [of y c] by (simp add: word_less_nat_alt)
  qed
  then show ?thesis by (simp add: gap_def sorted_wrt_map)
qed

lemma PushPkts_good:
  assumes good: "raw_good b" "raw_span b" and push: "PushPkts cur True b = (r, b')"
  shows "raw_good b' \<and> raw_span b'"
proof (cases "cur \<le> rb_end_seq b")
  case True
  then show ?thesis using good push by (simp add: PushPkts_def)
next
  case False
  then have less: "rb_end_seq b < cur" by simp
  then have lt: "unat (rb_end_seq b) < unat cur" by (simp add: word_less_nat_alt)
  have inv: "raw_inv b" "raw_inv b'" using good PushPkts_inv [OF _ push] by (simp_all add: raw_good_def)
  show ?thesis
  proof (cases "cur - rb_end_seq b \<le> kMaxBufSize - pkt_cnt b")
    case True
    have cnt: "unat (pkt_cnt b) \<le> 500" using inv by (simp add: raw_inv_def)
    note room = room_unat(2,3) [OF less True cnt]
    have b': "nack_deq b' = nack_deq b @ map fresh_status (gap (rb_end_seq b) cur)" "rb_end_seq b' = cur"
      "pkt_cnt b' = pkt_cnt b + (cur - rb_end_seq b)"
      using push PushPkts_fits [OF less True, of True] by auto
    have often: "reported_often k b' = reported_often k b @ (if k = 0 then map fresh_status (gap (rb_end_seq b) cur) else [])" for k
      by (simp add: reported_often_def b'(1) filter_map comp_def)
    have zero: "length (reported_often 0 b') < unat (pkt_cnt b')"
    proof -
      have "length (reported_often 0 b) \<le> unat (pkt_cnt b)" using good(1) by (auto simp: raw_good_def)
      then show ?thesis using room(2) lt b'(3) by (simp add: often length_gap)
    qed
    then have "length (reported_often k b') < 500" for k
      using good(1) inv(2) by (cases "k = 0") (auto simp: often raw_good_def raw_inv_def)
    then have "raw_good b'" using inv(2) zero by (simp add: raw_good_def)
    moreover have "raw_span b'"
    proof -
      have old: "rs_seq s \<le> rb_end_seq b" "unat (rb_end_seq b) < unat (rs_seq s) + unat (pkt_cnt b) + 500 * unat (send_cnt s)"
        if "s \<in> set (nack_deq b)" for s
        using good(2) inv(1) that by (auto simp: raw_span_def raw_inv_def)
      have "rs_seq s < i" if "s \<in> set (nack_deq b)" "i \<in> set (gap (rb_end_seq b) cur)" for s i
        using old(1) [OF that(1)] that(2) by (auto simp: set_gap)
      then have "sorted_wrt (<) (map rs_seq (nack_deq b'))"
        using good(2) sorted_gap [of "rb_end_seq b" cur] b'(1) by (simp add: raw_span_def sorted_wrt_append comp_def)
      moreover have "unat cur < unat (rs_seq s) + unat (pkt_cnt b') + 500 * unat (send_cnt s)" if s: "s \<in> set (nack_deq b')" for s
      proof (cases "s \<in> set (nack_deq b)")
        case True
        then show ?thesis using old(2) [OF True] lt room(2) b'(3) by simp
      next
        case False
        then have "rb_end_seq b < rs_seq s" "send_cnt s = 0" using s b'(1) by (auto simp: set_gap)
        then show ?thesis using room(2) b'(3) by (simp add: word_less_nat_alt)
      qed
      ultimately show ?thesis using b'(2) by (simp add: raw_span_def)
    qed
    ultimately show ?thesis ..
  next
    case over: False
    then show ?thesis using inv(2) push PushPkts_overflow [OF less over, of True]
      by (auto simp: raw_good_def raw_span_def reported_often_def)
  qed
qed

lemma PopPktStatus_good:
  assumes good: "raw_good b" "raw_span b" and pop: "PopPktStatus m b = Some (r, b')"
  shows "raw_good b' \<and> raw_span b'"
proof -
  have inv: "raw_inv b" "raw_inv b'" using good PopPktStatus_inv [OF _ pop] by (simp_all add: raw_good_def)
  have b': "nack_deq b' = map count_send (remaining b)" "rb_end_seq b' = rb_end_seq b" "pkt_cnt b' = 0"
    using pop PopPktStatus_eq [OF inv(1), of m] by (auto split: if_splits)
  note below = remaining_below(1,2) [OF inv(1)]
  have none: "reported_often 0 b' = []"
    using below(2) by (auto simp: reported_often_def b'(1) filter_empty_conv simp del: count_send_simps(2))
  have "length (reported_often k b') < 500" for k
  proof (cases k)
    case (Suc j)
    have "reported_often k b' = map count_send (filter (\<lambda>s. unat (send_cnt (count_send s)) = Suc j) (remaining b))"
      by (simp add: reported_often_def b'(1) filter_map comp_def Suc)
    also have "filter (\<lambda>s. unat (send_cnt (count_send s)) = Suc j) (remaining b) = filter (\<lambda>s. unat (send_cnt s) = j) (remaining b)"
      by (rule filter_cong) (use below(2) in auto)
    finally have "length (reported_often k b') \<le> length (reported_often j b)"
      unfolding remaining_def reported_often_def [of j] by (simp add: filtered_length del: filter_filter)
    then show ?thesis using good(1) by (auto simp: raw_good_def intro: le_less_trans)
  qed (simp add: none)
  moreover have "raw_span b'"
  proof -
    have "sorted_wrt (<) (map rs_seq (remaining b))"
      using good(2) by (auto simp: raw_span_def remaining_def sorted_wrt_map intro: sorted_wrt_filter)
    then have "sorted_wrt (<) (map rs_seq (nack_deq b'))" by (simp add: b'(1) comp_def)
    moreover have "unat (rb_end_seq b) < unat (rs_seq s) + 500 * unat (send_cnt (count_send s))" if s: "s \<in> set (remaining b)" for s
    proof -
      have "unat (rb_end_seq b) < unat (rs_seq s) + unat (pkt_cnt b) + 500 * unat (send_cnt s)" "unat (pkt_cnt b) \<le> 500"
        using good(2) inv(1) below(1) [OF s] by (auto simp: raw_span_def raw_inv_def)
      then show ?thesis unfolding below(2) [OF s] add_mult_distrib2 by linarith
    qed
    ultimately show ?thesis by (auto simp: raw_span_def b' simp del: count_send_simps(2))
  qed
  ultimately show ?thesis using inv(2) none by (simp add: raw_good_def)
qed

section \<open>Runs\<close>

datatype raw_event = Push_Event u32 bool | Pop_Event u32

text \<open>The history of a run: the buffer, what was reported, the good packets accepted, and whether
  the buffer overflowed.\<close>

record raw_history =
  hist_buf :: raw_buf
  reported :: "u32 list"
  received :: "u32 list"
  overflowed :: bool

definition raw_step :: "raw_event \<Rightarrow> raw_history \<Rightarrow> raw_history" where
  "raw_step ev h =
     (case ev of
        Push_Event s good \<Rightarrow>
          (let (accepted, b) = PushPkts s good (hist_buf h) in
           h\<lparr>hist_buf := b, received := (if accepted \<and> good then s # received h else received h),
             overflowed := (overflowed h \<or> accepted
               \<and> \<not> s - rb_end_seq (hist_buf h) \<le> kMaxBufSize - pkt_cnt (hist_buf h))\<rparr>)
      | Pop_Event m \<Rightarrow>
          (case PopPktStatus m (hist_buf h) of
             None \<Rightarrow> h
           | Some ((seqs, _, _), b) \<Rightarrow> h\<lparr>hist_buf := b, reported := reported h @ seqs\<rparr>))"

definition raw_begin :: "u8 \<Rightarrow> raw_history" where
  "raw_begin c = \<lparr>hist_buf = set_max_send_cnt c RxRawBuf, reported = [], received = [], overflowed = False\<rparr>"

definition raw_run :: "u8 \<Rightarrow> raw_event list \<Rightarrow> raw_history" where
  "raw_run c evs = fold raw_step evs (raw_begin c)"

lemma raw_run_snoc: "raw_run c (evs @ [ev]) = raw_step ev (raw_run c evs)"
  by (simp add: raw_run_def)

lemma raw_begin_fields:
  "nack_deq (hist_buf (raw_begin c)) = []" "rb_end_seq (hist_buf (raw_begin c)) = 0" "pkt_cnt (hist_buf (raw_begin c)) = 0"
  "max_send_cnt (hist_buf (raw_begin c)) = c" "reported (raw_begin c) = []" "received (raw_begin c) = []" "\<not> overflowed (raw_begin c)"
  by (simp_all add: raw_begin_def set_max_send_cnt_def RxRawBuf_def)

lemma raw_step_max: "max_send_cnt (hist_buf (raw_step ev h)) = max_send_cnt (hist_buf h)"
  by (auto simp: raw_step_def PushPkts_def PopPktStatus_def Let_def split: raw_event.splits option.splits if_splits)

lemma raw_run_max: "max_send_cnt (hist_buf (raw_run c evs)) = c"
proof (induction evs rule: rev_induct)
  case (snoc ev evs)
  then show ?case by (simp add: raw_run_snoc raw_step_max)
qed (simp add: raw_run_def raw_begin_fields)

definition pending :: "raw_history \<Rightarrow> u32 list" where
  "pending h = map rs_seq (nack_deq (hist_buf h))"

text \<open>The numbers up to the last one seen that were not received.\<close>

definition missing :: "raw_history \<Rightarrow> u32 set" where
  "missing h = {q. 0 < q \<and> q \<le> rb_end_seq (hist_buf h)} - set (received h)"

text \<open>A recorded number was reported as often as its counter says, a removed one \<open>max_reports\<close> times.\<close>

definition counted :: "raw_history \<Rightarrow> bool" where
  "counted h \<longleftrightarrow> distinct (pending h) \<and> set (pending h) \<subseteq> missing h
     \<and> (\<forall>s\<in>set (nack_deq (hist_buf h)). count_list (reported h) (rs_seq s) = unat (send_cnt s))
     \<and> (\<forall>q\<in>missing h - set (pending h). count_list (reported h) q = max_reports (max_send_cnt (hist_buf h)))
     \<and> set (reported h) \<subseteq> missing h \<and> (\<forall>q\<in>set (received h). q \<le> rb_end_seq (hist_buf h))"

definition hist_inv :: "raw_history \<Rightarrow> bool" where
  "hist_inv h \<longleftrightarrow> raw_inv (hist_buf h) \<and> (\<not> overflowed h \<longrightarrow> counted h)"

lemma counted_push:
  assumes old: "counted h" and less: "rb_end_seq (hist_buf h) < s"
    and fits: "s - rb_end_seq (hist_buf h) \<le> kMaxBufSize - pkt_cnt (hist_buf h)"
  shows "counted (raw_step (Push_Event s good) h)"
proof -
  let ?b = "hist_buf h" and ?e = "rb_end_seq (hist_buf h)"
  let ?new = "gap ?e s @ (if good then [] else [s])"
  define h' where "h' = raw_step (Push_Event s good) h"
  have h': "nack_deq (hist_buf h') = nack_deq ?b @ map fresh_status ?new" "rb_end_seq (hist_buf h') = s"
    "max_send_cnt (hist_buf h') = max_send_cnt ?b" "reported h' = reported h"
    "received h' = (if good then s # received h else received h)"
    using PushPkts_fits [OF less fits, of good] fits by (simp_all add: h'_def raw_step_def)
  then have pend: "pending h' = pending h @ ?new" by (simp add: pending_def comp_def)
  have up_to: "\<forall>q\<in>missing h. q \<le> ?e" "\<forall>q\<in>set ?new. ?e < q" "\<forall>q\<in>set (received h). q \<le> ?e"
    using less old by (auto simp: missing_def set_gap counted_def)
  have miss: "missing h' = missing h \<union> set ?new"
  proof -
    have "{q. 0 < q \<and> q \<le> s} = {q. 0 < q \<and> q \<le> ?e} \<union> set (gap ?e s) \<union> {s}"
      using less by (auto simp: set_gap intro: le_less_trans [of 0 ?e])
    moreover have "q \<notin> set (received h)" if "q \<in> set (gap ?e s) \<union> {s}" for q
      using that up_to(3) less by (force simp: set_gap)
    moreover have "s \<notin> {q. 0 < q \<and> q \<le> ?e}" "s \<notin> set (gap ?e s)" using less by (auto simp: set_gap)
    ultimately show ?thesis unfolding missing_def h'(2,5) by auto
  qed
  have apart: "missing h \<inter> set ?new = {}" "set (reported h) \<inter> set ?new = {}"
  proof -
    show m: "missing h \<inter> set ?new = {}" using up_to(1,2) by (meson disjoint_iff not_less)
    show "set (reported h) \<inter> set ?new = {}" using m old unfolding counted_def by blast
  qed
  have "distinct (pending h')"
    using old apart less distinct_gap [of ?e s] unfolding pend by (auto simp: counted_def set_gap split: if_splits)
  moreover have "\<forall>s\<in>set (nack_deq (hist_buf h')). count_list (reported h') (rs_seq s) = unat (send_cnt s)"
    using old apart(2) unfolding h' by (auto simp: counted_def count_list_0_iff)
  moreover have "set (pending h') \<subseteq> missing h'" "set (reported h') \<subseteq> missing h'"
    using old unfolding pend miss h'(4) by (auto simp: counted_def)
  moreover have "\<forall>q\<in>missing h' - set (pending h'). count_list (reported h') q = max_reports (max_send_cnt (hist_buf h'))"
    using old unfolding pend miss h'(3,4) by (auto simp: counted_def)
  moreover have "\<forall>q\<in>set (received h'). q \<le> rb_end_seq (hist_buf h')" using up_to(3) less by (auto simp: h')
  ultimately show ?thesis unfolding counted_def h'_def by blast
qed

lemma count_list_distinct: "distinct xs \<Longrightarrow> count_list xs x = (if x \<in> set xs then 1 else 0)"
  by (induction xs) auto

lemma counted_pop:
  assumes inv: "raw_inv (hist_buf h)" and old: "counted h" and pop: "PopPktStatus m (hist_buf h) = Some (r, b')"
  shows "counted (raw_step (Pop_Event m) h)"
proof -
  let ?b = "hist_buf h"
  define h' where "h' = raw_step (Pop_Event m) h"
  have h': "nack_deq (hist_buf h') = map count_send (remaining ?b)" "rb_end_seq (hist_buf h') = rb_end_seq ?b"
    "max_send_cnt (hist_buf h') = max_send_cnt ?b" "reported h' = reported h @ pending h" "received h' = received h"
    using pop PopPktStatus_eq [OF inv, of m] by (auto simp: h'_def raw_step_def pending_def split: if_splits)
  have miss: "missing h' = missing h" by (simp add: missing_def h')
  have pend: "pending h' = map rs_seq (remaining ?b)" by (simp add: pending_def h' comp_def)
  have dist: "distinct (map rs_seq (nack_deq ?b))" using old by (simp add: counted_def pending_def)
  then have dist': "distinct (pending h')" unfolding pend remaining_def by (rule distinct_map_filter)
  have cnt: "count_list (reported h') q = count_list (reported h) q + (if q \<in> set (pending h) then 1 else 0)" for q
    using old by (simp add: h'(4) count_list_distinct counted_def)
  have kept: "count_list (reported h') (rs_seq s) = unat (send_cnt (count_send s))" if s: "s \<in> set (remaining ?b)" for s
  proof -
    have s': "s \<in> set (nack_deq ?b)" by (rule remaining_below(1) [OF inv s])
    then have "rs_seq s \<in> set (pending h)" "count_list (reported h) (rs_seq s) = unat (send_cnt s)"
      using old by (simp_all add: pending_def counted_def)
    then show ?thesis unfolding cnt remaining_below(2) [OF inv s] by simp
  qed
  have gone: "count_list (reported h') q = max_reports (max_send_cnt ?b)" if q: "q \<in> missing h" "q \<notin> set (pending h')" for q
  proof (cases "q \<in> set (pending h)")
    case True
    then obtain s where s: "s \<in> set (nack_deq ?b)" "q = rs_seq s" by (auto simp: pending_def)
    then have "s \<notin> set (remaining ?b)" using q(2) by (auto simp: pend)
    then have "send_cnt s = max_send_cnt ?b - 1" using s(1) by (simp add: remaining_def)
    moreover have "count_list (reported h) q = unat (send_cnt s)" using old s by (simp add: counted_def)
    ultimately show ?thesis using True by (simp add: cnt max_reports_def)
  next
    case False
    then show ?thesis using old q(1) by (simp add: cnt counted_def)
  qed
  have "set (pending h') \<subseteq> set (pending h)" unfolding pend by (auto simp: pending_def remaining_def)
  then have "set (pending h') \<subseteq> missing h" "set (reported h') \<subseteq> missing h" using old by (auto simp: h'(4) counted_def)
  then show ?thesis
    using dist' kept gone old unfolding counted_def h'_def [symmetric] miss
    by (auto simp: h' simp del: count_send_simps(2))
qed

lemma hist_inv_step:
  assumes inv: "hist_inv h" shows "hist_inv (raw_step ev h)"
proof (cases ev)
  case (Push_Event s good)
  obtain r b' where p: "PushPkts s good (hist_buf h) = (r, b')" by fastforce
  have b': "hist_buf (raw_step ev h) = b'" "raw_inv b'"
    using p PushPkts_inv [OF _ p] inv Push_Event by (simp_all add: raw_step_def hist_inv_def)
  consider (old) "s \<le> rb_end_seq (hist_buf h)"
    | (fits) "rb_end_seq (hist_buf h) < s" "s - rb_end_seq (hist_buf h) \<le> kMaxBufSize - pkt_cnt (hist_buf h)"
    | (over) "rb_end_seq (hist_buf h) < s" "\<not> s - rb_end_seq (hist_buf h) \<le> kMaxBufSize - pkt_cnt (hist_buf h)"
    by fastforce
  then show ?thesis
  proof cases
    case old
    then show ?thesis using inv Push_Event by (simp add: raw_step_def PushPkts_def)
  next
    case fits
    have "overflowed (raw_step ev h) = overflowed h" using p fits Push_Event by (simp add: raw_step_def)
    then show ?thesis using counted_push [OF _ fits, of good] b' inv Push_Event by (auto simp: hist_inv_def)
  next
    case over
    have r using p PushPkts_overflow [OF over, of good] by simp
    then have "overflowed (raw_step ev h)" using p over(2) Push_Event by (simp add: raw_step_def)
    then show ?thesis using b' by (simp add: hist_inv_def)
  qed
next
  case (Pop_Event m)
  show ?thesis
  proof (cases "PopPktStatus m (hist_buf h)")
    case None
    then show ?thesis using inv Pop_Event by (simp add: raw_step_def)
  next
    case (Some x)
    then obtain seqs e n b' where pop: "PopPktStatus m (hist_buf h) = Some ((seqs, e, n), b')" by (cases x) auto
    have "hist_buf (raw_step ev h) = b'" "overflowed (raw_step ev h) = overflowed h"
      using pop Pop_Event by (simp_all add: raw_step_def)
    then show ?thesis
      using PopPktStatus_inv [OF _ pop] counted_pop [OF _ _ pop] inv Pop_Event by (auto simp: hist_inv_def)
  qed
qed

lemma hist_inv_run: "hist_inv (raw_run c evs)"
proof (induction evs rule: rev_induct)
  case Nil
  show ?case by (auto simp: raw_run_def hist_inv_def raw_inv_def counted_def missing_def pending_def raw_begin_fields)
next
  case (snoc ev evs)
  then show ?case by (simp add: raw_run_snoc hist_inv_step)
qed

lemma good_run_span:
  assumes "\<forall>s. Push_Event s False \<notin> set evs"
  shows "raw_good (hist_buf (raw_run c evs)) \<and> raw_span (hist_buf (raw_run c evs))"
  using assms
proof (induction evs rule: rev_induct)
  case Nil
  show ?case by (simp add: raw_run_def raw_good_def raw_span_def raw_inv_def reported_often_def raw_begin_fields)
next
  case (snoc ev evs)
  let ?h = "raw_run c evs"
  have b: "raw_good (hist_buf ?h)" "raw_span (hist_buf ?h)" using snoc by simp_all
  show ?case
  proof (cases ev)
    case (Push_Event s good)
    then have "good" using snoc.prems by (cases good) auto
    obtain r b' where p: "PushPkts s True (hist_buf ?h) = (r, b')" by fastforce
    then have "hist_buf (raw_step ev ?h) = b'" using Push_Event \<open>good\<close> by (simp add: raw_step_def)
    then show ?thesis using PushPkts_good [OF b p] by (simp add: raw_run_snoc)
  next
    case (Pop_Event m)
    then show ?thesis
      using b PopPktStatus_good [OF b, of m] by (auto simp: raw_run_snoc raw_step_def split: option.split prod.split)
  qed
qed

end
