(* ===== verification/Ack_Packet.thy ===== *)
theory Ack_Packet
  imports Headers
begin

text \<open>
  Classes \<open>AckHeader\<close> and \<open>AckPkt\<close> of \<open>src/wspace_asym_util.h\<close>: an acknowledgement carries up to
  \<open>ACK_WINDOW\<close> sequence numbers of lost packets, the first one in full and the others relative
  to it in 16 bits. The locale \<open>nack_codec\<close> is the contract the acknowledgement threads use.
\<close>

section \<open>The packet\<close>

definition ACK_WINDOW :: nat where "ACK_WINDOW = 500"
definition ACK_HEADER_SIZE :: nat where "ACK_HEADER_SIZE = 28"

record ack_header =
  ak_type :: u8
  num_nacks :: u16
  num_pkts :: u16
  ack_seq :: u32
  start_nack_seq :: u32
  ak_end_seq :: u32
  ak_client_id :: i32
  ak_bs_id :: i32

record ack_pkt =
  ack_hdr :: ack_header
  rel_seq_arr :: "u16 list"

text \<open>The constructor; \<open>type_\<close> and the two ids keep what the memory held.\<close>

definition AckPkt :: "u8 \<Rightarrow> i32 \<Rightarrow> i32 \<Rightarrow> ack_pkt" where
  "AckPkt junk_type junk_client junk_bs =
     \<lparr>ack_hdr = \<lparr>ak_type = junk_type, num_nacks = 0, num_pkts = 0, ack_seq = 0, start_nack_seq = 0,
        ak_end_seq = 0, ak_client_id = junk_client, ak_bs_id = junk_bs\<rparr>,
      rel_seq_arr = replicate ACK_WINDOW 0\<rparr>"

definition AckHeader_Init :: "u8 \<Rightarrow> ack_header \<Rightarrow> ack_header" where
  "AckHeader_Init type h =
     h\<lparr>ak_type := type, ack_seq := ack_seq h + 1, num_nacks := 0, start_nack_seq := 0, ak_end_seq := 0, num_pkts := 0\<rparr>"

definition ack_Init :: "u8 \<Rightarrow> ack_pkt \<Rightarrow> ack_pkt" where
  "ack_Init type a = a\<lparr>ack_hdr := AckHeader_Init type (ack_hdr a)\<rparr>"

definition set_end_seq :: "u32 \<Rightarrow> ack_pkt \<Rightarrow> ack_pkt" where
  "set_end_seq s a = a\<lparr>ack_hdr := (ack_hdr a)\<lparr>ak_end_seq := s\<rparr>\<rparr>"

definition set_num_pkts :: "u16 \<Rightarrow> ack_pkt \<Rightarrow> ack_pkt" where
  "set_num_pkts c a = a\<lparr>ack_hdr := (ack_hdr a)\<lparr>num_pkts := c\<rparr>\<rparr>"

definition set_ids :: "i32 \<Rightarrow> i32 \<Rightarrow> ack_pkt \<Rightarrow> ack_pkt" where
  "set_ids client bs a = a\<lparr>ack_hdr := (ack_hdr a)\<lparr>ak_client_id := client, ak_bs_id := bs\<rparr>\<rparr>"

text \<open>\<open>PushNack\<close>: the difference to the first number is cut to 16 bits.\<close>

definition PushNack :: "u32 \<Rightarrow> ack_pkt \<Rightarrow> ack_pkt outcome" where
  "PushNack seq a =
     and_then
       (if num_nacks (ack_hdr a) = 0
        then ok (a\<lparr>ack_hdr := (ack_hdr a)\<lparr>start_nack_seq := seq\<rparr>, rel_seq_arr := (rel_seq_arr a)[0 := 0]\<rparr>)
        else if \<not> unat (num_nacks (ack_hdr a)) < ACK_WINDOW then abort Assert_Failed
        else ok (a\<lparr>rel_seq_arr := (rel_seq_arr a)
               [unat (num_nacks (ack_hdr a)) := ucast (seq - start_nack_seq (ack_hdr a))]\<rparr>))
       (\<lambda>a. ok (a\<lparr>ack_hdr := (ack_hdr a)\<lparr>num_nacks := num_nacks (ack_hdr a) + 1\<rparr>\<rparr>))"

definition ack_IsFull :: "ack_pkt \<Rightarrow> bool" where
  "ack_IsFull a \<longleftrightarrow> unat (num_nacks (ack_hdr a)) \<ge> ACK_WINDOW"

definition GetLen_ack :: "ack_pkt \<Rightarrow> u16 outcome" where
  "GetLen_ack a =
     (let len = word_of_nat ACK_HEADER_SIZE + 2 * num_nacks (ack_hdr a) :: u16 in
      if \<not> (unat len \<le> PKT_SIZE \<and> len > 0) then abort Assert_Failed else ok len)"

text \<open>The sequence numbers \<open>ParseNack\<close> writes to \<open>seq_arr\<close>, and all its outputs.\<close>

definition nack_seqs :: "ack_pkt \<Rightarrow> u32 list" where
  "nack_seqs a = map (\<lambda>i. ucast (rel_seq_arr a ! i) + start_nack_seq (ack_hdr a)) [0..<unat (num_nacks (ack_hdr a))]"

record parsed_nack =
  pn_type :: u8
  pn_ack_seq :: u32
  pn_num_nacks :: u16
  pn_end_seq :: u32
  pn_client_id :: i32
  pn_bs_id :: i32
  pn_num_pkts :: u16
  pn_seqs :: "u32 list"

definition ParseNack :: "ack_pkt \<Rightarrow> parsed_nack outcome" where
  "ParseNack a =
     (if unat (num_nacks (ack_hdr a)) > length (rel_seq_arr a) then abort Out_Of_Bounds
      else ok \<lparr>pn_type = ak_type (ack_hdr a), pn_ack_seq = ack_seq (ack_hdr a), pn_num_nacks = num_nacks (ack_hdr a),
             pn_end_seq = ak_end_seq (ack_hdr a), pn_client_id = ak_client_id (ack_hdr a), pn_bs_id = ak_bs_id (ack_hdr a),
             pn_num_pkts = num_pkts (ack_hdr a), pn_seqs = nack_seqs a\<rparr>)"

text \<open>The bytes of the object, \<open>mem\<close> the padding, and the object a receiver finds in them.\<close>

definition ack_bytes :: "u8 list \<Rightarrow> ack_pkt \<Rightarrow> u8 list" where
  "ack_bytes mem a = (let h = ack_hdr a in
     put_u16s 28 (rel_seq_arr a) (put 24 (bytes_u32 (ak_bs_id h)) (put 20 (bytes_u32 (ak_client_id h))
     (put 16 (bytes_u32 (ak_end_seq h)) (put 12 (bytes_u32 (start_nack_seq h)) (put 8 (bytes_u32 (ack_seq h))
     (put 4 (bytes_u16 (num_pkts h)) (put 2 (bytes_u16 (num_nacks h)) (put 0 [ak_type h] mem)))))))))"

definition ack_at :: "u8 list \<Rightarrow> ack_pkt" where
  "ack_at pkt =
     \<lparr>ack_hdr = \<lparr>ak_type = pkt ! 0, num_nacks = load_u16 pkt 2, num_pkts = load_u16 pkt 4, ack_seq = load_u32 pkt 8,
        start_nack_seq = load_u32 pkt 12, ak_end_seq = load_u32 pkt 16, ak_client_id = load_u32 pkt 20,
        ak_bs_id = load_u32 pkt 24\<rparr>,
      rel_seq_arr = load_u16s pkt 28 ACK_WINDOW\<rparr>"

section \<open>Invariant\<close>

definition ack_inv :: "ack_pkt \<Rightarrow> bool" where
  "ack_inv a \<longleftrightarrow> length (rel_seq_arr a) = ACK_WINDOW \<and> unat (num_nacks (ack_hdr a)) \<le> ACK_WINDOW
     \<and> (num_nacks (ack_hdr a) > 0 \<longrightarrow> rel_seq_arr a ! 0 = 0)"

lemma AckPkt_inv: "ack_inv (AckPkt t c b)"
  by (simp add: AckPkt_def ack_inv_def ACK_WINDOW_def)

lemma ack_Init_inv: "ack_inv a \<Longrightarrow> ack_inv (ack_Init type a)" and nack_seqs_ack_Init: "nack_seqs (ack_Init type a) = []"
  by (simp_all add: ack_Init_def AckHeader_Init_def ack_inv_def nack_seqs_def)

lemma setters_keep_nacks [simp]:
  "nack_seqs (set_end_seq s a) = nack_seqs a" "nack_seqs (set_num_pkts c a) = nack_seqs a" "nack_seqs (set_ids i j a) = nack_seqs a"
  "ack_inv (set_end_seq s a) = ack_inv a" "ack_inv (set_num_pkts c a) = ack_inv a" "ack_inv (set_ids i j a) = ack_inv a"
  by (simp_all add: set_end_seq_def set_num_pkts_def set_ids_def nack_seqs_def ack_inv_def)

lemma length_nack_seqs: "length (nack_seqs a) = unat (num_nacks (ack_hdr a))"
  by (simp add: nack_seqs_def)

text \<open>What a receiver reads for a number relative to the first one.\<close>

definition truncated :: "u32 \<Rightarrow> u32 \<Rightarrow> u32" where
  "truncated start s = ucast (ucast (s - start) :: u16) + start"

lemma truncated_near: "unat (s - start) < 65536 \<Longrightarrow> truncated start s = s"
proof -
  assume "unat (s - start) < 65536"
  then have "ucast (ucast (s - start) :: u16) = s - start"
    by (intro word_unat_eq_iff [THEN iffD2]) (simp add: unsigned_ucast_eq take_bit_eq_mod unat_mod)
  then show ?thesis by (simp add: truncated_def)
qed

lemma Suc_num_nacks: "unat (x :: u16) \<le> 500 \<Longrightarrow> unat (x + 1) = unat x + 1"
  using unat_add_lem [of x 1] by simp

lemma PushNack_ok:
  assumes inv: "ack_inv a" and room: "length (nack_seqs a) < ACK_WINDOW"
  obtains a' where "PushNack seq a = ok a'" "ack_inv a'"
    "nack_seqs a' = nack_seqs a @ [if nack_seqs a = [] then seq else truncated (start_nack_seq (ack_hdr a)) seq]"
    "nack_seqs a \<noteq> [] \<Longrightarrow> start_nack_seq (ack_hdr a') = start_nack_seq (ack_hdr a)"
    "nack_seqs a = [] \<Longrightarrow> start_nack_seq (ack_hdr a') = seq"
proof -
  let ?n = "num_nacks (ack_hdr a)"
  have n: "unat ?n < 500" using room by (simp add: length_nack_seqs ACK_WINDOW_def)
  have suc: "unat (?n + 1) = Suc (unat ?n)" using n Suc_num_nacks [of ?n] by simp
  have len: "length (rel_seq_arr a) = 500" using inv by (simp add: ack_inv_def ACK_WINDOW_def)
  show thesis
  proof (cases "?n = 0")
    case True
    let ?a = "a\<lparr>ack_hdr := (ack_hdr a)\<lparr>start_nack_seq := seq, num_nacks := 1\<rparr>, rel_seq_arr := (rel_seq_arr a)[0 := 0]\<rparr>"
    have "nack_seqs a = []" using True by (simp add: nack_seqs_def)
    moreover have "PushNack seq a = ok ?a" using True by (simp add: PushNack_def)
    moreover have "ack_inv ?a" "nack_seqs ?a = [seq]"
      using len by (simp_all add: ack_inv_def ACK_WINDOW_def nack_seqs_def)
    ultimately show ?thesis using that [of ?a] by simp
  next
    case False
    let ?a = "a\<lparr>ack_hdr := (ack_hdr a)\<lparr>num_nacks := ?n + 1\<rparr>,
      rel_seq_arr := (rel_seq_arr a)[unat ?n := ucast (seq - start_nack_seq (ack_hdr a))]\<rparr>"
    have pos: "0 < unat ?n" using False by (simp add: unat_gt_0)
    have ne: "nack_seqs a \<noteq> []" using pos length_nack_seqs [of a] by force
    have "PushNack seq a = ok ?a" using False n by (simp add: PushNack_def ACK_WINDOW_def)
    moreover have "ack_inv ?a"
      using inv n suc pos False by (simp add: ack_inv_def ACK_WINDOW_def word_gt_0)
    moreover have "nack_seqs ?a = nack_seqs a @ [truncated (start_nack_seq (ack_hdr a)) seq]"
      using n suc len by (simp add: nack_seqs_def truncated_def)
    ultimately show ?thesis using that [of ?a] ne by simp
  qed
qed

section \<open>The contract of the acknowledgement threads\<close>

text \<open>The loop \<open>for (it = v.begin(); it != v.end(); it++) ack_pkt->PushNack(*it)\<close>.\<close>

fun push_list :: "('s \<Rightarrow> 'a \<Rightarrow> 'a outcome) \<Rightarrow> 's list \<Rightarrow> 'a \<Rightarrow> 'a outcome" where
  "push_list push [] a = ok a"
| "push_list push (s # ss) a = and_then (push s a) (push_list push ss)"

text \<open>
  A collector of up to \<open>capacity\<close> numbers, of which each has to be \<open>near\<close> the first:
  \<open>contents\<close> is what the other side reads.
\<close>

locale nack_codec =
  fixes push :: "'s \<Rightarrow> 'a \<Rightarrow> 'a outcome" and contents :: "'a \<Rightarrow> 's list" and inv :: "'a \<Rightarrow> bool"
    and near :: "'s \<Rightarrow> 's \<Rightarrow> bool" and capacity :: nat
  assumes push_ok: "inv a \<Longrightarrow> length (contents a) < capacity
      \<Longrightarrow> (contents a \<noteq> [] \<Longrightarrow> near (hd (contents a)) s)
      \<Longrightarrow> \<exists>a'. push s a = ok a' \<and> inv a' \<and> contents a' = contents a @ [s]"
begin

lemma push_list_appends:
  assumes "inv a" "length (contents a) + length ss \<le> capacity"
    and "\<And>s. s \<in> set ss \<Longrightarrow> near (hd (contents a @ ss)) s"
  shows "\<exists>a'. push_list push ss a = ok a' \<and> inv a' \<and> contents a' = contents a @ ss"
  using assms
proof (induction ss arbitrary: a)
  case (Cons s ss)
  obtain a1 where a1: "push s a = ok a1" "inv a1" "contents a1 = contents a @ [s]"
    using push_ok [of a s] Cons.prems by fastforce
  have "hd (contents a1 @ ss) = hd (contents a @ s # ss)" using a1(3) by simp
  then show ?case using Cons.IH [of a1] Cons.prems a1 by simp
qed simp

end

text \<open>A 16-bit distance, modulo the sequence number space.\<close>

definition within_u16 :: "u32 \<Rightarrow> u32 \<Rightarrow> bool" where
  "within_u16 start s \<longleftrightarrow> unat (s - start) < 65536"

lemma hd_nack_seqs: "ack_inv a \<Longrightarrow> nack_seqs a \<noteq> [] \<Longrightarrow> hd (nack_seqs a) = start_nack_seq (ack_hdr a)"
proof -
  assume a: "ack_inv a" "nack_seqs a \<noteq> []"
  then have pos: "0 < unat (num_nacks (ack_hdr a))" using length_nack_seqs [of a] by (metis length_greater_0_conv)
  then have "rel_seq_arr a ! 0 = 0" using a(1) by (simp add: ack_inv_def word_gt_0_no unat_gt_0 word_gt_0)
  then show ?thesis using pos by (simp add: nack_seqs_def hd_map upt_conv_Cons)
qed

interpretation ack: nack_codec PushNack nack_seqs ack_inv within_u16 ACK_WINDOW
proof
  fix a s
  assume a: "ack_inv a" "length (nack_seqs a) < ACK_WINDOW" and near: "nack_seqs a \<noteq> [] \<Longrightarrow> within_u16 (hd (nack_seqs a)) s"
  obtain a' where a': "PushNack s a = ok a'" "ack_inv a'"
    "nack_seqs a' = nack_seqs a @ [if nack_seqs a = [] then s else truncated (start_nack_seq (ack_hdr a)) s]"
    by (rule PushNack_ok [OF a, of s])
  have "nack_seqs a \<noteq> [] \<Longrightarrow> truncated (start_nack_seq (ack_hdr a)) s = s"
    using near hd_nack_seqs [OF a(1)] by (simp add: within_u16_def truncated_near)
  then show "\<exists>a'. PushNack s a = ok a' \<and> ack_inv a' \<and> nack_seqs a' = nack_seqs a @ [s]"
    using a' by auto
qed

end
