(* ===== verification/Rx_Properties.thy ===== *)
theory Rx_Properties
  imports Rx_Blocking Ring_Queue Raw_Buf Ack_Packet
begin

text \<open>
  The properties of the buffers whose operations run undisturbed: the receive buffer, the raw packet
  record, the ring and the headers. The receive buffer with its locks is in \<open>Lock_Properties\<close>. Each one rests on the lemmas of the theory of
  its component; a property with hypotheses is followed by its use on a concrete input.
\<close>

definition t0 :: time where "t0 = \<lparr>tv_sec = 0, tv_usec = 0\<rparr>"

definition byte_of :: "u32 \<Rightarrow> u8 list" where "byte_of s = [ucast s]"

lemma fresh_ready: "rx_ready byte_of (RxDataBuf t0)"
  by (simp add: rx_ready_def RxDataBuf_inv byte_of_def PKT_SIZE_def)
    (simp add: RxDataBuf_def BasicBuf_def basic_buf.defs BUF_SIZE_def)

lemma fresh_points [simp]: "head_pt (RxDataBuf t0) = 0" "tail_pt (RxDataBuf t0) = 0"
  by (simp_all add: RxDataBuf_def BasicBuf_def basic_buf.defs)

section \<open>Reordering\<close>

text \<open>
  C6: packets put in the buffer in any order, with repetitions, come out complete and in order: if
  the numbers enqueued are the next n after the head, in whatever order, no call waits and n calls
  of DequeuePkt return the n packets in the order of their numbers.
\<close>

theorem reorder_roundtrip:
  assumes "rx_ready sent b" "set ps = {unat (head_pt b)<..unat (head_pt b) + n}" "n < BUF_SIZE"
    and "unat (head_pt b) + n \<le> rx_last"
  shows "\<exists>b1 b2. put_list (rx_put sent) ps b = ok (True, b1)
    \<and> get_list (rx_get now) n b1 = ok (map (\<lambda>i. Some (sent (word_of_nat (unat (head_pt b) + 1 + i)))) [0..<n], b2)
    \<and> unat (head_pt b2) = unat (head_pt b) + n"
  using rx.reorders [OF assms(1,2) _ assms(4)] assms(3) by fastforce

theorem reorder_roundtrip_witness:
  "\<exists>b1 b2. put_list (rx_put byte_of) [3, 1, 3, 2] (RxDataBuf t0) = ok (True, b1)
    \<and> get_list (rx_get t0) 3 b1 = ok ([Some [1], Some [2], Some [3]], b2)"
proof -
  have "set [3, 1, 3, 2] = {unat (head_pt (RxDataBuf t0))<..unat (head_pt (RxDataBuf t0)) + (3 :: nat)}" by auto
  from reorder_roundtrip [OF fresh_ready this, where now = t0]
  show ?thesis by (auto simp: BUF_SIZE_def rx_last_def byte_of_def upt_rec)
qed

section \<open>Progress\<close>

text \<open>
  C19: a full buffer whose head slot is blocked does not stop the threads: EnqueuePkt gives the head
  up and waits, the woken DequeuePkt moves on, and the same EnqueuePkt then returns.
\<close>

theorem full_buffer_unblocks:
  assumes "IsFull b" "bk_status (slot b (head_pt_mod b)) = kBlock" "unat len \<le> PKT_SIZE" "unat len \<le> length pkt"
  shows "\<exists>b1 b2 b3. EnqueuePkt seq len pkt b = ok (False, b1)
    \<and> DequeuePkt_wake now (head_pt_mod b) b1 = ok (Gave_Up, b2) \<and> EnqueuePkt seq len pkt b2 = ok (True, b3)"
  by (rule give_up_unblocks [OF assms, where seq = seq and now = now]) blast

definition blocked_buf :: rx_data_buf where
  "blocked_buf = (RxDataBuf t0)\<lparr>tail_pt := 5000, book_keep_arr := (\<lambda>_. (empty_book t0)\<lparr>bk_status := kBlock\<rparr>)\<rparr>"

lemma blocked_buf_fields:
  "head_pt blocked_buf = 0" "tail_pt blocked_buf = 5000" "bk_status (slot blocked_buf i) = kBlock" "timestamp (slot blocked_buf i) = t0"
  by (simp_all add: blocked_buf_def empty_book_def)

theorem full_buffer_unblocks_witness:
  "\<exists>b1 b2 b3. EnqueuePkt 5001 1 [9] blocked_buf = ok (False, b1)
    \<and> DequeuePkt_wake t0 (head_pt_mod blocked_buf) b1 = ok (Gave_Up, b2) \<and> EnqueuePkt 5001 1 [9] b2 = ok (True, b3)"
  by (rule full_buffer_unblocks) (simp_all add: blocked_buf_fields IsFull_def BUF_SIZE_def PKT_SIZE_def)

section \<open>Errors\<close>

text \<open>
  C38: EnqueuePkt does not check the length: a packet longer than the 1472 bytes of a slot, which
  the client's 2000-byte packet buffers admit, is copied past the end of its slot.
\<close>

theorem enqueue_overflows_slot:
  assumes "\<not> IsFull b" "seq > head_pt b" "bk_status (slot b (Seq2Ind seq)) \<noteq> kOccupiedNew" "unat len > 1472"
  shows "EnqueuePkt seq len pkt b = abort Out_Of_Bounds"
  using enqueue_overlong [OF assms(1-3)] assms(4) by (simp add: PKT_SIZE_def)

theorem enqueue_overflows_slot_witness:
  "EnqueuePkt 1 1473 (replicate 2000 0) (RxDataBuf t0) = abort Out_Of_Bounds"
  by (rule enqueue_overflows_slot)
    (simp_all add: IsFull_def BUF_SIZE_def, simp add: RxDataBuf_def BasicBuf_def basic_buf.defs empty_book_def)

text \<open>
  C26: a packet far ahead restarts the window, but when its slot still holds an undelivered packet
  it is not stored. The old packet is then delivered at the position of the new one, which is lost.
\<close>

theorem restart_delivers_stale_packet:
  assumes "rx_inv sent b" "unat (head_pt b) + BUF_SIZE < unat seq" "bk_status (slot b (Seq2Ind seq)) = kOccupiedNew"
    and "unat len \<le> PKT_SIZE" "unat len \<le> length pkt"
  shows "\<exists>b1 b2 old n. enqueue seq len pkt b = ok b1 \<and> head_pt b1 + 1 = seq \<and> old < seq
    \<and> DequeuePkt now b1 = ok (Got_Pkt (sent old) n, b2) \<and> head_pt b2 = seq"
  by (rule stale_delivery [OF assms, where now = now]) blast

theorem restart_delivers_stale_packet_witness:
  "\<exists>b. rx_inv byte_of b \<and> (\<exists>b1 b2 old n. enqueue 5002 1 [9] b = ok b1 \<and> head_pt b1 + 1 = 5002 \<and> old < 5002
    \<and> DequeuePkt t0 b1 = ok (Got_Pkt (byte_of old) n, b2) \<and> head_pt b2 = 5002)"
proof -
  obtain b where b: "enqueue 2 1 [2] (RxDataBuf t0) = ok b" "rx_inv byte_of b" "head_pt b = head_pt (RxDataBuf t0)" "holds b 2"
    by (rule enqueue_window [OF RxDataBuf_inv [of byte_of], where seq = 2 and len = 1 and pkt = "[2]" and now1 = t0])
      (simp_all add: byte_of_def BUF_SIZE_def PKT_SIZE_def)
  have "bk_status (slot b (Seq2Ind 5002)) = kOccupiedNew" using b(4) by (simp add: holds_def Seq2Ind_def BUF_SIZE_def)
  moreover have "unat (head_pt b) + BUF_SIZE < unat (5002 :: 32 word)" using b(3) by (simp add: BUF_SIZE_def)
  ultimately have "\<exists>b1 b2 old n. enqueue 5002 1 [9] b = ok b1 \<and> head_pt b1 + 1 = 5002 \<and> old < 5002
      \<and> DequeuePkt t0 b1 = ok (Got_Pkt (byte_of old) n, b2) \<and> head_pt b2 = 5002"
    by (intro restart_delivers_stale_packet [OF b(2)]) (simp_all add: PKT_SIZE_def)
  with b(2) show ?thesis by blast
qed

text \<open>
  C25: the search for holes ends the process through its assertion exactly when no packet was ever
  enqueued, the call does not wait for one, and there is something to report: the batch is decoded or
  timed out, or an earlier batch is known to have ended. A call that waited ends the process after
  its wake-up under the same condition on what it finds then.
\<close>

theorem find_nacks_assertion:
  "((\<exists>e. FindNackSeqNum block_time mx now end_time bi prev b = abort e)
      \<longleftrightarrow> tail_pt b = 0 \<and> \<not> FindNack_waits bi prev b
        \<and> (case GetBatchInfo now bi of ((highest, d), bi') \<Rightarrow> d \<or> highest \<noteq> 0))
    \<and> ((\<exists>e. FindNackSeqNum_wake block_time mx now end_time bi prev b = abort e)
      \<longleftrightarrow> tail_pt b = 0 \<and> (case GetBatchInfo now bi of ((highest, d), bi') \<Rightarrow> d \<or> highest \<noteq> 0))"
  using FindNackSeqNum_wake_aborts [of block_time mx now end_time bi prev b] by (simp add: FindNackSeqNum_def)

text \<open>A client that joined at packet 31 and has decoded nothing: the batch, the first one, timed out.\<close>

theorem find_nacks_assertion_witness:
  "\<exists>e. FindNackSeqNum 50 500 \<lparr>tv_sec = 2, tv_usec = 0\<rparr> \<lparr>tv_sec = 2, tv_usec = 0\<rparr>
    ((BatchInfo t0 0)\<lparr>bi_batch_id := 4, bi_highest_decoded_seq := 30\<rparr>) 0 (RxDataBuf t0) = abort e"
proof -
  let ?now = "\<lparr>tv_sec = 2, tv_usec = 0\<rparr>" and ?bi = "(BatchInfo t0 0)\<lparr>bi_batch_id := 4, bi_highest_decoded_seq := 30\<rparr>"
  have "case GetBatchInfo ?now ?bi of ((highest, d), bi') \<Rightarrow> d \<or> highest \<noteq> 0"
    by (simp add: GetBatchInfo_def decoding_done_def IsTimeOut_def BatchInfo_def time_minus_def t0_def)
  moreover have "\<not> FindNack_waits ?bi 0 (RxDataBuf t0)" by (simp add: FindNack_waits_def GetBatchID_def)
  ultimately show ?thesis using find_nacks_assertion [of 50 500 ?now ?now ?bi 0 "RxDataBuf t0"] by simp
qed

text \<open>
  C39: when there are 500 numbers or more to report (hole_numbers: the open holes up to the tail and
  what lies behind it, or only up to the previous batch's last packet while the batch is neither decoded
  nor over its time), a search that does not wait reports none: every one of them is given up, its slot
  marked kDrop, and no packet that the buffer holds is lost, provided that the last number to report is
  at most 5000 behind the head. The buffer may be any well-formed one that got a packet.
\<close>

theorem overfull_report_gives_up:
  assumes "rx_ok stale sent b" "tail_pt b \<noteq> 0" "unat (tail_pt b) + 1 < 2 ^ 32" "\<not> FindNack_waits bi prev b"
    and "GetBatchInfo now bi = ((highest, d), bi')" "scans (head_pt b) (tail_pt b) highest d"
    and "length (hole_numbers block_time end_time b highest d) \<ge> 500" "unat (scan_end (tail_pt b) highest d) \<le> unat (head_pt b) + 5000"
  shows "\<exists>prev' b'. FindNackSeqNum block_time ACK_WINDOW now end_time bi prev b
        = ok (Nacks [] (scan_end (tail_pt b) highest d), bi', prev', b')
    \<and> (\<forall>p\<in>set (hole_numbers block_time end_time b highest d). bk_status (slot b' (Seq2Ind (word_of_nat p))) = kDrop)
    \<and> (\<forall>s. holds b s \<longrightarrow> holds b' s)"
proof -
  let ?p = "scan_last (tail_pt b) highest d - 1" and ?fin = "scan_end (tail_pt b) highest d"
  note h = hole_numbers_positions [OF assms(1-3,6)]
  have plan: "nack_range (head_pt b) (tail_pt b) highest d = Scan_To ?p ?fin" using assms(6) by (simp add: nack_range_scans)
  have many: "ACK_WINDOW \<le> length (nack_positions block_time end_time b ?p ?fin)" using assms(7) h(1) by (simp add: ACK_WINDOW_def)
  have far: "unat ?fin \<le> unat (head_pt b) + BUF_SIZE" using assms(8) by (simp add: BUF_SIZE_def)
  obtain b' where f: "find_nacks block_time ACK_WINDOW end_time (Scan_To ?p ?fin) (head_pt b) (tail_pt b) b = ok (([], ?fin), b')"
    and r: "\<And>p. p \<in> set (nack_positions block_time end_time b ?p ?fin) \<Longrightarrow> bk_status (slot b' (Seq2Ind (word_of_nat p))) = kDrop"
      "\<And>s. holds b s \<Longrightarrow> holds b' s"
    by (rule find_nacks_overfull [OF assms(1) h(2,3) assms(3) many far]) blast
  have "\<exists>prev'. FindNackSeqNum block_time ACK_WINDOW now end_time bi prev b = ok (Nacks [] ?fin, bi', prev', b')"
    using assms(4,5) plan f by (simp add: FindNackSeqNum_def FindNackSeqNum_wake_def Let_def)
  then show ?thesis using r h(1) by auto
qed

text \<open>600 packets are missing and the batch is decoded.\<close>

theorem overfull_report_gives_up_witness:
  "\<exists>prev' b'. FindNackSeqNum 50 ACK_WINDOW t0 t0 ((BatchInfo t0 0)\<lparr>bi_decoding_done := True, bi_highest_decoded_seq := 600\<rparr>) 0
        ((RxDataBuf t0)\<lparr>tail_pt := 600\<rparr>)
      = ok (Nacks [] 600, (BatchInfo t0 0)\<lparr>bi_decoding_done := True, bi_highest_decoded_seq := 600\<rparr>, prev', b')
    \<and> bk_status (slot b' 0) = kDrop \<and> bk_status (slot b' 599) = kDrop"
proof -
  let ?b = "(RxDataBuf t0)\<lparr>tail_pt := 600\<rparr>"
  let ?bi = "(BatchInfo t0 0)\<lparr>bi_decoding_done := True, bi_highest_decoded_seq := 600\<rparr>"
  have empty: "bk_status (slot ?b i) = kEmpty" for i by (simp add: RxDataBuf_def BasicBuf_def basic_buf.defs empty_book_def)
  then have inv: "rx_inv byte_of ?b"
    using RxDataBuf_inv [of byte_of t0] by (simp add: rx_inv_def BUF_SIZE_def)
  have all: "filter (open_hole 50 t0 ?b) [0..<600] = [0..<600]" using empty by (simp add: open_hole_def filter_id_conv)
  have info: "GetBatchInfo t0 ?bi = ((600, True), ?bi)" by (simp add: GetBatchInfo_def decoding_done_def BatchInfo_def)
  have p: "scan_last (tail_pt ?b) 600 True = 600" "scan_end (tail_pt ?b) 600 True = 600" "scans (head_pt ?b) (tail_pt ?b) 600 True"
    by (simp_all add: scan_last_def scan_end_def scans_def)
  have nums: "hole_numbers 50 t0 ?b 600 True = map Suc [0..<600]"
    using all by (simp add: hole_numbers_def p [simplified] del: upt_Suc)
  have s: "Seq2Ind (word_of_nat 1) = 0" "Seq2Ind (word_of_nat 600) = 599" by (simp_all add: Seq2Ind_def BUF_SIZE_def)
  have "\<not> FindNack_waits ?bi 0 ?b" by (simp add: FindNack_waits_def IsEmpty_def)
  from overfull_report_gives_up [OF rx_ok_mono [OF inv] _ _ this info p(3), where block_time = 50 and end_time = t0, unfolded p(1,2) nums]
  obtain prev' b' where r: "FindNackSeqNum 50 ACK_WINDOW t0 t0 ?bi 0 ?b = ok (Nacks [] 600, ?bi, prev', b')"
    and d: "\<forall>p\<in>set (map Suc [0..<600]). bk_status (slot b' (Seq2Ind (word_of_nat p))) = kDrop"
    by (auto simp: ACK_WINDOW_def simp del: upt_Suc map_Suc_upt)
  have "1 \<in> set (map Suc [0..<600])" "600 \<in> set (map Suc [0..<600])" unfolding map_Suc_upt by simp_all
  then show ?thesis using r d s by metis
qed

section \<open>The raw packet record\<close>

definition sample_events :: "raw_event list" where
  "sample_events = [Push_Event 3 True, Pop_Event 1, Push_Event 2 True, Push_Event 5 True]"

lemma sample_run_value: "pending (raw_run 2 sample_events) = [1, 2, 4]"
  by (simp add: sample_events_def raw_run_def raw_begin_def raw_step_def PushPkts_def RxRawBuf_def set_max_send_cnt_def
    Let_def kMaxBufSize_def PopPktStatus_def gap_def count_send_def pending_def upt_rec)

text \<open>
  C33: for every count \<open>mx\<close> of option -A, a receiver that pushes good packets only has at most
  499 times \<open>mx\<close> pending numbers (0 counts as 256), in increasing order and less than 500 times
  \<open>mx\<close> below the last number seen, even if the record overflows. Without the option they fit an
  acknowledgement of 500 entries with 16-bit differences.
\<close>

theorem raw_pending_bound:
  assumes "\<forall>s. Push_Event s False \<notin> set evs"
  shows "length (pending (raw_run mx evs)) \<le> (ACK_WINDOW - 1) * max_reports mx \<and> sorted_wrt (<) (pending (raw_run mx evs))
    \<and> (\<forall>s\<in>set (pending (raw_run mx evs)). s \<le> rb_end_seq (hist_buf (raw_run mx evs))
         \<and> unat (rb_end_seq (hist_buf (raw_run mx evs))) < unat s + ACK_WINDOW * max_reports mx)"
proof -
  have b: "raw_good (hist_buf (raw_run mx evs))" "raw_span (hist_buf (raw_run mx evs))" using good_run_span [OF assms] by simp_all
  then have inv: "raw_inv (hist_buf (raw_run mx evs))" by (simp add: raw_good_def)
  show ?thesis
    using raw_good_pending [OF b(1)] raw_span_near [OF inv b(2)] inv b(2)
    by (auto simp: pending_def raw_run_max ACK_WINDOW_def raw_span_def raw_inv_def)
qed

theorem raw_pending_bound_witness:
  "length (pending (raw_run 2 sample_events)) \<le> (ACK_WINDOW - 1) * max_reports 2
    \<and> sorted_wrt (<) (pending (raw_run 2 sample_events)) \<and> pending (raw_run 2 sample_events) = [1, 2, 4]"
  using raw_pending_bound [of sample_events 2] sample_run_value by (simp add: sample_events_def)

section \<open>The ring\<close>

text \<open>
  C27: AcquireTailLock and AcquireHeadLock refine a bounded first-in first-out queue of slots: over
  any interleaving from an empty buffer, the consumers get the slots in the order the producers got
  them, at most 5000 are outstanding, and until the positions wrap no slot has two owners.
\<close>

theorem ring_is_fifo:
  assumes "ring_inv b" "IsEmpty b"
  shows "produced (ring_run AcquireTailLock AcquireHeadLock ops b)
      = consumed (ring_run AcquireTailLock AcquireHeadLock ops b)
        @ ring_slots (ring (ring_run AcquireTailLock AcquireHeadLock ops b))
    \<and> length (ring_slots (ring (ring_run AcquireTailLock AcquireHeadLock ops b))) \<le> BUF_SIZE
    \<and> (unat (head_pt (ring (ring_run AcquireTailLock AcquireHeadLock ops b)))
          + length (ring_slots (ring (ring_run AcquireTailLock AcquireHeadLock ops b))) \<le> 2 ^ 32
        \<longrightarrow> distinct (ring_slots (ring (ring_run AcquireTailLock AcquireHeadLock ops b))))"
proof -
  have "ring_slots b = []" using assms(2) length_ring_slots [of b] by (simp add: IsEmpty_fill)
  then have r: "ring_inv (ring (ring_run AcquireTailLock AcquireHeadLock ops b))"
    and p: "produced (ring_run AcquireTailLock AcquireHeadLock ops b)
      = consumed (ring_run AcquireTailLock AcquireHeadLock ops b) @ ring_slots (ring (ring_run AcquireTailLock AcquireHeadLock ops b))"
    using ringq.run_fifo [OF assms(1)] by blast+
  show ?thesis using p ringq.bounded [OF r] distinct_ring_slots [OF r] by (simp add: length_ring_slots)
qed

theorem ring_is_fifo_witness:
  "\<exists>l. l = ring_run AcquireTailLock AcquireHeadLock [Acquire_Tail, Acquire_Tail, Acquire_Head] (BasicBuf t0)
    \<and> produced l = [0, 1] \<and> consumed l = [0] \<and> ring_slots (ring l) = [1]"
proof -
  have b: "ring_inv (BasicBuf t0)" "IsEmpty (BasicBuf t0)"
    by (simp_all add: ring_inv_def fill_def BasicBuf_def IsEmpty_def)
  let ?l = "ring_run AcquireTailLock AcquireHeadLock [Acquire_Tail, Acquire_Tail, Acquire_Head] (BasicBuf t0)"
  have "produced ?l = [0, 1]" "consumed ?l = [0]"
    by (simp_all add: ring_run_def ring_step_def AcquireTailLock_def AcquireHeadLock_def IsFull_def IsEmpty_def BasicBuf_def
      IncrementTailPt_def IncrementHeadPt_def tail_pt_mod_def head_pt_mod_def BUF_SIZE_def)
  then show ?thesis using ring_is_fifo [OF b, of "[Acquire_Tail, Acquire_Tail, Acquire_Head]"] by simp
qed

section \<open>Headers\<close>

text \<open>
  C32: what SetHeader writes in front of a packet, the header and the lengths, is what ParseHeader
  and lens() read from its bytes on the other side.
\<close>

theorem header_roundtrip:
  assumes "batch_id > 0" "start_seq > 0" "0 \<le> ind" "ind < n" "0 < k" "k \<le> n" "k \<le> 10" "n \<le> 255"
    and "length lens = nat k" "36 + 2 * length lens \<le> length pkt"
  shows "\<exists>h' pkt'. SetHeader batch_id start_seq ATH_CODE ind k n lens bs client h = ok (h', lens)
    \<and> pkt' = put_u16s ATH_CODE_HEADER_SIZE lens (put_code_header h' pkt) \<and> code_header_at pkt' = h'
    \<and> ParseHeader h' = ok \<lparr>p_batch_id = batch_id, p_start_seq = start_seq, p_ind = nat ind, p_k = nat k, p_n = nat n,
         p_bs_id = bs, p_client_id = client\<rparr>
    \<and> hdr_lens h' pkt' = ok lens"
proof -
  have byte: "unat (word_of_int x :: u8) = nat x" if "0 \<le> x" "x \<le> 255" for x :: int
  proof -
    have "(word_of_int x :: u8) = word_of_nat (nat x)" using that(1) by (simp add: of_nat_nat)
    moreover have "nat x < 256" using that by simp
    ultimately show ?thesis by (simp only: unat_of_nat) simp
  qed
  have u: "unat (word_of_int ind :: u8) = nat ind" "unat (word_of_int k :: u8) = nat k" "unat (word_of_int n :: u8) = nat n"
    using assms byte by simp_all
  let ?h = "h\<lparr>ch_batch_id := batch_id, ah_type := ATH_CODE, ch_start_seq := start_seq, ch_ind := word_of_int ind,
    ch_k := word_of_int k, ch_n := word_of_int n, ah_bs_id := bs, ah_client_id := client\<rparr>"
  let ?p = "put_u16s ATH_CODE_HEADER_SIZE lens (put_code_header ?h pkt)"
  have set: "SetHeader batch_id start_seq ATH_CODE ind k n lens bs client h = ok (?h, lens)"
    using assms u by (simp add: SetHeader_def Let_def)
  have at: "code_header_at ?p = ?h"
    using code_header_at_lens [of lens "put_code_header ?h pkt"] code_header_at_put [of pkt ?h] assms(10)
    by (simp add: ATH_CODE_HEADER_SIZE_def)
  have pos: "ch_k ?h > 0" using u(2) assms(5) by (simp add: word_less_nat_alt)
  have parse: "ParseHeader ?h = ok \<lparr>p_batch_id = batch_id, p_start_seq = start_seq, p_ind = nat ind, p_k = nat k, p_n = nat n,
      p_bs_id = bs, p_client_id = client\<rparr>"
    using assms u nat_mono [OF assms(6)] nat_mono [OF assms(7)]
    by (simp add: ParseHeader_def MAX_BATCH_SIZE_def word_less_nat_alt word_le_nat_alt)
  have "hdr_lens ?h ?p = ok lens"
    using pos u(2) load_u16s_put_u16s [of 36 lens "put_code_header ?h pkt"] assms(9,10)
    by (simp add: hdr_lens_def ATH_CODE_HEADER_SIZE_def)
  then show ?thesis using set at parse by blast
qed

definition sample_header :: ath_code_header where
  "sample_header = \<lparr>ah_type = 0, raw_seq = 0, ah_rate = 0x0B, ah_bs_id = 0, ah_client_id = 0, is_good = True,
     ch_batch_id = 0, ch_start_seq = 0, ch_ind = 0, ch_k = 0, ch_n = 0\<rparr>"

theorem header_roundtrip_witness:
  "\<exists>h' pkt'. SetHeader 4 31 ATH_CODE 2 2 3 [100, 1400] 2 9 sample_header = ok (h', [100, 1400])
    \<and> pkt' = put_u16s ATH_CODE_HEADER_SIZE [100, 1400] (put_code_header h' (replicate 2000 0)) \<and> code_header_at pkt' = h'
    \<and> ParseHeader h' = ok \<lparr>p_batch_id = 4, p_start_seq = 31, p_ind = nat 2, p_k = nat 2, p_n = nat 3, p_bs_id = 2, p_client_id = 9\<rparr>
    \<and> hdr_lens h' pkt' = ok [100, 1400]"
  by (rule header_roundtrip) simp_all

end
