(* ===== verification/Rx_Locks.thy ===== *)
theory Rx_Locks
  imports Rx_Run
begin

text \<open>
  The receive buffer with its locks: \<open>qlock_\<close>, the lock of every slot, and the three condition
  variables that the program waits on (\<open>src/wspace_asym_util.h\<close>, \<open>src/pthread_wrapper.h\<close>). Every
  thread has its place in \<open>EnqueuePkt\<close>, \<open>DequeuePkt\<close> or \<open>FindNackSeqNum\<close>
  (\<open>src/wspace_asym_util.cc\<close>). A step runs one thread from one lock, unlock or wait to the next, so
  that the threads interleave everywhere the program lets them; in particular an operation is no
  longer one step, and a signal that nobody waits for is lost.
\<close>

section \<open>Locks, conditions and threads\<close>

text \<open>
  \<open>Rcv\<close> are the threads that enqueue: \<open>RxRcvAth\<close> of the radio and \<open>RxRcvCell\<close>. One thread takes packets
  out and one acknowledges, as \<open>main\<close> starts them (\<open>Client_Main\<close>).
\<close>

datatype thread = Rcv nat | Write_Tun | Create_Ack

datatype lock_owner = kFree | kRcvAth | kWriteTun | kCreateAck | kSendCell

fun owner_of :: "thread \<Rightarrow> lock_owner" where
  "owner_of (Rcv n) = kRcvAth"
| "owner_of Write_Tun = kWriteTun"
| "owner_of Create_Ack = kCreateAck"

datatype lock = Queue | Element nat

datatype cond = empty_cond | fill_cond | element_avail_cond

text \<open>
  The places at which a thread can be preempted, with the values of its local variables that are
  still needed. \<open>E_\<close> is \<open>EnqueuePkt\<close>, \<open>D_\<close> is \<open>DequeuePkt\<close>, \<open>A_\<close> is \<open>FindNackSeqNum\<close>.
\<close>

datatype place =
    Idle
  | E_Test u32 u16 "u8 list"
  | E_Full u32 u16 "u8 list" nat
  | E_Slot u32 u16 "u8 list"
  | E_Tail u32 bool
  | E_Wrap u32 nat
  | E_Clear u32 nat
  | D_Test
  | D_Slot nat
  | D_Unlocked nat
  | D_Woken nat
  | D_Pick nat
  | A_Test
  | A_Woken
  | A_Plan u32 u32
  | A_Scan time nat u32 u32 u32 "u32 list"
  | A_Drop u32 "u32 list"

text \<open>
  A thread runs at a place, waits for a lock to go on at a place, or sleeps on a condition with a
  lock to take again when it wakes.
\<close>

datatype thread_state = Running place | Acquiring lock place | Sleeping cond lock place

fun place_of :: "thread_state \<Rightarrow> place" where
  "place_of (Running P) = P"
| "place_of (Acquiring l P) = P"
| "place_of (Sleeping c l P) = P"

text \<open>The locks a thread has at a place, and in a state.\<close>

fun held :: "place \<Rightarrow> lock set" where
  "held Idle = {}"
| "held (E_Test seq len pkt) = {Queue}"
| "held (E_Full seq len pkt i) = {Queue, Element i}"
| "held (E_Slot seq len pkt) = {Queue, Element (Seq2Ind seq)}"
| "held (E_Tail seq w) = {Queue}"
| "held (E_Wrap seq k) = {Queue}"
| "held (E_Clear seq k) = {Queue, Element (k mod BUF_SIZE)}"
| "held D_Test = {Queue}"
| "held (D_Slot i) = {Queue, Element i}"
| "held (D_Unlocked i) = {Element i}"
| "held (D_Woken i) = {Element i}"
| "held (D_Pick i) = {Queue}"
| "held A_Test = {Queue}"
| "held A_Woken = {Queue}"
| "held (A_Plan h t) = {}"
| "held (A_Scan now k p t e ns) = {Element (k mod BUF_SIZE)}"
| "held (A_Drop s ss) = {Element (Seq2Ind s)}"

fun holding :: "thread_state \<Rightarrow> lock set" where
  "holding (Running P) = held P"
| "holding (Acquiring l P) = held P - {l}"
| "holding (Sleeping c l P) = held P - {l}"

section \<open>The code between two places\<close>

text \<open>
  What a segment reads from elsewhere: the clock, the parameters of the call, whether the batch was
  acknowledged before (\<open>batch_id <= batch_id_prev\<close>) and what \<open>GetBatchInfo\<close> answers.
\<close>

record reads =
  the_time :: time
  block_time :: int
  max_num_nacks :: nat
  batch_acked :: bool
  highest_decoded :: u32
  is_decoded :: bool

text \<open>
  What a segment does: the next state of its thread, the buffer, the locks it releases (by an unlock
  or by a wait), the conditions it signals, and the packet it returns to \<open>RxWriteTun\<close>.
\<close>

record segment_result =
  next_state :: thread_state
  new_buf :: rx_data_buf
  released :: "lock list"
  signals :: "cond list"
  returned :: "(u32 \<times> u8 list) list"

abbreviation seg ::
  "thread_state \<Rightarrow> rx_data_buf \<Rightarrow> lock list \<Rightarrow> cond list \<Rightarrow> (u32 \<times> u8 list) list \<Rightarrow> segment_result outcome" where
  "seg T b ls cs ds \<equiv> ok \<lparr>next_state = T, new_buf = b, released = ls, signals = cs, returned = ds\<rparr>"

text \<open>The loops of \<open>FindNackSeqNum\<close>: the next slot to give up, the next position to scan.\<close>

fun next_drop :: "u32 list \<Rightarrow> thread_state" where
  "next_drop [] = Running Idle"
| "next_drop (s # ss) = Acquiring (Element (Seq2Ind s)) (A_Drop s ss)"

definition next_scan :: "nat \<Rightarrow> time \<Rightarrow> nat \<Rightarrow> u32 \<Rightarrow> u32 \<Rightarrow> u32 \<Rightarrow> u32 list \<Rightarrow> thread_state" where
  "next_scan mx now k end_pt tail end_seq ns =
     (if k \<le> unat end_pt then Acquiring (Element (k mod BUF_SIZE)) (A_Scan now k end_pt tail end_seq ns)
      else let nacks = ns @ nacks_behind tail end_seq
           in if length nacks \<ge> mx then next_drop nacks else Running Idle)"

text \<open>
  \<open>EnqueuePkt\<close>. The slots of a full buffer's head, of the packet and of the positions the tail
  passes are locked one after the other; a restarted window is cleared without their locks. The
  return for \<open>seq_num <= head_pt\<close> under the lock of the slot, which would leave the queue locked, is
  never taken: both values are local copies compared before.
\<close>

fun enqueue_segment :: "place \<Rightarrow> rx_data_buf \<Rightarrow> segment_result outcome" where
  "enqueue_segment (E_Test seq len pkt) b =
     (if IsFull b then seg (Acquiring (Element (head_pt_mod b)) (E_Full seq len pkt (head_pt_mod b))) b [] [] []
      else if seq > head_pt b then seg (Acquiring (Element (Seq2Ind seq)) (E_Slot seq len pkt)) b [] [] []
      else seg (Running (E_Tail seq False)) b [] [] [])"
| "enqueue_segment (E_Full seq len pkt i) b =
     seg (Sleeping empty_cond Queue (E_Test seq len pkt)) (give_up_head b) [Element i, Queue] [element_avail_cond] []"
| "enqueue_segment (E_Slot seq len pkt) b =
     (let is_wrap = (seq > head_pt b + word_of_nat BUF_SIZE);
          stat_book = bk_status (slot b (Seq2Ind seq))
      in and_then (store_in_slot seq len pkt b) (\<lambda>b.
           seg (Running (E_Tail seq is_wrap)) b [Element (Seq2Ind seq)]
             (if (stat_book = kBlock \<or> stat_book = kDrop) \<and> \<not> is_wrap then [element_avail_cond] else []) []))"
| "enqueue_segment (E_Tail seq is_wrap) b =
     (if is_wrap then seg (Running (E_Wrap seq 0)) (set_tail_pt seq (set_head_pt (seq - 1) b)) [] [] []
      else if seq > tail_pt b
           then seg (Acquiring (Element (unat (tail_pt b) mod BUF_SIZE)) (E_Clear seq (unat (tail_pt b)))) b [] [] []
           else seg (Running Idle) b [Queue] [] [])"
| "enqueue_segment (E_Wrap seq k) b =
     (if k < BUF_SIZE then seg (Running (E_Wrap seq (Suc k))) (if k \<noteq> Seq2Ind seq then clear_slot k b else b) [] [] []
      else seg (Running Idle) b [Queue] [element_avail_cond, fill_cond, empty_cond] [])"
| "enqueue_segment (E_Clear seq k) b =
     (if Suc k < unat seq
      then seg (Acquiring (Element (Suc k mod BUF_SIZE)) (E_Clear seq (Suc k))) (clear_if_read k b) [Element (k mod BUF_SIZE)] [] []
      else seg (Running Idle) (set_tail_pt seq (clear_if_read k b)) [Element (k mod BUF_SIZE), Queue] [fill_cond] [])"
| "enqueue_segment P b = seg (Running P) b [] [] []"

text \<open>
  \<open>DequeuePkt\<close>. The queue is unlocked before the wait on the slot (\<open>D_Unlocked\<close>); after the wait
  the slot is unlocked, the queue locked, and the slot of the head looked up (\<open>D_Pick\<close>).
\<close>

fun dequeue_segment :: "time \<Rightarrow> place \<Rightarrow> rx_data_buf \<Rightarrow> segment_result outcome" where
  "dequeue_segment now D_Test b =
     (if IsEmpty b then seg (Sleeping fill_cond Queue D_Test) b [Queue] [] []
      else seg (Acquiring (Element (head_pt_mod b)) (D_Slot (head_pt_mod b))) b [] [fill_cond] [])"
| "dequeue_segment now (D_Slot i) b =
     and_then (deq_slot now i b) (\<lambda>(r, b').
       case r of
         Got_Pkt p len \<Rightarrow> seg (Running Idle) b' [Element i, Queue] [empty_cond] [(head_pt b + 1, p)]
       | Gave_Up \<Rightarrow> seg (Running Idle) b' [Element i, Queue] [empty_cond] []
       | _ \<Rightarrow> seg (Running (D_Unlocked i)) b' [Queue] [] [])"
| "dequeue_segment now (D_Unlocked i) b = seg (Sleeping element_avail_cond (Element i) (D_Woken i)) b [Element i] [] []"
| "dequeue_segment now (D_Woken i) b = seg (Acquiring Queue (D_Pick i)) b [Element i] [] []"
| "dequeue_segment now (D_Pick i) b =
     (let index = (if bk_seq_num (slot b i) \<noteq> head_pt b + 1 then head_pt_mod b else i)
      in seg (Acquiring (Element index) (D_Slot index)) b [] [] [])"
| "dequeue_segment now P b = seg (Running P) b [] [] []"

text \<open>\<open>FindNackSeqNum\<close>. After the snapshot of the pointers it holds the lock of one slot at a time.\<close>

fun find_nack_segment :: "reads \<Rightarrow> place \<Rightarrow> rx_data_buf \<Rightarrow> segment_result outcome" where
  "find_nack_segment v A_Test b =
     (if batch_acked v \<and> IsEmpty b then seg (Sleeping fill_cond Queue A_Woken) b [Queue] [] []
      else seg (Running (A_Plan (head_pt b) (tail_pt b))) b [Queue] [] [])"
| "find_nack_segment v A_Woken b = seg (Running (A_Plan (head_pt b) (tail_pt b))) b [Queue] [fill_cond] []"
| "find_nack_segment v (A_Plan head tail) b =
     (case nack_range head tail (highest_decoded v) (is_decoded v) of
        Only_End end_seq \<Rightarrow> seg (Running Idle) b [] [] []
      | Scan_To end_pt end_seq \<Rightarrow>
          if \<not> end_pt < tail then abort Assert_Failed
          else seg (next_scan (max_num_nacks v) (the_time v) (unat head) end_pt tail end_seq []) b [] [] [])"
| "find_nack_segment v (A_Scan now k end_pt tail end_seq ns) b =
     (let (ns', b') = scan_slot (block_time v) now k (ns, b)
      in seg (next_scan (max_num_nacks v) now (Suc k) end_pt tail end_seq ns') b' [Element (k mod BUF_SIZE)]
           (if bk_status (slot b (k mod BUF_SIZE)) = kBlock \<and> bk_status (slot b' (k mod BUF_SIZE)) = kDrop
            then [element_avail_cond] else []) [])"
| "find_nack_segment v (A_Drop s ss) b = seg (next_drop ss) (drop_nack s b) [Element (Seq2Ind s)] [element_avail_cond] []"
| "find_nack_segment v P b = seg (Running P) b [] [] []"

text \<open>Each thread runs its operation.\<close>

fun segment :: "reads \<Rightarrow> thread \<Rightarrow> place \<Rightarrow> rx_data_buf \<Rightarrow> segment_result outcome" where
  "segment v (Rcv n) P b = enqueue_segment P b"
| "segment v Write_Tun P b = dequeue_segment (the_time v) P b"
| "segment v Create_Ack P b = find_nack_segment v P b"

fun entry_of :: "thread \<Rightarrow> place \<Rightarrow> bool" where
  "entry_of (Rcv n) (E_Test seq len pkt) \<longleftrightarrow> True"
| "entry_of Write_Tun D_Test \<longleftrightarrow> True"
| "entry_of Create_Ack A_Test \<longleftrightarrow> True"
| "entry_of t P \<longleftrightarrow> False"

section \<open>States and steps\<close>

record lock_state =
  rx_buf :: rx_data_buf
  locks :: "lock \<Rightarrow> thread option"
  owner :: "nat \<Rightarrow> lock_owner"
  threads :: "thread \<Rightarrow> thread_state"
  got :: "(u32 \<times> u8 list) list"

definition lock_init :: "time \<Rightarrow> lock_state" where
  "lock_init now = \<lparr>rx_buf = RxDataBuf now, locks = (\<lambda>_. None), owner = (\<lambda>_. kFree), threads = (\<lambda>_. Running Idle), got = []\<rparr>"

text \<open>
  \<open>LockElement\<close> notes its caller in the member \<open>owner\<close> and \<open>UnLockElement\<close> resets it; the wait on
  a slot releases and takes the lock without touching it.
\<close>

fun LockElement :: "thread \<Rightarrow> lock \<Rightarrow> place \<Rightarrow> (nat \<Rightarrow> lock_owner) \<Rightarrow> nat \<Rightarrow> lock_owner" where
  "LockElement t (Element i) P w = (if P = D_Woken i then w else w(i := owner_of t))"
| "LockElement t Queue P w = w"

fun UnLockElement :: "lock \<Rightarrow> thread_state \<Rightarrow> (nat \<Rightarrow> lock_owner) \<Rightarrow> nat \<Rightarrow> lock_owner" where
  "UnLockElement (Element i) T w = (if T = Sleeping element_avail_cond (Element i) (D_Woken i) then w else w(i := kFree))"
| "UnLockElement Queue T w = w"

definition release :: "lock list \<Rightarrow> (lock \<Rightarrow> thread option) \<Rightarrow> lock \<Rightarrow> thread option" where
  "release ls m = (\<lambda>l. if l \<in> set ls then None else m l)"

text \<open>\<open>pthread_cond_signal\<close> wakes one of the threads that sleep on the condition, if there is one.\<close>

fun sleeps_on :: "cond \<Rightarrow> thread_state \<Rightarrow> bool" where
  "sleeps_on c (Sleeping c' l P) \<longleftrightarrow> c' = c"
| "sleeps_on c T \<longleftrightarrow> False"

inductive woken_by :: "cond list \<Rightarrow> (thread \<Rightarrow> thread_state) \<Rightarrow> (thread \<Rightarrow> thread_state) \<Rightarrow> bool" where
  no_signal: "woken_by [] ts ts"
| lost_signal: "\<forall>t. \<not> sleeps_on c (ts t) \<Longrightarrow> woken_by cs ts ts' \<Longrightarrow> woken_by (c # cs) ts ts'"
| wakes_one: "ts t = Sleeping c l P \<Longrightarrow> woken_by cs (ts(t := Acquiring l P)) ts' \<Longrightarrow> woken_by (c # cs) ts ts'"

text \<open>
  \<open>admit\<close> restricts the packets that are stored; \<open>\<lambda>_ _ _ _. True\<close> is the program. A thread that
  sleeps may wake without a signal.
\<close>

fun admits :: "(u32 \<Rightarrow> u16 \<Rightarrow> u8 list \<Rightarrow> rx_data_buf \<Rightarrow> bool) \<Rightarrow> place \<Rightarrow> rx_data_buf \<Rightarrow> bool" where
  "admits admit (E_Slot seq len pkt) b \<longleftrightarrow> admit seq len pkt b"
| "admits admit P b \<longleftrightarrow> True"

inductive lock_step :: "(u32 \<Rightarrow> u16 \<Rightarrow> u8 list \<Rightarrow> rx_data_buf \<Rightarrow> bool) \<Rightarrow> lock_state \<Rightarrow> lock_state \<Rightarrow> bool" for admit where
  call_op: "threads s t = Running Idle \<Longrightarrow> entry_of t P
      \<Longrightarrow> lock_step admit s (s\<lparr>threads := (threads s)(t := Acquiring Queue P)\<rparr>)"
| acquire: "threads s t = Acquiring l P \<Longrightarrow> locks s l = None
      \<Longrightarrow> lock_step admit s (s\<lparr>locks := (locks s)(l := Some t), owner := LockElement t l P (owner s),
            threads := (threads s)(t := Running P)\<rparr>)"
| run: "threads s t = Running P \<Longrightarrow> admits admit P (rx_buf s) \<Longrightarrow> segment v t P (rx_buf s) = ok r
      \<Longrightarrow> woken_by (signals r) ((threads s)(t := next_state r)) ts
      \<Longrightarrow> lock_step admit s (s\<lparr>rx_buf := new_buf r, locks := release (released r) (locks s),
            owner := fold (\<lambda>l. UnLockElement l (next_state r)) (released r) (owner s),
            threads := ts, got := got s @ returned r\<rparr>)"
| spurious: "threads s t = Sleeping c l P \<Longrightarrow> lock_step admit s (s\<lparr>threads := (threads s)(t := Acquiring l P)\<rparr>)"

definition lock_reachable :: "(u32 \<Rightarrow> u16 \<Rightarrow> u8 list \<Rightarrow> rx_data_buf \<Rightarrow> bool) \<Rightarrow> lock_state \<Rightarrow> bool" where
  "lock_reachable admit s \<longleftrightarrow> (\<exists>now. (lock_step admit)\<^sup>*\<^sup>* (lock_init now) s)"

abbreviation any_packet :: "u32 \<Rightarrow> u16 \<Rightarrow> u8 list \<Rightarrow> rx_data_buf \<Rightarrow> bool" where
  "any_packet \<equiv> \<lambda>_ _ _ _. True"

lemma lock_reachable_induct:
  assumes "lock_reachable admit s" "\<And>now. I (lock_init now)" "\<And>s s'. I s \<Longrightarrow> lock_step admit s s' \<Longrightarrow> I s'"
  shows "I s"
proof -
  obtain now where "(lock_step admit)\<^sup>*\<^sup>* (lock_init now) s" using assms(1) by (auto simp: lock_reachable_def)
  then show ?thesis by (induction rule: rtranclp_induct) (auto intro: assms(2,3))
qed

lemma lock_reachable_step: "lock_reachable admit s \<Longrightarrow> lock_step admit s s' \<Longrightarrow> lock_reachable admit s'"
  unfolding lock_reachable_def by (meson rtranclp.rtrancl_into_rtrancl)

end
