(* ===== verification/Lock_Discipline.thy ===== *)
theory Lock_Discipline
  imports Rx_Locks
begin

text \<open>
  The locks of the receive buffer are used as they should be: a lock belongs to exactly the thread
  that is at a place where the code holds it, locks are taken in one order (the queue, then a
  slot), and so no thread waits for a lock for ever.
\<close>

section \<open>Where a thread can be\<close>

fun may_be :: "thread \<Rightarrow> place \<Rightarrow> bool" where
  "may_be (Rcv n) P \<longleftrightarrow> (case P of E_Test _ _ _ \<Rightarrow> True | E_Full _ _ _ _ \<Rightarrow> True | E_Slot _ _ _ \<Rightarrow> True | E_Tail _ _ \<Rightarrow> True
     | E_Wrap _ _ \<Rightarrow> True | E_Clear _ _ \<Rightarrow> True | _ \<Rightarrow> P = Idle)"
| "may_be Write_Tun P \<longleftrightarrow> (case P of D_Slot i \<Rightarrow> i < BUF_SIZE | D_Unlocked i \<Rightarrow> i < BUF_SIZE | D_Woken i \<Rightarrow> i < BUF_SIZE
     | D_Pick i \<Rightarrow> i < BUF_SIZE | _ \<Rightarrow> P = Idle \<or> P = D_Test)"
| "may_be Create_Ack P \<longleftrightarrow> (case P of A_Plan _ _ \<Rightarrow> True | A_Scan _ _ _ _ _ _ \<Rightarrow> True | A_Drop _ _ \<Rightarrow> True
     | _ \<Rightarrow> P = Idle \<or> P = A_Test \<or> P = A_Woken)"

text \<open>The queue is locked on entry and after a wait only, a slot only by a thread without another slot.\<close>

fun after_queue :: "place \<Rightarrow> bool" where
  "after_queue (E_Test seq len pkt) \<longleftrightarrow> True"
| "after_queue D_Test \<longleftrightarrow> True"
| "after_queue (D_Pick i) \<longleftrightarrow> True"
| "after_queue A_Test \<longleftrightarrow> True"
| "after_queue A_Woken \<longleftrightarrow> True"
| "after_queue P \<longleftrightarrow> False"

fun wait_place :: "cond \<Rightarrow> lock \<Rightarrow> place \<Rightarrow> bool" where
  "wait_place empty_cond l P \<longleftrightarrow> l = Queue \<and> (\<exists>seq len pkt. P = E_Test seq len pkt)"
| "wait_place fill_cond l P \<longleftrightarrow> l = Queue \<and> (P = D_Test \<or> P = A_Woken)"
| "wait_place element_avail_cond l P \<longleftrightarrow> (\<exists>i. l = Element i \<and> P = D_Woken i)"

fun shape :: "thread \<Rightarrow> thread_state \<Rightarrow> bool" where
  "shape t (Running P) \<longleftrightarrow> may_be t P"
| "shape t (Acquiring l P) \<longleftrightarrow> may_be t P \<and> l \<in> held P \<and> (l = Queue \<longrightarrow> after_queue P) \<and> (\<forall>i. P \<noteq> D_Unlocked i)"
| "shape t (Sleeping c l P) \<longleftrightarrow> may_be t P \<and> wait_place c l P"

lemma after_queue_held: "after_queue P \<Longrightarrow> held P = {Queue}"
  by (cases P) simp_all

lemma wait_place_held: "wait_place c l P \<Longrightarrow> held P = {l} \<and> (l = Queue \<longrightarrow> after_queue P)"
  by (cases c) auto

lemma shape_wakes: "shape t (Sleeping c l P) \<Longrightarrow> shape t (Acquiring l P)"
  using wait_place_held [of c l P] by (cases c) auto

lemma shape_asleep: "shape t (Sleeping c l P) \<Longrightarrow> holding (Sleeping c l P) = {}"
  using wait_place_held [of c l P] by simp

lemma shape_waits_queue: "shape t (Acquiring Queue P) \<Longrightarrow> holding (Acquiring Queue P) = {}"
  using after_queue_held [of P] by simp

lemma shape_waits_slot: "shape t (Acquiring (Element i) P) \<Longrightarrow> holding (Acquiring (Element i) P) \<subseteq> {Queue}"
  by (cases P) auto

text \<open>A segment ends in such a state again and releases exactly the locks its thread no longer holds.\<close>

lemma next_drop_state: "shape Create_Ack (next_drop ns)" "holding (next_drop ns) = {}"
  by (cases ns; simp)+

lemma next_scan_state:
  "shape Create_Ack (next_scan mx now k p t e ns)" "holding (next_scan mx now k p t e ns) = {}"
  by (simp_all add: next_scan_def next_drop_state Let_def)

lemma enqueue_segment_locks:
  assumes "may_be (Rcv n) P" "enqueue_segment P b = ok r"
  shows "shape (Rcv n) (next_state r) \<and> holding (next_state r) = held P - set (released r) \<and> set (released r) \<subseteq> held P"
  using assms by (cases P) (auto simp: Let_def and_then_eq_ok split: if_splits)

lemma deq_slot_waits: "deq_slot now i b = ok (r, b') \<Longrightarrow> r \<noteq> Wait_Fill \<and> (\<forall>j. r = Wait_Slot j \<longrightarrow> j = i)"
  by (auto simp: deq_slot_def and_then_eq_ok split: status.splits)

lemma D_Slot_cases:
  assumes "dequeue_segment now (D_Slot i) b = ok r"
  obtains (waits) b' where "deq_slot now i b = ok (Wait_Slot i, b')"
      "r = \<lparr>next_state = Running (D_Unlocked i), new_buf = b', released = [Queue], signals = [], returned = []\<rparr>"
    | (got_pkt) p len b' where "deq_slot now i b = ok (Got_Pkt p len, b')"
      "r = \<lparr>next_state = Running Idle, new_buf = b', released = [Element i, Queue], signals = [empty_cond],
         returned = [(head_pt b + 1, p)]\<rparr>"
    | (gave_up) b' where "deq_slot now i b = ok (Gave_Up, b')"
      "r = \<lparr>next_state = Running Idle, new_buf = b', released = [Element i, Queue], signals = [empty_cond], returned = []\<rparr>"
proof -
  obtain q b' where q: "deq_slot now i b = ok (q, b')" using assms by (auto simp: and_then_eq_ok)
  show thesis using assms q deq_slot_waits [OF q] that by (cases q) auto
qed

lemma dequeue_segment_locks:
  assumes "may_be Write_Tun P" "dequeue_segment now P b = ok r"
  shows "shape Write_Tun (next_state r) \<and> holding (next_state r) = held P - set (released r) \<and> set (released r) \<subseteq> held P"
proof (cases "\<exists>i. P = D_Slot i")
  case True
  then obtain i where P: "P = D_Slot i" ..
  from assms(2) [unfolded P] show ?thesis by (cases rule: D_Slot_cases) (use assms(1) P in auto)
next
  case False
  then show ?thesis using assms by (cases P) (auto simp: Let_def split: if_splits)
qed

lemma find_nack_segment_locks:
  assumes "may_be Create_Ack P" "find_nack_segment v P b = ok r"
  shows "shape Create_Ack (next_state r) \<and> holding (next_state r) = held P - set (released r) \<and> set (released r) \<subseteq> held P"
  using assms by (cases P) (auto simp: Let_def next_drop_state next_scan_state split: if_splits nack_plan.splits prod.splits)

lemma segment_locks:
  assumes "may_be t P" "segment v t P b = ok r"
  shows "shape t (next_state r)" "holding (next_state r) = held P - set (released r)" "set (released r) \<subseteq> held P"
  using assms enqueue_segment_locks dequeue_segment_locks find_nack_segment_locks
  by (cases t; simp; blast)+

section \<open>Waking\<close>

text \<open>A signal changes nothing but that sleeping threads wait for their lock.\<close>

definition woken :: "thread_state \<Rightarrow> thread_state \<Rightarrow> bool" where
  "woken T T' \<longleftrightarrow> T' = T \<or> (\<exists>c l P. T = Sleeping c l P \<and> T' = Acquiring l P)"

lemma woken_by_woken: "woken_by cs ts ts' \<Longrightarrow> woken (ts t) (ts' t)"
  by (induction rule: woken_by.induct) (auto simp: woken_def split: if_splits)

lemma woken_same: "woken T T' \<Longrightarrow> place_of T' = place_of T \<and> holding T' = holding T \<and> (shape t T \<longrightarrow> shape t T')"
  using shape_wakes by (auto simp: woken_def)

lemma woken_running: "woken T T' \<Longrightarrow> T' = Running P \<longleftrightarrow> T = Running P"
  by (auto simp: woken_def)

section \<open>Locks belong to the places that hold them\<close>

definition lock_inv :: "lock_state \<Rightarrow> bool" where
  "lock_inv s \<longleftrightarrow> (\<forall>t. shape t (threads s t)) \<and> (\<forall>l t. locks s l = Some t \<longleftrightarrow> l \<in> holding (threads s t))"

lemma lock_inv_init: "lock_inv (lock_init now)"
proof -
  have "may_be t Idle" for t by (cases t) simp_all
  then show ?thesis by (simp add: lock_inv_def lock_init_def)
qed

lemma lock_inv_same:
  assumes "lock_inv s" "locks s' = locks s" "\<And>t. shape t (threads s' t)" "\<And>t. holding (threads s' t) = holding (threads s t)"
  shows "lock_inv s'"
  using assms by (simp add: lock_inv_def)

lemma entry_shape: "entry_of t P \<Longrightarrow> shape t (Acquiring Queue P) \<and> holding (Acquiring Queue P) = {}"
  by (induction t P rule: entry_of.induct) simp_all

lemma shape_grant: "shape t (Acquiring l P) \<Longrightarrow> shape t (Running P) \<and> holding (Running P) = insert l (holding (Acquiring l P))"
  by auto

lemma lock_inv_step:
  assumes inv: "lock_inv s" and step: "lock_step admit s s'"
  shows "lock_inv s'"
  using step
proof (cases rule: lock_step.cases)
  case (call_op t P)
  then show ?thesis using entry_shape [of t P] inv by (intro lock_inv_same [OF inv]) (auto simp: lock_inv_def)
next
  case (acquire t l P)
  have sh: "shape t (Acquiring l P)" using inv acquire(2) by (metis lock_inv_def)
  note g = shape_grant [OF sh]
  have free: "l \<notin> holding (threads s u)" for u using inv acquire(3) by (metis lock_inv_def option.distinct(1))
  show ?thesis
    unfolding lock_inv_def
  proof (intro conjI allI)
    show "shape u (threads s' u)" for u using inv g acquire(1) by (simp add: lock_inv_def)
    show "locks s' k = Some u \<longleftrightarrow> k \<in> holding (threads s' u)" for k u
      using inv g acquire(1,2) free by (auto simp: lock_inv_def)
  qed
next
  case (run t P v r ts)
  have may: "may_be t P" using inv run(2) by (metis lock_inv_def shape.simps(1))
  note seg = segment_locks [OF may run(4)]
  have same: "holding (ts u) = holding (((threads s)(t := next_state r)) u)"
    "shape u (((threads s)(t := next_state r)) u) \<Longrightarrow> shape u (ts u)" for u
    using woken_same [OF woken_by_woken [OF run(5), of u]] by blast+
  have mine: "locks s l = Some t" if "l \<in> set (released r)" for l
    using that seg(3) inv run(2) by (auto simp: lock_inv_def)
  show ?thesis
    unfolding lock_inv_def
  proof (intro conjI allI)
    show "shape u (threads s' u)" for u using inv seg(1) same(2) [of u] run(1) by (simp add: lock_inv_def)
    have "locks s' k = (if k \<in> set (released r) then None else locks s k)" for k
      using run(1) by (simp add: release_def)
    moreover have "holding (threads s' u) = (if u = t then held P - set (released r) else holding (threads s u))" for u
      using same(1) [of u] seg(2) run(1) by simp
    moreover have "k \<notin> holding (threads s u)" if "k \<in> set (released r)" "u \<noteq> t" for k u
      using mine [OF that(1)] that(2) inv by (metis lock_inv_def option.inject)
    ultimately show "locks s' k = Some u \<longleftrightarrow> k \<in> holding (threads s' u)" for k u
      using inv run(2) by (auto simp: lock_inv_def)
  qed
next
  case (spurious t c l P)
  have "shape t (Sleeping c l P)" using inv spurious(2) by (metis lock_inv_def)
  then show ?thesis using shape_wakes [of t c l P] inv spurious
    by (intro lock_inv_same [OF inv]) (auto simp: lock_inv_def)
qed

lemma lock_reachable_inv: "lock_reachable admit s \<Longrightarrow> lock_inv s"
  by (erule lock_reachable_induct) (auto intro: lock_inv_init lock_inv_step)

lemma exclusive: "lock_inv s \<Longrightarrow> l \<in> holding (threads s t) \<Longrightarrow> l \<in> holding (threads s u) \<Longrightarrow> t = u"
  by (metis lock_inv_def option.inject)

text \<open>
  The member \<open>owner\<close> of a slot names the thread that has its lock, but for a consumer that has just
  been woken: the wait gave the lock away and took it back without a note.
\<close>

definition owner_inv :: "lock_state \<Rightarrow> bool" where
  "owner_inv s \<longleftrightarrow> (\<forall>t P i. threads s t = Running P \<longrightarrow> Element i \<in> held P \<longrightarrow> P \<noteq> D_Woken i \<longrightarrow> owner s i = owner_of t)"

lemma owner_released: "Element i \<notin> set ls \<Longrightarrow> fold (\<lambda>l. UnLockElement l T) ls w i = w i"
proof (induction ls arbitrary: w)
  case (Cons l ls)
  then show ?case by (cases l) auto
qed simp

lemma owner_inv_step:
  assumes own: "owner_inv s" and inv: "lock_inv s" and step: "lock_step admit s s'"
  shows "owner_inv s'"
  using step
proof (cases rule: lock_step.cases)
  case (acquire t l P)
  have free: "l \<notin> holding (threads s u)" for u using inv acquire(3) by (metis lock_inv_def option.distinct(1))
  have sh: "shape t (Acquiring l P)" using inv acquire(2) by (metis lock_inv_def)
  have mine: "LockElement t l P (owner s) i = owner_of t" if "Element i \<in> held P" "P \<noteq> D_Woken i" for i
  proof (cases "l = Element i")
    case False
    then have "Element i \<in> holding (threads s t)" using that(1) acquire(2) by simp
    then show ?thesis using shape_waits_queue [of t P] shape_waits_slot [of t _ P] sh acquire(2) by (cases l) auto
  qed (use that(2) in simp)
  have other: "LockElement t l P (owner s) i = owner s i" if "threads s u = Running Q" "Element i \<in> held Q" for u Q i
    using free [of u] that by (cases l) auto
  show ?thesis
    using own mine other acquire(1) unfolding owner_inv_def by (auto split: if_splits)
next
  case (run t P v r ts)
  have may: "may_be t P" using inv run(2) by (metis lock_inv_def shape.simps(1))
  note seg = segment_locks [OF may run(4)]
  have w: "threads s' u = Running Q \<longleftrightarrow> (if u = t then next_state r else threads s u) = Running Q" for u Q
    using woken_running [OF woken_by_woken [OF run(5), of u]] run(1) by simp
  have others: "Element i \<notin> set (released r)" if "threads s u = Running Q" "Element i \<in> held Q" "u \<noteq> t" for u Q i
    using exclusive [OF inv, of "Element i" u t] that run(2) seg(3) by auto
  have mine: "Element i \<notin> set (released r) \<and> Element i \<in> held P \<and> P \<noteq> D_Woken i"
    if "next_state r = Running Q" "Element i \<in> held Q" "Q \<noteq> D_Woken i" for Q i
  proof -
    have "Element i \<in> held P - set (released r)" using seg(2) that by simp
    moreover have "P \<noteq> D_Woken i" using run(4) that may by (cases t) auto
    ultimately show ?thesis by simp
  qed
  show ?thesis
    unfolding owner_inv_def
  proof (intro allI impI)
    fix u Q i
    assume a: "threads s' u = Running Q" "Element i \<in> held Q" "Q \<noteq> D_Woken i"
    have "Element i \<notin> set (released r)" "owner s i = owner_of u"
      using a w [of u Q] mine [of Q i] others [of u Q i] own run(2) by (auto simp: owner_inv_def split: if_splits)
    then show "owner s' i = owner_of u" using owner_released [of i "released r" "next_state r" "owner s"] run(1) by simp
  qed
qed (use own in \<open>auto simp: owner_inv_def split: if_splits\<close>)

lemma lock_reachable_owner: "lock_reachable admit s \<Longrightarrow> owner_inv s \<and> lock_inv s"
proof (erule lock_reachable_induct)
  show "owner_inv (lock_init now) \<and> lock_inv (lock_init now)" for now
    using lock_inv_init [of now] by (simp add: owner_inv_def) (simp add: lock_init_def)
qed (blast intro: owner_inv_step lock_inv_step)

section \<open>No thread waits for ever for a lock\<close>

text \<open>\<open>t\<close> waits for a lock that \<open>u\<close> has; a thread can go on when it runs or its lock is free.\<close>

definition waits_for :: "lock_state \<Rightarrow> thread \<Rightarrow> thread \<Rightarrow> bool" where
  "waits_for s t u \<longleftrightarrow> (\<exists>l P. threads s t = Acquiring l P \<and> locks s l = Some u)"

definition can_go_on :: "lock_state \<Rightarrow> thread \<Rightarrow> bool" where
  "can_go_on s t \<longleftrightarrow> (case threads s t of Running P \<Rightarrow> True | Acquiring l P \<Rightarrow> locks s l = None | Sleeping c l P \<Rightarrow> False)"

lemma slot_holder_runs:
  assumes "lock_inv s" "locks s (Element i) = Some u"
  shows "\<exists>P. threads s u = Running P"
proof -
  have sh: "shape u (threads s u)" and h: "Element i \<in> holding (threads s u)" using assms by (simp_all add: lock_inv_def)
  show ?thesis
  proof (cases "threads s u")
    case (Acquiring l P)
    then show ?thesis using sh h shape_waits_queue [of u P] shape_waits_slot [of u _ P] by (cases l) auto
  next
    case (Sleeping c l P)
    then show ?thesis using sh h shape_asleep [of u c l P] by (metis empty_iff)
  qed simp
qed

lemma waits_end:
  assumes inv: "lock_inv s" and w: "waits_for s t u"
  shows "can_go_on s u \<or> (\<exists>v. waits_for s u v \<and> can_go_on s v)"
proof -
  obtain l P where t: "threads s t = Acquiring l P" "locks s l = Some u" using w by (auto simp: waits_for_def)
  have sh: "shape u (threads s u)" and h: "l \<in> holding (threads s u)" using inv t(2) by (simp_all add: lock_inv_def)
  show ?thesis
  proof (cases "threads s u")
    case (Running Q)
    then show ?thesis by (simp add: can_go_on_def)
  next
    case (Acquiring k Q)
    then obtain i where k: "k = Element i" using sh h shape_waits_queue [of u Q] by (cases k) auto
    show ?thesis
    proof (cases "locks s k")
      case None
      then show ?thesis using Acquiring by (simp add: can_go_on_def)
    next
      case (Some v)
      then have "can_go_on s v" using slot_holder_runs [OF inv, of i v] k by (auto simp: can_go_on_def)
      then show ?thesis using Acquiring Some by (auto simp: waits_for_def)
    qed
  next
    case (Sleeping c k Q)
    then show ?thesis using sh h shape_asleep [of u c k Q] by (metis empty_iff)
  qed
qed

text \<open>And what can go on has a step, unless an assertion or an access out of bounds ends the process.\<close>

lemma woken_by_exists: "\<exists>ts'. woken_by cs ts ts'"
proof (induction cs arbitrary: ts)
  case Nil
  then show ?case by (blast intro: woken_by.intros)
next
  case (Cons c cs)
  show ?case
  proof (cases "\<exists>t. sleeps_on c (ts t)")
    case True
    then obtain t l P where "ts t = Sleeping c l P" by (metis sleeps_on.elims(2))
    then show ?thesis using Cons.IH [of "ts(t := Acquiring l P)"] by (blast intro: woken_by.intros)
  next
    case False
    then show ?thesis using Cons.IH [of ts] by (blast intro: woken_by.intros)
  qed
qed

lemma running_steps:
  assumes "threads s t = Running P" "segment v t P (rx_buf s) = ok r"
  shows "\<exists>s'. lock_step any_packet s s' \<and> rx_buf s' = new_buf r \<and> place_of (threads s' t) = place_of (next_state r)"
proof -
  obtain ts where ts: "woken_by (signals r) ((threads s)(t := next_state r)) ts" using woken_by_exists by blast
  have "admits any_packet P (rx_buf s)" by (cases P) simp_all
  note step = lock_step.run [OF assms(1) this assms(2) ts]
  show ?thesis using step woken_same [OF woken_by_woken [OF ts, of t]] by fastforce
qed

end
