(* ===== verification/Lock_Delivery.thy ===== *)
theory Lock_Delivery
  imports Lock_Discipline
begin

text \<open>
  Ordered delivery with the threads interleaved at every lock. What a thread that has the queue
  still has to do is added to the buffer (\<open>complete\<close>); the completed states then keep the
  invariant of \<open>Rx_Run\<close>, in which an operation is one step.
\<close>

section \<open>Completing what is under way\<close>

definition wrap_slot :: "u32 \<Rightarrow> nat \<Rightarrow> rx_data_buf \<Rightarrow> rx_data_buf" where
  "wrap_slot seq k b = (if k \<noteq> Seq2Ind seq then clear_slot k b else b)"

fun complete :: "place \<Rightarrow> rx_data_buf \<Rightarrow> rx_data_buf" where
  "complete (E_Tail seq is_wrap) b =
     (if is_wrap then restart_window seq b else if seq > tail_pt b then advance_tail seq b else b)"
| "complete (E_Wrap seq k) b = for_range k BUF_SIZE (wrap_slot seq) b"
| "complete (E_Clear seq k) b = set_tail_pt seq (for_range k (unat seq) clear_if_read b)"
| "complete P b = b"

definition virt :: "lock_state \<Rightarrow> rx_data_buf" where
  "virt s = (case locks s Queue of None \<Rightarrow> rx_buf s | Some t \<Rightarrow> complete (place_of (threads s t)) (rx_buf s))"

fun waiting_at :: "place \<Rightarrow> consumer" where
  "waiting_at (D_Slot i) = Waiting i"
| "waiting_at (D_Unlocked i) = Waiting i"
| "waiting_at (D_Woken i) = Waiting i"
| "waiting_at (D_Pick i) = Waiting i"
| "waiting_at P = Calling"

text \<open>The state of \<open>Rx_Run\<close> that a state with locks stands for.\<close>

definition abs_state :: "lock_state \<Rightarrow> rx_state" where
  "abs_state s = \<lparr>the_buf = virt s, consumer = waiting_at (place_of (threads s Write_Tun)), delivered = got s\<rparr>"

text \<open>Between the places of an enqueue nothing changes in the completed buffer.\<close>

lemma restart_window_wraps:
  "restart_window seq b = for_range 0 BUF_SIZE (wrap_slot seq) (set_tail_pt seq (set_head_pt (seq - 1) b))"
  by (simp add: restart_window_def wrap_slot_def [abs_def])

lemma complete_wrap: "k < BUF_SIZE \<Longrightarrow> complete (E_Wrap seq (Suc k)) (wrap_slot seq k b) = complete (E_Wrap seq k) b"
  by (simp add: upt_conv_Cons)

lemma complete_clear: "k < unat seq \<Longrightarrow> complete (E_Clear seq (Suc k)) (clear_if_read k b) = complete (E_Clear seq k) b"
  by (simp add: upt_conv_Cons)

text \<open>Marks of the acknowledging thread stay marks in the completed buffer.\<close>

lemma loses_wrap_slot: "loses b (wrap_slot seq k b)"
  by (simp add: wrap_slot_def)

lemma loses_points: "loses b b' \<Longrightarrow> loses (b\<lparr>head_pt := h, tail_pt := t\<rparr>) (b'\<lparr>head_pt := h, tail_pt := t\<rparr>)"
  by (simp add: loses_def)

lemma loses_wrap: "loses b b' \<Longrightarrow> loses (wrap_slot seq k b) (wrap_slot seq k b')"
  by (auto simp: loses_def wrap_slot_def clear_slot_def set_slot_def)

lemma loses_clear_if_read: "loses b b' \<Longrightarrow> loses (clear_if_read k b) (clear_if_read k b')"
  by (auto simp: loses_def clear_if_read_def Let_def clear_slot_def set_slot_def)

lemma loses_fold_both:
  "(\<And>k b b'. loses b b' \<Longrightarrow> loses (f k b) (f k b')) \<Longrightarrow> loses b b' \<Longrightarrow> loses (fold f ks b) (fold f ks b')"
  by (induction ks arbitrary: b b') auto

lemma loses_complete: "loses b b' \<Longrightarrow> loses (complete P b) (complete P b')"
proof (induction P b rule: complete.induct)
  case (1 seq w b)
  have "tail_pt b' = tail_pt b" using 1 by (simp add: loses_def)
  then show ?case using 1
    by (auto simp: restart_window_wraps advance_tail_def Let_def intro!: loses_tail loses_points loses_fold_both loses_wrap loses_clear_if_read)
qed (auto intro!: loses_tail loses_fold_both loses_wrap loses_clear_if_read)

lemma placed_wrap_slot: "placed b \<Longrightarrow> placed (wrap_slot seq k b)"
  by (simp add: wrap_slot_def placed_clear)

lemma placed_clear_if_read: "placed b \<Longrightarrow> placed (clear_if_read k b)"
  by (simp add: clear_if_read_def Let_def placed_clear)

lemma placed_complete: "placed b \<Longrightarrow> placed (complete P b)"
  by (induction P b rule: complete.induct)
    (auto simp: restart_window_wraps advance_tail_def Let_def placed_fields
      intro!: placed_fold placed_wrap_slot placed_clear_if_read)

section \<open>What holds at a place\<close>

fun at_place :: "rx_data_buf \<Rightarrow> place \<Rightarrow> bool" where
  "at_place b (E_Full seq len pkt i) \<longleftrightarrow> i = head_pt_mod b"
| "at_place b (E_Slot seq len pkt) \<longleftrightarrow> head_pt b < seq \<and> \<not> IsFull b"
| "at_place b (E_Clear seq k) \<longleftrightarrow> k < unat seq"
| "at_place b (D_Slot i) \<longleftrightarrow> i = head_pt_mod b"
| "at_place b (A_Scan now k p t e ns) \<longleftrightarrow> k \<le> unat p \<and> unat p < 2 ^ 32 - 1"
| "at_place b P \<longleftrightarrow> True"

definition data_inv :: "bool \<Rightarrow> (u32 \<Rightarrow> u8 list) \<Rightarrow> lock_state \<Rightarrow> bool" where
  "data_inv stale sent s \<longleftrightarrow> lock_inv s \<and> placed (rx_buf s) \<and> state_inv stale sent (abs_state s)
     \<and> (\<forall>t. at_place (rx_buf s) (place_of (threads s t)))"

lemma data_inv_init: "data_inv stale sent (lock_init now)"
proof -
  have "abs_state (lock_init now) = rx_init now" by (simp add: abs_state_def virt_def lock_init_def rx_init_def)
  then show ?thesis using lock_inv_init [of now] rx_init_inv [of stale sent now]
    by (simp add: data_inv_def) (simp add: lock_init_def state_inv_def rx_init_def)
qed

text \<open>The places that speak about the pointers belong to the thread that has the queue.\<close>

lemma at_place_points:
  assumes "at_place b P" "Queue \<in> held P \<longrightarrow> head_pt b' = head_pt b \<and> tail_pt b' = tail_pt b"
  shows "at_place b' P"
  using assms by (cases P) (simp_all add: IsFull_def head_pt_mod_def)

lemma place_has_queue: "shape t T \<Longrightarrow> Queue \<in> held (place_of T) \<Longrightarrow> Queue \<in> holding T \<or> after_queue (place_of T)"
  by (cases T) (auto dest: wait_place_held split: if_splits)

lemma after_queue_at_place [simp]: "after_queue P \<Longrightarrow> at_place b P \<and> complete P b = b"
  by (cases P) simp_all

section \<open>The segments of a thread that has the queue\<close>

abbreviation rx_at :: "rx_data_buf \<Rightarrow> consumer \<Rightarrow> (u32 \<times> u8 list) list \<Rightarrow> rx_state" where
  "rx_at b c d \<equiv> \<lparr>the_buf = b, consumer = c, delivered = d\<rparr>"

lemma state_inv_empty_head: "state_inv stale sent (rx_at b c d) \<Longrightarrow> seq \<le> head_pt b \<Longrightarrow> \<not> seq > tail_pt b"
  by (auto simp: state_inv_def rx_ok_def word_le_nat_alt word_less_nat_alt)

lemma give_up_inv: "state_inv stale sent (rx_at b c d) \<Longrightarrow> placed b \<Longrightarrow> state_inv stale sent (rx_at (give_up_head b) c d)"
  using state_inv_loses [of stale sent "rx_at b c d" "give_up_head b"] by (simp add: placed_give_up)

lemma store_inv:
  assumes inv: "state_inv stale sent (rx_at b c d)" and "placed b" and at: "head_pt b < seq" "\<not> IsFull b"
    and adm: "admissible stale sent seq len pkt b" and st: "store_in_slot seq len pkt b = ok b1"
    and w: "w \<longleftrightarrow> seq > head_pt b + word_of_nat BUF_SIZE"
  shows "state_inv stale sent (rx_at (complete (E_Tail seq w) b1) c d)" "placed b1"
proof -
  have "EnqueuePkt seq len pkt b = ok (True, complete (E_Tail seq w) b1)"
    using at st w by (simp add: EnqueuePkt_def enqueue_def)
  then show "state_inv stale sent (rx_at (complete (E_Tail seq w) b1) c d)"
    using enqueue_step_inv [OF inv, of seq len pkt True] adm by simp
  show "placed b1"
    using st store_in_slot_eq [of len pkt seq b] adm placed_stored [OF assms(2), of seq len pkt] assms(2)
    by (auto simp: admissible_def fitting_def)
qed

lemma enqueue_segment_inv:
  assumes inv: "state_inv stale sent (rx_at (complete P b) c d)" and pl: "placed b" and at: "at_place b P"
    and adm: "admits (admissible stale sent) P b" and seg: "enqueue_segment P b = ok r"
  shows "state_inv stale sent (rx_at (complete (place_of (next_state r)) (new_buf r)) c d) \<and> placed (new_buf r)
    \<and> at_place (new_buf r) (place_of (next_state r)) \<and> returned r = []"
proof (cases P)
  case (E_Test seq len pkt)
  show ?thesis
    using seg inv pl state_inv_empty_head [of stale sent b c d seq] unfolding E_Test by (auto split: if_splits)
next
  case (E_Full seq len pkt i)
  then show ?thesis using seg give_up_inv [of stale sent b c d] inv pl by (auto simp: placed_give_up)
next
  case (E_Slot seq len pkt)
  obtain b1 where b1: "store_in_slot seq len pkt b = ok b1" using seg E_Slot by (auto simp: Let_def and_then_eq_ok)
  have "state_inv stale sent (rx_at b c d)" using inv E_Slot by simp
  note n = store_inv [OF this pl _ _ _ b1 refl]
  show ?thesis using seg b1 inv at adm n unfolding E_Slot by (auto simp: Let_def simp del: complete.simps)
next
  case (E_Tail seq w)
  show ?thesis
    using seg inv pl unfolding E_Tail
    by (auto simp: restart_window_wraps advance_tail_def Let_def placed_fields word_less_nat_alt split: if_splits)
next
  case (E_Wrap seq k)
  show ?thesis
  proof (cases "k < BUF_SIZE")
    case True
    then have "r = \<lparr>next_state = Running (E_Wrap seq (Suc k)), new_buf = wrap_slot seq k b, released = [], signals = [], returned = []\<rparr>"
      using seg E_Wrap by (auto simp: wrap_slot_def)
    then show ?thesis using inv pl complete_wrap [OF True, of seq b] unfolding E_Wrap by (simp add: placed_wrap_slot del: complete.simps)
  next
    case False
    then show ?thesis using seg inv pl unfolding E_Wrap by auto
  qed
next
  case (E_Clear seq k)
  have k: "k < unat seq" using at E_Clear by simp
  have i: "state_inv stale sent (rx_at (complete (E_Clear seq (Suc k)) (clear_if_read k b)) c d)"
    using inv complete_clear [OF k, of b] unfolding E_Clear by metis
  show ?thesis
    using seg i placed_clear_if_read [OF pl, of k] unfolding E_Clear by (auto simp: placed_fields split: if_splits)
qed (use seg inv pl at in auto)

lemma head_slot_inv:
  assumes "state_inv stale sent (rx_at b c d)" "\<not> IsEmpty b"
  shows "state_inv stale sent (rx_at b (Waiting (head_pt_mod b)) d)"
  using assms by (auto simp: state_inv_def IsEmpty_def)

lemma placed_head:
  assumes inv: "state_inv stale sent (rx_at b (Waiting i) d)" and eq: "bk_seq_num (slot b i) = head_pt b + 1"
  shows "i = head_pt_mod b"
proof -
  have ne: "head_pt b \<noteq> tail_pt b" and i: "i < BUF_SIZE" and rx: "rx_ok stale sent b" and pl: "placed b"
    using inv by (simp_all add: state_inv_def)
  have "unat (head_pt b + 1) = unat (head_pt b) + 1" using ok_head_before_tail [OF rx ne] by (rule unat_u32_next)
  then have "head_pt b + 1 \<noteq> 0" by (metis Suc_eq_plus1 nat.distinct(1) unat_0)
  then show ?thesis using pl i eq Seq2Ind_head [of b] by (auto simp: placed_def)
qed

lemma dequeue_segment_inv:
  assumes inv: "state_inv stale sent (rx_at b (waiting_at P) d)" and pl: "placed b" and at: "at_place b P"
    and q: "Queue \<in> held P" "may_be Write_Tun P" and seg: "dequeue_segment now P b = ok r"
  shows "state_inv stale sent (rx_at (new_buf r) (waiting_at (place_of (next_state r))) (d @ returned r)) \<and> placed (new_buf r)
    \<and> at_place (new_buf r) (place_of (next_state r)) \<and> complete (place_of (next_state r)) (new_buf r) = new_buf r"
proof (cases "\<exists>i. P = D_Slot i")
  case True
  then obtain i where P: "P = D_Slot i" ..
  have i: "i = head_pt_mod b" using at P by simp
  have ne: "head_pt b \<noteq> tail_pt b" using inv P by (simp add: state_inv_def)
  have n: "state_inv stale sent (take_result q b' (rx_at b (Waiting i) d)) \<and> placed b'"
    if "deq_slot now i b = ok (q, b')" for q b'
    using deq_step_inv [of stale sent "rx_at b (Waiting i) d" now q b'] placed_deq_slot [OF pl that] that inv ne i P by simp
  from seg [unfolded P] show ?thesis
    by (cases rule: D_Slot_cases) (auto simp: take_result_def dest!: n)
next
  case False
  have pick: "head_pt_mod b = (if bk_seq_num (slot b i) \<noteq> head_pt b + 1 then head_pt_mod b else i)" if "P = D_Pick i" for i
    using placed_head [of stale sent b i d] inv that by auto
  have ne: "\<not> IsEmpty b" if "P = D_Pick i" for i using inv that by (auto simp: state_inv_def IsEmpty_def)
  show ?thesis
    using False seg q inv pl head_slot_inv [OF inv] pick ne
    by (cases P) (auto simp: Let_def split: if_splits)
qed

lemma find_nack_segment_queue:
  assumes "Queue \<in> held P" "find_nack_segment v P b = ok r" "may_be Create_Ack P"
  shows "new_buf r = b \<and> returned r = [] \<and> at_place b (place_of (next_state r)) \<and> complete (place_of (next_state r)) b = b"
  using assms by (cases P) (auto split: if_splits)

section \<open>The segments of the other threads\<close>

lemma next_drop_at [simp]: "at_place b (place_of (next_drop ns))"
  by (cases ns) simp_all

lemma next_scan_at: "unat p < 4294967295 \<Longrightarrow> at_place b (place_of (next_scan mx now k p t e ns))"
  by (simp add: next_scan_def Let_def)

lemma before_tail: "p < (t :: u32) \<Longrightarrow> unat p < 2 ^ 32 - 1"
  using unat_u32_less [of t] by (simp add: word_less_nat_alt)

lemma find_nack_segment_marks:
  assumes P: "Queue \<notin> held P" and at: "at_place b P" and pl: "placed b" and seg: "find_nack_segment v P b = ok r"
  shows "loses b (new_buf r) \<and> placed (new_buf r) \<and> at_place (new_buf r) (place_of (next_state r)) \<and> returned r = []"
proof (cases P)
  case (A_Scan now k p t e ns)
  obtain ns' b' where s: "scan_slot (block_time v) now k (ns, b) = (ns', b')" by fastforce
  have "k < 2 ^ 32 - 1" "unat p < 2 ^ 32 - 1" using at A_Scan by simp_all
  then have "placed b'" using placed_scan [OF pl _ s] by simp
  moreover have "loses b b'" using loses_scan [of "(ns, b)" "block_time v" now k] s by simp
  ultimately show ?thesis using seg s \<open>unat p < _\<close> unfolding A_Scan by (auto intro: next_scan_at)
next
  case (A_Plan h t)
  show ?thesis using seg pl unfolding A_Plan by (auto split: nack_plan.splits if_splits dest!: before_tail intro: next_scan_at)
next
  case (A_Drop x xs)
  then show ?thesis using seg pl by (auto intro: placed_drop_nack)
qed (use P at pl seg in auto)

lemma segment_marks:
  assumes P: "Queue \<notin> held P" and at: "at_place b P" and pl: "placed b" and may: "may_be t P" and seg: "segment v t P b = ok r"
  shows "loses b (new_buf r)" "placed (new_buf r)" "at_place (new_buf r) (place_of (next_state r))" "returned r = []"
    "waiting_at (place_of (next_state r)) = waiting_at P \<or> t \<noteq> Write_Tun"
proof -
  have "loses b (new_buf r) \<and> placed (new_buf r) \<and> at_place (new_buf r) (place_of (next_state r)) \<and> returned r = []
      \<and> (waiting_at (place_of (next_state r)) = waiting_at P \<or> t \<noteq> Write_Tun)"
  proof (cases t)
    case (Rcv n)
    then show ?thesis using P may seg pl by (cases P) auto
  next
    case Write_Tun
    then show ?thesis using P may seg pl by (cases P) auto
  next
    case Create_Ack
    then show ?thesis using find_nack_segment_marks [OF P at pl] seg by auto
  qed
  then show "loses b (new_buf r)" "placed (new_buf r)" "at_place (new_buf r) (place_of (next_state r))" "returned r = []"
    "waiting_at (place_of (next_state r)) = waiting_at P \<or> t \<noteq> Write_Tun" by blast+
qed

section \<open>The invariant of the reachable states\<close>

lemma complete_unless_queue: "shape t T \<Longrightarrow> Queue \<notin> holding T \<Longrightarrow> complete (place_of T) b = b"
proof (cases T)
  case (Sleeping c l P)
  assume "shape t T"
  then show ?thesis using Sleeping by (cases c) auto
next
  case (Running P)
  assume "Queue \<notin> holding T"
  then show ?thesis using Running by (cases P) auto
next
  case (Acquiring l P)
  assume "shape t T" "Queue \<notin> holding T"
  then show ?thesis using Acquiring by (cases P) auto
qed

lemma virt_holder: "lock_inv s \<Longrightarrow> Queue \<in> holding (threads s t) \<Longrightarrow> virt s = complete (place_of (threads s t)) (rx_buf s)"
proof -
  assume "lock_inv s" "Queue \<in> holding (threads s t)"
  then have "locks s Queue = Some t" by (simp add: lock_inv_def)
  then show ?thesis by (simp add: virt_def)
qed

text \<open>A step that only lets threads call, wait or wake.\<close>

lemma data_inv_same:
  assumes inv: "data_inv stale sent s" and lock: "lock_inv s'" and same: "rx_buf s' = rx_buf s" "got s' = got s" "virt s' = virt s"
    and t: "\<And>u. place_of (threads s' u) = place_of (threads s u) \<or> at_place (rx_buf s) (place_of (threads s' u))"
    and w: "waiting_at (place_of (threads s' Write_Tun)) = waiting_at (place_of (threads s Write_Tun))"
  shows "data_inv stale sent s'"
proof -
  have "abs_state s' = abs_state s" using same w by (simp add: abs_state_def)
  moreover have "at_place (rx_buf s') (place_of (threads s' u))" for u
    using t [of u] inv same(1) by (auto simp: data_inv_def)
  ultimately show ?thesis using inv lock same(1) by (simp add: data_inv_def)
qed

lemma entry_at: "entry_of t P \<Longrightarrow> at_place b P \<and> complete P b = b \<and> waiting_at P = Calling"
  by (induction t P rule: entry_of.induct) simp_all

lemma virt_same:
  assumes "rx_buf s' = rx_buf s" "locks s' = locks s" "\<And>u. locks s Queue = Some u \<Longrightarrow> place_of (threads s' u) = place_of (threads s u)"
  shows "virt s' = virt s"
  using assms by (cases "locks s Queue") (simp_all add: virt_def)

lemma data_inv_call:
  assumes inv: "data_inv stale sent s" and idle: "threads s t = Running Idle" and P: "entry_of t P"
  shows "data_inv stale sent (s\<lparr>threads := (threads s)(t := Acquiring Queue P)\<rparr>)" (is "data_inv stale sent ?s")
proof (rule data_inv_same [OF inv])
  have l: "lock_inv s" using inv by (simp add: data_inv_def)
  show "lock_inv ?s" by (rule lock_inv_step [OF l lock_step.call_op [OF idle P]])
  have "locks s Queue \<noteq> Some t" using l idle by (auto simp: lock_inv_def)
  then show "virt ?s = virt s" by (intro virt_same) auto
qed (use idle entry_at [OF P] in auto)

lemma data_inv_acquire:
  assumes inv: "data_inv stale sent s" and t: "threads s t = Acquiring l P" and free: "locks s l = None"
    and step: "lock_step admit s s'" and s': "locks s' = (locks s)(l := Some t)" "rx_buf s' = rx_buf s" "got s' = got s"
      "threads s' = (threads s)(t := Running P)"
  shows "data_inv stale sent s'"
proof (rule data_inv_same [OF inv _ s'(2,3)])
  have l: "lock_inv s" using inv by (simp add: data_inv_def)
  show "lock_inv s'" by (rule lock_inv_step [OF l step])
  have sh: "shape t (Acquiring l P)" using l t by (metis lock_inv_def)
  show "virt s' = virt s"
  proof (cases "l = Queue")
    case True
    then have "complete P (rx_buf s) = rx_buf s" using sh by simp
    then show ?thesis using True free s' by (simp add: virt_def)
  next
    case False
    then show ?thesis using s' t by (cases "locks s Queue") (simp_all add: virt_def)
  qed
qed (use s' t in auto)

lemma data_inv_spurious:
  assumes inv: "data_inv stale sent s" and t: "threads s t = Sleeping c l P"
  shows "data_inv stale sent (s\<lparr>threads := (threads s)(t := Acquiring l P)\<rparr>)" (is "data_inv stale sent ?s")
proof (rule data_inv_same [OF inv])
  have l: "lock_inv s" using inv by (simp add: data_inv_def)
  show "lock_inv ?s" by (rule lock_inv_step [OF l lock_step.spurious [OF t]])
  show "virt ?s = virt s" using t by (intro virt_same) auto
qed (use t in auto)

text \<open>A segment: with the queue it is an operation or a part of one, without it marks slots.\<close>

lemma segment_queue:
  assumes inv: "state_inv stale sent (rx_at (complete P b) (if t = Write_Tun then waiting_at P else c) d)" and pl: "placed b"
    and at: "at_place b P" and adm: "admits (admissible stale sent) P b" and q: "Queue \<in> held P" and may: "may_be t P"
    and seg: "segment v t P b = ok r"
  shows "state_inv stale sent (rx_at (complete (place_of (next_state r)) (new_buf r))
        (if t = Write_Tun then waiting_at (place_of (next_state r)) else c) (d @ returned r))"
    "placed (new_buf r)" "at_place (new_buf r) (place_of (next_state r))"
proof -
  have "state_inv stale sent (rx_at (complete (place_of (next_state r)) (new_buf r))
        (if t = Write_Tun then waiting_at (place_of (next_state r)) else c) (d @ returned r))
      \<and> placed (new_buf r) \<and> at_place (new_buf r) (place_of (next_state r))"
  proof (cases t)
    case (Rcv n)
    then show ?thesis using enqueue_segment_inv [OF _ pl at adm, of c d r] inv seg by auto
  next
    case Write_Tun
    have "complete P b = b" using may q Write_Tun by (cases P) auto
    then show ?thesis using dequeue_segment_inv [OF _ pl at q, of stale sent d "the_time v" r] inv seg Write_Tun may by auto
  next
    case Create_Ack
    have "complete P b = b" using may q Create_Ack by (cases P) auto
    then show ?thesis using find_nack_segment_queue [OF q, of v b r] inv seg Create_Ack may pl by auto
  qed
  then show "state_inv stale sent (rx_at (complete (place_of (next_state r)) (new_buf r))
        (if t = Write_Tun then waiting_at (place_of (next_state r)) else c) (d @ returned r))"
    "placed (new_buf r)" "at_place (new_buf r) (place_of (next_state r))" by blast+
qed

text \<open>What a step of a running thread leaves in the state.\<close>

definition segment_step ::
  "lock_state \<Rightarrow> lock_state \<Rightarrow> thread \<Rightarrow> place \<Rightarrow> reads \<Rightarrow> segment_result \<Rightarrow> (thread \<Rightarrow> thread_state) \<Rightarrow> bool" where
  "segment_step s s' t P v r ts \<longleftrightarrow> lock_inv s \<and> lock_inv s' \<and> threads s t = Running P
     \<and> segment v t P (rx_buf s) = ok r \<and> woken_by (signals r) ((threads s)(t := next_state r)) ts
     \<and> rx_buf s' = new_buf r \<and> locks s' = release (released r) (locks s) \<and> threads s' = ts \<and> got s' = got s @ returned r"

lemma step_facts:
  assumes "segment_step s s' t P v r ts"
  shows "lock_inv s" "lock_inv s'" "threads s t = Running P" "segment v t P (rx_buf s) = ok r"
    "woken_by (signals r) ((threads s)(t := next_state r)) ts"
    "rx_buf s' = new_buf r" "locks s' = release (released r) (locks s)" "threads s' = ts" "got s' = got s @ returned r"
  using assms by (simp_all add: segment_step_def)

lemma step_may: "segment_step s s' t P v r ts \<Longrightarrow> may_be t P"
  using step_facts(1,3) [of s s' t P v r ts] by (metis lock_inv_def shape.simps(1))

lemma step_locks:
  assumes "segment_step s s' t P v r ts"
  shows "shape t (next_state r)" "holding (next_state r) = held P - set (released r)" "set (released r) \<subseteq> held P"
  using segment_locks [OF step_may [OF assms] step_facts(4) [OF assms]] .

lemma step_woken: "segment_step s s' t P v r ts \<Longrightarrow> woken (if u = t then next_state r else threads s u) (threads s' u)"
  using woken_by_woken [OF step_facts(5), of s s' t P v r ts u] step_facts(8) [of s s' t P v r ts] by simp

lemma step_places:
  "segment_step s s' t P v r ts \<Longrightarrow> place_of (threads s' u) = (if u = t then place_of (next_state r) else place_of (threads s u))"
  using woken_same [OF step_woken, of s s' t P v r ts u] by simp

lemma virt_with_queue:
  assumes step: "segment_step s s' t P v r ts" and q: "Queue \<in> held P"
  shows "virt s = complete P (rx_buf s)" "virt s' = complete (place_of (next_state r)) (new_buf r)"
proof -
  note f = step_facts [OF step]
  show "virt s = complete P (rx_buf s)" using virt_holder [OF f(1), of t] q f(3) by simp
  show "virt s' = complete (place_of (next_state r)) (new_buf r)"
  proof (cases "Queue \<in> holding (next_state r)")
    case True
    then have "Queue \<in> holding (threads s' t)" using woken_same [OF step_woken [OF step, of t]] by simp
    then show ?thesis using virt_holder [OF f(2), of t] step_places [OF step, of t] f(6) by simp
  next
    case False
    then have "Queue \<in> set (released r)" using step_locks(2) [OF step] q by blast
    then have "locks s' Queue = None" using f(7) by (simp add: release_def)
    then show ?thesis using complete_unless_queue [OF step_locks(1) [OF step] False] f(6) by (simp add: virt_def)
  qed
qed

lemma virt_without_queue:
  assumes step: "segment_step s s' t P v r ts" and "Queue \<notin> held P"
  shows "virt s' = (case locks s Queue of None \<Rightarrow> new_buf r | Some u \<Rightarrow> complete (place_of (threads s u)) (new_buf r))"
proof -
  note f = step_facts [OF step]
  have same: "locks s' Queue = locks s Queue" using step_locks(3) [OF step] assms(2) f(7) by (auto simp: release_def)
  have "locks s Queue \<noteq> Some t" using f(1,3) assms(2) by (auto simp: lock_inv_def)
  then show ?thesis using same step_places [OF step] f(6) by (auto simp: virt_def split: option.splits)
qed

lemma others_at_place:
  assumes step: "segment_step s s' t P v r ts" and u: "u \<noteq> t" and at: "at_place (rx_buf s) (place_of (threads s u))"
    and points: "Queue \<in> held P \<or> head_pt (new_buf r) = head_pt (rx_buf s) \<and> tail_pt (new_buf r) = tail_pt (rx_buf s)"
  shows "at_place (new_buf r) (place_of (threads s u))"
proof (cases "Queue \<in> held P")
  case True
  note f = step_facts [OF step]
  have "Queue \<notin> holding (threads s u)" using exclusive [OF f(1), of Queue t u] True f(3) u by auto
  then have "Queue \<in> held (place_of (threads s u)) \<Longrightarrow> after_queue (place_of (threads s u))"
    using place_has_queue [of u "threads s u"] f(1) by (auto simp: lock_inv_def)
  then show ?thesis using at_place_points [OF at, of "new_buf r"] after_queue_at_place by blast
next
  case False
  then show ?thesis using at_place_points [OF at, of "new_buf r"] points by blast
qed

lemma data_inv_run:
  assumes inv: "data_inv stale sent s" and step: "segment_step s s' t P v r ts" and adm: "admits (admissible stale sent) P (rx_buf s)"
  shows "data_inv stale sent s'"
proof -
  note st = step_facts(3,4,6-9) [OF step]
  have i: "placed (rx_buf s)" "state_inv stale sent (abs_state s)" "at_place (rx_buf s) P"
    using inv st(1) by (auto simp: data_inv_def) (metis place_of.simps(1))
  have others: "at_place (rx_buf s') (place_of (threads s' u))"
    if "Queue \<in> held P \<or> head_pt (new_buf r) = head_pt (rx_buf s) \<and> tail_pt (new_buf r) = tail_pt (rx_buf s)"
      "at_place (new_buf r) (place_of (next_state r))" for u
    using others_at_place [OF step _ _ that(1), of u] that(2) inv step_places [OF step, of u] st(3)
    by (simp add: data_inv_def)
  show ?thesis
  proof (cases "Queue \<in> held P")
    case True
    let ?c = "waiting_at (place_of (threads s Write_Tun))"
    have "state_inv stale sent (rx_at (complete P (rx_buf s)) (if t = Write_Tun then waiting_at P else ?c) (got s))"
      using i(2) virt_with_queue(1) [OF step True] st(1) by (auto simp: abs_state_def)
    note n = segment_queue [OF this i(1,3) adm True step_may [OF step] st(2)]
    have "abs_state s' = rx_at (complete (place_of (next_state r)) (new_buf r))
        (if t = Write_Tun then waiting_at (place_of (next_state r)) else ?c) (got s @ returned r)"
      using virt_with_queue(2) [OF step True] step_places [OF step, of Write_Tun] st(6) by (simp add: abs_state_def)
    then show ?thesis
      using n others True step_facts(2) [OF step] st(3) by (simp add: data_inv_def)
  next
    case False
    note m = segment_marks [OF False i(3,1) step_may [OF step] st(2)]
    have points: "head_pt (new_buf r) = head_pt (rx_buf s) \<and> tail_pt (new_buf r) = tail_pt (rx_buf s)"
      using m(1) by (simp add: loses_def)
    have "loses (virt s) (virt s')" "placed (virt s')"
      using virt_without_queue [OF step False] m(1,2) by (auto simp: virt_def loses_complete placed_complete split: option.splits)
    moreover have "abs_state s' = (abs_state s)\<lparr>the_buf := virt s'\<rparr>"
      using m(4,5) step_places [OF step, of Write_Tun] st(1,6) by (auto simp: abs_state_def)
    ultimately have "state_inv stale sent (abs_state s')" using state_inv_loses [OF i(2), of "virt s'"] by (simp add: abs_state_def)
    then show ?thesis
      using m(2,3) others points step_facts(2) [OF step] st(3) by (simp add: data_inv_def)
  qed
qed

lemma run_segment_step:
  assumes "lock_inv s" "lock_inv s'" "threads s t = Running P" "segment v t P (rx_buf s) = ok r"
    "woken_by (signals r) ((threads s)(t := next_state r)) ts"
    "s' = s\<lparr>rx_buf := new_buf r, locks := release (released r) (locks s),
            owner := fold (\<lambda>l. UnLockElement l (next_state r)) (released r) (owner s),
            threads := ts, got := got s @ returned r\<rparr>"
  shows "segment_step s s' t P v r ts"
  using assms by (simp add: segment_step_def)

lemma data_inv_step:
  assumes inv: "data_inv stale sent s" and step: "lock_step (admissible stale sent) s s'"
  shows "data_inv stale sent s'"
  using step
proof (cases rule: lock_step.cases)
  case (call_op t P)
  then show ?thesis using data_inv_call [OF inv] by simp
next
  case (acquire t l P)
  then show ?thesis by (intro data_inv_acquire [OF inv acquire(2,3) step]) simp_all
next
  case (run t P v r ts)
  have l: "lock_inv s" using inv by (simp add: data_inv_def)
  show ?thesis
    by (rule data_inv_run [OF inv run_segment_step [OF l lock_inv_step [OF l step] run(2,4,5,1)] run(3)])
next
  case (spurious t c l P)
  then show ?thesis using data_inv_spurious [OF inv] by simp
qed

lemma lock_reachable_data: "lock_reachable (admissible stale sent) s \<Longrightarrow> data_inv stale sent s"
  by (erule lock_reachable_induct) (auto intro: data_inv_init data_inv_step)

end
