(* ===== verification/Lock_Wakeups.thy ===== *)
theory Lock_Wakeups
  imports Lock_Delivery
begin

text \<open>
  Which wake-ups can be lost. Without a restart of the window, the writing thread sleeps on a slot
  only while the packet it waits for is missing; it sleeps on an empty queue, or the acknowledging
  thread has taken its signal and will pass it on. A restart loses the wake-up.
\<close>

section \<open>Signals that wake\<close>

lemma woken_not_asleep: "woken T T' \<Longrightarrow> \<not> sleeps_on c T \<Longrightarrow> \<not> sleeps_on c T'"
  by (auto simp: woken_def)

lemma woken_asleep: "woken T T' \<Longrightarrow> sleeps_on c T' \<Longrightarrow> T' = T"
  by (auto simp: woken_def)

text \<open>A signal wakes the only thread that can sleep on its condition, or one of two.\<close>

lemma signal_wakes_only:
  "woken_by cs ts ts' \<Longrightarrow> c \<in> set cs \<Longrightarrow> \<forall>u. sleeps_on c (ts u) \<longrightarrow> u = w \<Longrightarrow> \<not> sleeps_on c (ts' w)"
proof (induction rule: woken_by.induct)
  case (lost_signal c' ts cs ts')
  then show ?case using woken_not_asleep [OF woken_by_woken [OF lost_signal(2), of w]] by auto
next
  case (wakes_one ts t c' l P cs ts')
  show ?case
  proof (cases "c' = c")
    case True
    have "t = w" using wakes_one(1,5) True by simp
    then show ?thesis using woken_not_asleep [OF woken_by_woken [OF wakes_one(2), of w], of c] by simp
  next
    case False
    then show ?thesis using wakes_one by (auto split: if_splits)
  qed
qed simp

lemma signal_wakes_one:
  "woken_by cs ts ts' \<Longrightarrow> c \<in> set cs \<Longrightarrow> sleeps_on c (ts w) \<Longrightarrow> sleeps_on c (ts' w)
    \<Longrightarrow> \<exists>u l P. u \<noteq> w \<and> ts u = Sleeping c l P \<and> ts' u = Acquiring l P"
proof (induction rule: woken_by.induct)
  case (lost_signal c' ts cs ts')
  then show ?case by auto
next
  case (wakes_one ts t c' l P cs ts')
  have tw: "t \<noteq> w" using woken_not_asleep [OF woken_by_woken [OF wakes_one(2), of w], of c] wakes_one(6) by auto
  show ?case
  proof (cases "c' = c")
    case True
    have "ts' t = Acquiring l P" using woken_by_woken [OF wakes_one(2), of t] by (simp add: woken_def)
    then show ?thesis using True wakes_one(1) tw by blast
  next
    case False
    have "sleeps_on c ((ts(t := Acquiring l P)) w)" using wakes_one(5) tw by simp
    with False wakes_one obtain u l' P' where u: "u \<noteq> w" "(ts(t := Acquiring l P)) u = Sleeping c l' P'" "ts' u = Acquiring l' P'"
      by auto
    then show ?thesis by (auto split: if_splits)
  qed
qed simp

lemma sleeps_on_avail: "shape t T \<Longrightarrow> sleeps_on element_avail_cond T \<Longrightarrow> t = Write_Tun \<and> (\<exists>i. T = Sleeping element_avail_cond (Element i) (D_Woken i))"
  by (cases T; cases t) auto

lemma sleeps_on_fill:
  "shape t T \<Longrightarrow> sleeps_on fill_cond T \<Longrightarrow> t = Write_Tun \<and> T = Sleeping fill_cond Queue D_Test
    \<or> t = Create_Ack \<and> T = Sleeping fill_cond Queue A_Woken"
  by (cases T; cases t) auto

section \<open>Without restarts\<close>

text \<open>Packets that stay within the window of the buffer.\<close>

definition in_window :: "(u32 \<Rightarrow> u8 list) \<Rightarrow> u32 \<Rightarrow> u16 \<Rightarrow> u8 list \<Rightarrow> rx_data_buf \<Rightarrow> bool" where
  "in_window sent seq len pkt b \<longleftrightarrow> fitting sent seq len pkt \<and> unat seq \<le> unat (head_pt b) + BUF_SIZE"

fun restarts :: "place \<Rightarrow> bool" where
  "restarts (E_Tail seq w) \<longleftrightarrow> w"
| "restarts (E_Wrap seq k) \<longleftrightarrow> True"
| "restarts P \<longleftrightarrow> False"

lemma in_window_admits: "admits (in_window sent) P b \<Longrightarrow> admits (admissible False sent) P b"
  by (cases P) (auto simp: in_window_def admissible_def overruns_def)

lemma lock_step_mono:
  assumes "lock_step admit s s'" "\<And>P b. admits admit P b \<Longrightarrow> admits admit' P b"
  shows "lock_step admit' s s'"
  using assms(1) by cases (use assms(2) in \<open>auto intro: lock_step.intros\<close>)

lemma lock_reachable_mono:
  "lock_reachable admit s \<Longrightarrow> (\<And>P b. admits admit P b \<Longrightarrow> admits admit' P b) \<Longrightarrow> lock_reachable admit' s"
proof (erule lock_reachable_induct [where I = "lock_reachable admit'"])
  show "lock_reachable admit' (lock_init now)" for now unfolding lock_reachable_def by blast
qed (blast intro: lock_reachable_step lock_step_mono)

lemma shape_may: "shape t T \<Longrightarrow> may_be t (place_of T)"
  by (cases T) simp_all

lemma only_enqueue_restarts: "may_be t P \<Longrightarrow> t = Write_Tun \<or> t = Create_Ack \<Longrightarrow> \<not> restarts P"
  by (cases P) auto

lemma no_wrap:
  "in_window sent seq len pkt b \<Longrightarrow> head_pt b < seq \<Longrightarrow> \<not> seq > head_pt b + word_of_nat BUF_SIZE"
  using unat_add_BUF_SIZE [of "head_pt b"] by (auto simp: in_window_def fitting_def word_less_nat_alt)

lemma segment_no_restart:
  assumes "\<not> restarts P" "admits (in_window sent) P b" "segment v t P b = ok r" "may_be t P" "at_place b P"
  shows "\<not> restarts (place_of (next_state r))"
proof (cases t)
  case (Rcv n)
  then show ?thesis using assms no_wrap [of sent _ _ _ b] by (cases P) (auto simp: Let_def and_then_eq_ok split: if_splits)
qed (use shape_may [OF segment_locks(1) [OF assms(4,3)]] only_enqueue_restarts in blast)+

text \<open>
  What a segment of another thread does to a blocked slot: it keeps it blocked, or it has the lock of
  the slot and signals.
\<close>

definition blocked :: "rx_data_buf \<Rightarrow> nat \<Rightarrow> bool" where
  "blocked b i \<longleftrightarrow> i = head_pt_mod b \<and> bk_status (slot b i) = kBlock"

lemma blocked_by_enqueue:
  assumes "blocked b i" "\<not> restarts P" "admits (in_window sent) P b" "at_place b P" "enqueue_segment P b = ok r"
  shows "blocked (new_buf r) i \<or> Element i \<in> held P \<and> element_avail_cond \<in> set (signals r)"
proof (cases P)
  case (E_Slot seq len pkt)
  have nw: "\<not> seq > head_pt b + word_of_nat BUF_SIZE" using assms(3,4) E_Slot no_wrap by simp
  have kept: "blocked (stored seq len pkt b) i" if "i \<noteq> Seq2Ind seq"
    using assms(1) that by (auto simp: blocked_def stored_fields head_pt_mod_def)
  have "store_in_slot seq len pkt b = ok (if bk_status (slot b (Seq2Ind seq)) = kOccupiedNew then b else stored seq len pkt b)"
    using assms(3) E_Slot by (intro store_in_slot_eq) (auto simp: in_window_def fitting_def)
  then show ?thesis
    using assms(1,5) nw E_Slot kept by (cases "i = Seq2Ind seq") (auto simp: Let_def blocked_def split: if_splits)
next
  case (E_Tail seq w)
  then show ?thesis using assms by (auto split: if_splits)
next
  case (E_Clear seq k)
  have "blocked (clear_if_read j b) i" for j
    using assms(1) by (auto simp: blocked_def clear_if_read_def Let_def clear_slot_def set_slot_def head_pt_mod_def)
  then show ?thesis using assms(5) E_Clear by (auto simp: blocked_def head_pt_mod_def split: if_splits)
next
  case (E_Full seq len pkt j)
  then show ?thesis using assms by (auto simp: blocked_def)
qed (use assms in \<open>auto split: if_splits\<close>)

lemma blocked_by_scan:
  assumes "blocked b i" "scan_slot bt now k (ns, b) = (ns', b')"
  shows "blocked b' i \<or> i = k mod BUF_SIZE \<and> bk_status (slot b i) = kBlock \<and> bk_status (slot b' i) = kDrop"
  using assms by (auto simp: blocked_def scan_slot_def Let_def set_slot_def head_pt_mod_def split: if_splits)

lemma blocked_by_find_nack:
  assumes "blocked b i" "find_nack_segment v P b = ok r"
  shows "blocked (new_buf r) i \<or> Element i \<in> held P \<and> element_avail_cond \<in> set (signals r)"
proof (cases P)
  case (A_Scan now k p t e ns)
  obtain ns' b' where s: "scan_slot (block_time v) now k (ns, b) = (ns', b')" by fastforce
  show ?thesis using blocked_by_scan [OF assms(1) s] assms(2) s A_Scan by auto
next
  case (A_Drop x xs)
  have "blocked (drop_nack x b) i \<or> i = Seq2Ind x"
    using assms(1) by (auto simp: blocked_def drop_nack_def set_slot_def head_pt_mod_def)
  then show ?thesis using assms(2) A_Drop by auto
qed (use assms in \<open>auto split: if_splits nack_plan.splits\<close>)

lemma blocked_by_other:
  assumes "blocked b i" "\<not> restarts P" "admits (in_window sent) P b" "at_place b P" "segment v t P b = ok r" "t \<noteq> Write_Tun"
  shows "blocked (new_buf r) i \<or> Element i \<in> held P \<and> element_avail_cond \<in> set (signals r)"
  using assms blocked_by_enqueue [OF assms(1-4)] blocked_by_find_nack [OF assms(1)] by (cases t) auto

section \<open>The consumer sleeps on a slot only while its packet is missing\<close>

fun slot_waited :: "thread_state \<Rightarrow> nat option" where
  "slot_waited (Running (D_Unlocked i)) = Some i"
| "slot_waited (Sleeping c l (D_Woken i)) = Some i"
| "slot_waited T = None"

definition wait_inv :: "lock_state \<Rightarrow> bool" where
  "wait_inv s \<longleftrightarrow> (\<forall>t. \<not> restarts (place_of (threads s t)))
     \<and> (\<forall>i. slot_waited (threads s Write_Tun) = Some i \<longrightarrow> blocked (rx_buf s) i)"

lemma slot_waited_cases: "slot_waited T = Some i \<longleftrightarrow> T = Running (D_Unlocked i) \<or> (\<exists>c l. T = Sleeping c l (D_Woken i))"
  by (induction T rule: slot_waited.induct) auto

lemma slot_waited_woken: "woken T T' \<Longrightarrow> slot_waited T' = Some i \<Longrightarrow> T' = T"
  by (auto simp: woken_def)

lemma slot_waited_shape:
  "shape t T \<Longrightarrow> slot_waited T = Some i \<Longrightarrow> T = Running (D_Unlocked i) \<or> T = Sleeping element_avail_cond (Element i) (D_Woken i)"
proof (cases "T = Running (D_Unlocked i)")
  case False
  assume "shape t T" "slot_waited T = Some i"
  with False obtain c l where T: "T = Sleeping c l (D_Woken i)" "wait_place c l (D_Woken i)" by (auto simp: slot_waited_cases)
  then show ?thesis by (cases c) auto
qed simp

lemma wait_inv_threads:
  assumes "wait_inv s" "rx_buf s' = rx_buf s" "\<And>t. \<not> restarts (place_of (threads s' t))"
    "\<And>i. slot_waited (threads s' Write_Tun) = Some i \<Longrightarrow> slot_waited (threads s Write_Tun) = Some i"
  shows "wait_inv s'"
  using assms by (simp add: wait_inv_def)

text \<open>The segments of the consumer: it waits for a slot that it found blocked.\<close>

lemma consumer_waits:
  assumes "dequeue_segment now P b = ok r" "at_place b P" "may_be Write_Tun P" "slot_waited (next_state r) = Some i"
    and "\<And>j. P = D_Unlocked j \<Longrightarrow> blocked b j"
  shows "blocked (new_buf r) i"
proof (cases P)
  case (D_Slot j)
  from assms(1) [unfolded D_Slot] show ?thesis
  proof (cases rule: D_Slot_cases)
    case (waits b')
    have "i = j" "j = head_pt_mod b" using waits(2) assms(2,4) D_Slot by simp_all
    then show ?thesis using waits
      by (auto simp: deq_slot_def blocked_def set_slot_def head_pt_mod_def and_then_eq_ok split: status.splits)
  qed (use assms(4) in auto)
qed (use assms in \<open>auto simp: Let_def split: if_splits\<close>)

lemma wait_inv_run:
  assumes inv: "wait_inv s" and data: "data_inv False sent s" and step: "segment_step s s' t P v r ts"
    and adm: "admits (in_window sent) P (rx_buf s)"
  shows "wait_inv s'"
proof -
  note f = step_facts [OF step]
  have at: "at_place (rx_buf s) P" using data f(3) by (metis data_inv_def place_of.simps(1))
  have nr: "\<not> restarts P" using inv f(3) by (metis wait_inv_def place_of.simps(1))
  have "\<not> restarts (place_of (threads s' u))" for u
    using step_places [OF step, of u] segment_no_restart [OF nr adm f(4) step_may [OF step] at] inv by (simp add: wait_inv_def)
  moreover have "blocked (rx_buf s') i" if w: "slot_waited (threads s' Write_Tun) = Some i" for i
  proof (cases "t = Write_Tun")
    case True
    have "threads s' Write_Tun = next_state r" using slot_waited_woken [OF step_woken [OF step, of Write_Tun] w] True by simp
    moreover have "blocked (rx_buf s) j" if "P = D_Unlocked j" for j using inv f(3) True that by (simp add: wait_inv_def)
    ultimately show ?thesis
      using consumer_waits [of "the_time v" P "rx_buf s" r i] f(4,6) w at step_may [OF step] True by simp
  next
    case False
    have T: "threads s' Write_Tun = threads s Write_Tun"
      using slot_waited_woken [OF step_woken [OF step, of Write_Tun] w] False by simp
    have b: "blocked (rx_buf s) i" using inv w T by (simp add: wait_inv_def)
    have sh: "shape u (threads s u)" for u using f(1) by (simp add: lock_inv_def)
    from blocked_by_other [OF b nr adm at f(4) False] show ?thesis
    proof
      assume s: "Element i \<in> held P \<and> element_avail_cond \<in> set (signals r)"
      have "threads s Write_Tun \<noteq> Running (D_Unlocked i)"
        using exclusive [OF f(1), of "Element i" t Write_Tun] s f(3) False by auto
      then have "sleeps_on element_avail_cond (threads s' Write_Tun)"
        using slot_waited_shape [OF sh, of Write_Tun i] w T by auto
      moreover have "\<not> sleeps_on element_avail_cond (ts Write_Tun)"
      proof (rule signal_wakes_only [OF f(5)])
        have "u = Write_Tun" if "sleeps_on element_avail_cond (((threads s)(t := next_state r)) u)" for u
          using that sleeps_on_avail [of t "next_state r"] sleeps_on_avail [OF sh, of u] step_locks(1) [OF step] False
          by (auto split: if_splits)
        then show "\<forall>u. sleeps_on element_avail_cond (((threads s)(t := next_state r)) u) \<longrightarrow> u = Write_Tun" by blast
      qed (use s in simp)
      ultimately show ?thesis using f(8) by simp
    qed (use f(6) in simp)
  qed
  ultimately show ?thesis by (simp add: wait_inv_def)
qed

lemma wait_inv_step:
  assumes inv: "wait_inv s" and data: "data_inv False sent s" and step: "lock_step (in_window sent) s s'"
  shows "wait_inv s'"
  using step
proof (cases rule: lock_step.cases)
  case (call_op t P)
  have "\<not> restarts P" using call_op(3) by (induction t P rule: entry_of.induct) simp_all
  then show ?thesis using inv call_op(1) by (intro wait_inv_threads [OF inv]) (auto simp: wait_inv_def split: if_splits)
next
  case (acquire t l P)
  have "shape t (Acquiring l P)" using data acquire(2) by (metis data_inv_def lock_inv_def)
  then have "P \<noteq> D_Unlocked i" if "t = Write_Tun" for i using data that by auto
  moreover have "\<not> restarts P" using inv acquire(2) by (metis wait_inv_def place_of.simps(2))
  ultimately show ?thesis using inv acquire(1,2)
    by (intro wait_inv_threads [OF inv]) (auto simp: wait_inv_def slot_waited_cases split: if_splits)
next
  case (run t P v r ts)
  have l: "lock_inv s" using data by (simp add: data_inv_def)
  show ?thesis
    by (rule wait_inv_run [OF inv data run_segment_step [OF l lock_inv_step [OF l step] run(2,4,5,1)] run(3)])
next
  case (spurious t c l P)
  moreover have "\<not> restarts P" using inv spurious(2) by (metis wait_inv_def place_of.simps(3))
  ultimately show ?thesis using inv
    by (intro wait_inv_threads [OF inv]) (auto simp: wait_inv_def slot_waited_cases split: if_splits)
qed

lemma lock_reachable_wait: "lock_reachable (in_window sent) s \<Longrightarrow> wait_inv s \<and> data_inv False sent s"
proof (erule lock_reachable_induct)
  show "wait_inv (lock_init now) \<and> data_inv False sent (lock_init now)" for now
    using data_inv_init [of False sent now] by (simp add: wait_inv_def) (simp add: lock_init_def)
next
  fix s s'
  assume i: "wait_inv s \<and> data_inv False sent s" and st: "lock_step (in_window sent) s s'"
  have "lock_step (admissible False sent) s s'" using st in_window_admits by (rule lock_step_mono)
  then show "wait_inv s' \<and> data_inv False sent s'" using i st wait_inv_step data_inv_step by blast
qed

section \<open>The two threads that sleep on an empty queue\<close>

definition restart_pending :: "lock_state \<Rightarrow> bool" where
  "restart_pending s \<longleftrightarrow> (\<exists>t seq k. threads s t = Running (E_Wrap seq k))"

text \<open>
  \<open>w\<close> sleeps on a queue that is not empty only when \<open>u\<close> is awake and will signal at \<open>Q\<close>, or the
  restart of the window is about to signal.
\<close>

definition fill_ok :: "thread \<Rightarrow> thread \<Rightarrow> place \<Rightarrow> lock_state \<Rightarrow> bool" where
  "fill_ok w u Q s \<longleftrightarrow> (sleeps_on fill_cond (threads s w) \<longrightarrow> IsEmpty (rx_buf s)
     \<or> (place_of (threads s u) = Q \<and> \<not> sleeps_on fill_cond (threads s u)) \<or> restart_pending s)"

definition partners :: "thread \<Rightarrow> thread \<Rightarrow> place \<Rightarrow> bool" where
  "partners w u Q \<longleftrightarrow> w = Write_Tun \<and> u = Create_Ack \<and> Q = A_Woken \<or> w = Create_Ack \<and> u = Write_Tun \<and> Q = D_Test"

lemma partners_D: "partners w u Q \<Longrightarrow> w \<noteq> u \<and> Q \<noteq> Idle"
  by (auto simp: partners_def)

lemma partner_asleep:
  "partners w u Q \<Longrightarrow> shape x T \<Longrightarrow> x \<noteq> w \<Longrightarrow> sleeps_on fill_cond T \<Longrightarrow> x = u \<and> place_of T = Q"
  by (auto simp: partners_def dest: sleeps_on_fill)

text \<open>How the segments treat the emptiness of the queue.\<close>

lemma enqueue_fill:
  assumes "enqueue_segment P b = ok r"
  shows "(IsEmpty b \<longrightarrow> IsEmpty (new_buf r)) \<or> fill_cond \<in> set (signals r) \<or> (\<exists>seq k. next_state r = Running (E_Wrap seq k))"
proof (cases P)
  case (E_Slot seq len pkt)
  then show ?thesis using assms
    by (auto simp: Let_def and_then_eq_ok store_in_slot_def StorePkt_def UpdateBookKeeping_def IsEmpty_def split: if_splits)
qed (use assms in \<open>auto simp: IsEmpty_def give_up_head_def set_slot_def clear_if_read_def clear_slot_def Let_def split: if_splits\<close>)

lemma points_empty: "head_pt b' = head_pt b \<Longrightarrow> tail_pt b' = tail_pt b \<Longrightarrow> IsEmpty b' = IsEmpty b"
  by (simp add: IsEmpty_def)

lemma find_nack_points:
  assumes "find_nack_segment v P b = ok r"
  shows "head_pt (new_buf r) = head_pt b \<and> tail_pt (new_buf r) = tail_pt b"
proof (cases P)
  case (A_Scan now k p t e ns)
  obtain ns' b' where s: "scan_slot (block_time v) now k (ns, b) = (ns', b')" by fastforce
  then show ?thesis using assms loses_scan [of "(ns, b)" "block_time v" now k] A_Scan by (auto simp: loses_def)
next
  case (A_Drop x xs)
  then show ?thesis using assms loses_steps(4) [of b x] by (auto simp: loses_def)
qed (use assms in \<open>auto split: if_splits nack_plan.splits\<close>)

lemma dequeue_fill:
  assumes "dequeue_segment now P b = ok r" "\<And>i. P = D_Slot i \<Longrightarrow> \<not> IsEmpty b"
  shows "IsEmpty b \<longrightarrow> IsEmpty (new_buf r)"
proof (cases "\<exists>i. P = D_Slot i")
  case False
  then show ?thesis using assms by (cases P) (auto simp: Let_def split: if_splits)
qed (use assms in auto)

lemma segment_fill:
  assumes "segment v t P b = ok r" "\<And>i. P = D_Slot i \<Longrightarrow> \<not> IsEmpty b"
  shows "(IsEmpty b \<longrightarrow> IsEmpty (new_buf r)) \<or> fill_cond \<in> set (signals r) \<or> (\<exists>seq k. next_state r = Running (E_Wrap seq k))"
proof (cases t)
  case (Rcv n)
  then show ?thesis using assms(1) enqueue_fill by simp
next
  case Write_Tun
  then show ?thesis using assms dequeue_fill [of "the_time v" P b r] by simp
next
  case Create_Ack
  then show ?thesis using assms(1) find_nack_points [of v P b r] by (simp add: IsEmpty_def)
qed

lemma wrap_signals:
  assumes "segment v t (E_Wrap seq k) b = ok r" "may_be t (E_Wrap seq k)"
  shows "fill_cond \<in> set (signals r) \<or> next_state r = Running (E_Wrap seq (Suc k))"
  using assms by (cases t) (auto split: if_splits)

lemma partner_signals:
  assumes "partners w u Q" "segment v u Q b = ok r"
  shows "fill_cond \<in> set (signals r) \<or> IsEmpty (new_buf r)"
  using assms by (auto simp: partners_def split: if_splits)

lemma falls_asleep:
  assumes "segment v t P b = ok r" "sleeps_on fill_cond (next_state r)" "may_be t P"
  shows "IsEmpty (new_buf r)"
proof (cases t)
  case (Rcv n)
  then show ?thesis using assms sleeps_on_fill [OF segment_locks(1) [OF assms(3,1)] assms(2)] by auto
next
  case Write_Tun
  have "\<exists>i. P = D_Slot i \<Longrightarrow> False"
    using assms Write_Tun by (auto elim!: D_Slot_cases simp del: dequeue_segment.simps)
  then show ?thesis using assms Write_Tun by (cases P) (auto simp: Let_def split: if_splits)
next
  case Create_Ack
  have "\<not> sleeps_on fill_cond (next_drop ns)" "\<not> sleeps_on fill_cond (next_scan mx now k p tl e ns)" for mx now k p tl e ns
    by (cases ns; simp) (simp add: next_scan_def Let_def, metis next_drop.elims sleeps_on.simps(2,3))
  then show ?thesis using assms Create_Ack by (cases P) (auto split: if_splits nack_plan.splits prod.splits)
qed

text \<open>Steps that leave the buffer alone.\<close>

lemma fill_ok_same:
  assumes ok: "fill_ok w u Q s" and b: "rx_buf s' = rx_buf s"
    and w: "sleeps_on fill_cond (threads s' w) \<Longrightarrow> sleeps_on fill_cond (threads s w)"
    and u: "place_of (threads s u) = Q \<Longrightarrow> \<not> sleeps_on fill_cond (threads s u)
      \<Longrightarrow> place_of (threads s' u) = Q \<and> \<not> sleeps_on fill_cond (threads s' u)"
    and r: "restart_pending s \<Longrightarrow> restart_pending s'"
  shows "fill_ok w u Q s'"
  using assms by (auto simp: fill_ok_def)

lemma restart_pending_other:
  "restart_pending s \<Longrightarrow> (\<And>seq k. threads s t \<noteq> Running (E_Wrap seq k)) \<Longrightarrow> restart_pending (s\<lparr>threads := (threads s)(t := T)\<rparr>)"
  by (auto simp: restart_pending_def) (metis)

text \<open>A signal that leaves \<open>w\<close> asleep has woken its partner.\<close>

lemma partner_woken:
  assumes part: "partners w u Q" and step: "segment_step s s' t P v r ts" and wt: "w \<noteq> t"
    and asleep: "sleeps_on fill_cond (threads s' w)" and sig: "fill_cond \<in> set (signals r)"
  shows "place_of (threads s' u) = Q \<and> \<not> sleeps_on fill_cond (threads s' u)"
proof -
  note f = step_facts [OF step]
  have sh: "shape x (threads s x)" for x using f(1) by (simp add: lock_inv_def)
  have "sleeps_on fill_cond (((threads s)(t := next_state r)) w)"
    using woken_asleep [OF step_woken [OF step, of w] asleep] asleep wt by simp
  then obtain x l R where x: "x \<noteq> w" "((threads s)(t := next_state r)) x = Sleeping fill_cond l R" "ts x = Acquiring l R"
    using signal_wakes_one [OF f(5) sig] asleep f(8) by blast
  have "shape x (Sleeping fill_cond l R)"
    using x(2) sh [of x] step_locks(1) [OF step] by (auto split: if_splits)
  then have "x = u \<and> R = Q" using partner_asleep [OF part _ x(1)] by fastforce
  then show ?thesis using x(3) f(8) by simp
qed

text \<open>At its slot the consumer has a queue that is not empty.\<close>

lemma slot_not_empty:
  assumes data: "data_inv stale sent s" and step: "segment_step s s' t P v r ts" and P: "P = D_Slot i"
  shows "\<not> IsEmpty (rx_buf s)"
proof -
  have t: "t = Write_Tun" using step_may [OF step] P by (cases t) auto
  have "virt s = rx_buf s" using virt_with_queue(1) [OF step] P by simp
  then show ?thesis
    using data t step_facts(3) [OF step] P by (auto simp: data_inv_def state_inv_def abs_state_def IsEmpty_def)
qed

lemma fill_ok_run:
  assumes part: "partners w u Q" and ok: "fill_ok w u Q s" and data: "data_inv stale sent s"
    and step: "segment_step s s' t P v r ts"
  shows "fill_ok w u Q s'"
  unfolding fill_ok_def
proof
  assume asleep: "sleeps_on fill_cond (threads s' w)"
  note f = step_facts [OF step] and may = step_may [OF step]
  have w: "threads s' w = (if w = t then next_state r else threads s w)"
    using woken_asleep [OF step_woken [OF step, of w] asleep] .
  let ?ok = "IsEmpty (rx_buf s') \<or> (place_of (threads s' u) = Q \<and> \<not> sleeps_on fill_cond (threads s' u)) \<or> restart_pending s'"
  show ?ok
  proof (cases "w = t")
    case True
    then show ?thesis using falls_asleep [OF f(4) _ may] asleep w f(6) by simp
  next
    case False
    note signalled = partner_woken [OF part step False asleep]
    have pending: "restart_pending s'" if "next_state r = Running (E_Wrap seq k)" for seq k
      using woken_running [OF step_woken [OF step, of t]] that by (auto simp: restart_pending_def)
    from ok asleep w False consider "IsEmpty (rx_buf s)"
      | "place_of (threads s u) = Q" "\<not> sleeps_on fill_cond (threads s u)" | "restart_pending s"
      by (auto simp: fill_ok_def)
    then show ?thesis
    proof cases
      case 1
      have "(IsEmpty (rx_buf s) \<longrightarrow> IsEmpty (new_buf r)) \<or> fill_cond \<in> set (signals r) \<or> (\<exists>seq k. next_state r = Running (E_Wrap seq k))"
        by (rule segment_fill [OF f(4)]) (rule slot_not_empty [OF data step])
      then show ?thesis using 1 signalled pending f(6) by auto
    next
      case 2
      show ?thesis
      proof (cases "u = t")
        case True
        then show ?thesis using partner_signals [OF part, of v "rx_buf s" r] f(3,4,6) 2 signalled by auto
      next
        case False
        then show ?thesis using 2 step_places [OF step, of u] woken_not_asleep [OF step_woken [OF step, of u]] by simp
      qed
    next
      case 3
      then obtain x seq k where x: "threads s x = Running (E_Wrap seq k)" by (auto simp: restart_pending_def)
      show ?thesis
      proof (cases "x = t")
        case True
        then show ?thesis using wrap_signals [of v t seq k] f(3,4) x may signalled pending by auto
      next
        case False
        then show ?thesis using x woken_running [OF step_woken [OF step, of x]] by (auto simp: restart_pending_def)
      qed
    qed
  qed
qed

lemma fill_ok_step:
  assumes part: "partners w u Q" and ok: "fill_ok w u Q s" and data: "data_inv stale sent s" and step: "lock_step (admissible stale sent) s s'"
  shows "fill_ok w u Q s'"
  using step
proof (cases rule: lock_step.cases)
  case (call_op t P)
  then show ?thesis using partners_D [OF part] restart_pending_other [of s t]
    by (intro fill_ok_same [OF ok]) (auto split: if_splits)
next
  case (acquire t l P)
  have "restart_pending s'" if "restart_pending s"
    using that acquire(1,2) by (auto simp: restart_pending_def) (metis thread_state.distinct(1))
  then show ?thesis using acquire(1,2) by (intro fill_ok_same [OF ok]) (auto split: if_splits)
next
  case (run t P v r ts)
  have l: "lock_inv s" using data by (simp add: data_inv_def)
  show ?thesis
    by (rule fill_ok_run [OF part ok data run_segment_step [OF l lock_inv_step [OF l step] run(2,4,5,1)]])
next
  case (spurious t c l P)
  then show ?thesis using restart_pending_other [of s t]
    by (intro fill_ok_same [OF ok]) (auto split: if_splits)
qed

lemma lock_reachable_fill:
  assumes part: "partners w u Q" and reach: "lock_reachable (admissible stale sent) s"
  shows "fill_ok w u Q s"
proof -
  have "fill_ok w u Q s \<and> data_inv stale sent s"
    using reach
  proof (rule lock_reachable_induct)
    show "fill_ok w u Q (lock_init now) \<and> data_inv stale sent (lock_init now)" for now
      using data_inv_init [of stale sent now] by (simp add: fill_ok_def) (simp add: lock_init_def)
  qed (blast intro: fill_ok_step [OF part] data_inv_step)
  then show ?thesis ..
qed

end
