(* ===== verification/Lock_Restart.thy ===== *)
theory Lock_Restart
  imports Lock_Wakeups
begin

text \<open>
  A restart of the window loses a wake-up. The run that shows it is made of stretches in which one
  thread runs while the others stand still; a stretch is computed by \<open>solo\<close>.
\<close>

section \<open>One thread at a time\<close>

text \<open>
  \<open>n\<close> steps of thread \<open>t\<close> from its state, the buffer and the packets got so far, while the others have the locks \<open>H\<close> and sleep
  on the conditions \<open>C\<close>; \<open>None\<close> when the thread has to wait or one of the others would wake.
\<close>

fun solo ::
  "(u32 \<Rightarrow> u16 \<Rightarrow> u8 list \<Rightarrow> rx_data_buf \<Rightarrow> bool) \<Rightarrow> reads \<Rightarrow> thread \<Rightarrow> lock set \<Rightarrow> cond set \<Rightarrow> nat
     \<Rightarrow> thread_state \<times> rx_data_buf \<times> (u32 \<times> u8 list) list \<Rightarrow> (thread_state \<times> rx_data_buf \<times> (u32 \<times> u8 list) list) option" where
  "solo admit v t H C 0 x = Some x"
| "solo admit v t H C (Suc n) (T, b, d) =
     (case T of
        Sleeping c l P \<Rightarrow> None
      | Acquiring l P \<Rightarrow> if l \<in> H then None else solo admit v t H C n (Running P, b, d)
      | Running P \<Rightarrow>
          (case segment v t P b of
             Inl e \<Rightarrow> None
           | Inr r \<Rightarrow>
               if admits admit P b \<and> (\<forall>c\<in>set (signals r). c \<notin> C \<and> \<not> sleeps_on c (next_state r))
               then solo admit v t H C n (next_state r, new_buf r, d @ returned r) else None))"

lemma solo_add:
  "solo admit v t H C m x = Some y \<Longrightarrow> solo admit v t H C (m + n) x = solo admit v t H C n y"
proof (induction m arbitrary: x)
  case (Suc m)
  obtain T b d where x: "x = (T, b, d)" by (metis prod.exhaust)
  show ?case using Suc unfolding x by (auto split: thread_state.splits sum.splits if_splits)
qed simp

definition stands :: "lock_state \<Rightarrow> thread \<Rightarrow> lock set \<Rightarrow> cond set \<Rightarrow> bool" where
  "stands s t H C \<longleftrightarrow> (\<forall>u. u \<noteq> t \<longrightarrow> holding (threads s u) \<subseteq> H \<and> (\<forall>c. sleeps_on c (threads s u) \<longrightarrow> c \<in> C))"

lemma quiet_signals: "\<forall>c\<in>set cs. \<forall>u. \<not> sleeps_on c (ts u) \<Longrightarrow> woken_by cs ts ts"
  by (induction cs) (auto intro: woken_by.intros)

lemma solo_reaches:
  assumes "lock_reachable admit s" "stands s t H C" "solo admit v t H C n (threads s t, rx_buf s, got s) = Some (T, b, d)"
  shows "\<exists>s'. lock_reachable admit s' \<and> threads s' = (threads s)(t := T) \<and> rx_buf s' = b \<and> got s' = d"
  using assms
proof (induction n arbitrary: s)
  case 0
  then have "threads s = (threads s)(t := T)" "rx_buf s = b" "got s = d" by auto
  then show ?case using 0(1) by blast
next
  case (Suc n)
  have next_state: ?case
    if s1: "lock_step admit s s1" "threads s1 = (threads s)(t := T1)" "rx_buf s1 = b1" "got s1 = d1"
      and solo: "solo admit v t H C n (T1, b1, d1) = Some (T, b, d)" for s1 T1 b1 d1
  proof -
    have st: "stands s1 t H C" using Suc.prems(2) s1(2) by (simp add: stands_def)
    have re: "lock_reachable admit s1" using Suc.prems(1) s1(1) by (rule lock_reachable_step)
    have "solo admit v t H C n (threads s1 t, rx_buf s1, got s1) = Some (T, b, d)" using solo s1(2-4) by simp
    from Suc.IH [OF re st this] obtain s' where
      s': "lock_reachable admit s'" "threads s' = (threads s1)(t := T)" "rx_buf s' = b \<and> got s' = d" by blast
    have "threads s' = (threads s)(t := T)" unfolding s'(2) s1(2) by (rule fun_upd_upd)
    then show ?thesis using s'(1,3) by blast
  qed
  show ?case
  proof (cases "threads s t")
    case (Acquiring l P)
    then have l: "l \<notin> H" "solo admit v t H C n (Running P, rx_buf s, got s) = Some (T, b, d)"
      using Suc.prems(3) by (auto split: if_splits)
    have "locks s l \<noteq> Some u" for u
    proof
      assume "locks s l = Some u"
      then have h: "l \<in> holding (threads s u)" using lock_reachable_inv [OF Suc.prems(1)] by (simp add: lock_inv_def)
      then have "u \<noteq> t" using Acquiring by auto
      then show False using h l(1) Suc.prems(2) by (auto simp: stands_def)
    qed
    then show ?thesis using next_state [OF lock_step.acquire [OF Acquiring]] l(2) by auto
  next
    case (Running P)
    then obtain r where r: "segment v t P (rx_buf s) = ok r" "admits admit P (rx_buf s)"
      "\<forall>c\<in>set (signals r). c \<notin> C \<and> \<not> sleeps_on c (next_state r)"
      "solo admit v t H C n (next_state r, new_buf r, got s @ returned r) = Some (T, b, d)"
      using Suc.prems(3) by (auto split: sum.splits if_splits)
    have "woken_by (signals r) ((threads s)(t := next_state r)) ((threads s)(t := next_state r))"
      using r(3) Suc.prems(2) by (intro quiet_signals) (auto simp: stands_def)
    from lock_step.run [OF Running r(2,1) this] show ?thesis using next_state r(4) by auto
  qed (use Suc.prems(3) in simp)
qed

text \<open>A whole call from the idle thread.\<close>

lemma call_reaches:
  assumes "lock_reachable admit s" "stands s t H C" "threads s t = Running Idle" "entry_of t P"
    and "solo admit v t H C n (Acquiring Queue P, rx_buf s, got s) = Some (T, b, d)"
  shows "\<exists>s'. lock_reachable admit s' \<and> threads s' = (threads s)(t := T) \<and> rx_buf s' = b \<and> got s' = d"
proof -
  let ?s = "s\<lparr>threads := (threads s)(t := Acquiring Queue P)\<rparr>"
  have "lock_reachable admit ?s" using assms(1) lock_step.call_op [OF assms(3,4)] by (rule lock_reachable_step)
  moreover have "stands ?s t H C" using assms(2) by (simp add: stands_def)
  ultimately show ?thesis using solo_reaches [of admit ?s t H C v n T b d] assms(5) by simp
qed

section \<open>The calls of the run\<close>

lemma solo_wrap:
  assumes "k \<le> BUF_SIZE"
  shows "solo admit v (Rcv n) H C (BUF_SIZE - k) (Running (E_Wrap seq k), b, d)
    = Some (Running (E_Wrap seq BUF_SIZE), for_range k BUF_SIZE (wrap_slot seq) b, d)"
  using assms
proof (induction "BUF_SIZE - k" arbitrary: k b)
  case 0
  then show ?case by simp
next
  case (Suc m)
  then have k: "k < BUF_SIZE" "m = BUF_SIZE - Suc k" by simp_all
  have "BUF_SIZE - k = Suc (BUF_SIZE - Suc k)" using k(1) by simp
  then show ?case using Suc.hyps(1) [OF k(2), of "wrap_slot seq k b"] k(1) by (simp add: wrap_slot_def upt_conv_Cons)
qed

text \<open>Storing a packet behind an empty slot, and a restart.\<close>

lemma solo_restart:
  assumes "\<not> IsFull b" "seq > head_pt b" "seq > head_pt b + word_of_nat BUF_SIZE" "admit seq len pkt b"
    and "bk_status (slot b (Seq2Ind seq)) \<noteq> kOccupiedNew" "unat len \<le> PKT_SIZE" "unat len \<le> length pkt"
    and "Queue \<notin> H" "Element (Seq2Ind seq) \<notin> H" "C = {}"
  shows "solo admit v (Rcv n) H C (5 + (BUF_SIZE - 0) + 1) (Acquiring Queue (E_Test seq len pkt), b, d)
    = Some (Running Idle, restart_window seq (stored seq len pkt b), d)"
proof -
  have "solo admit v (Rcv n) H C 5 (Acquiring Queue (E_Test seq len pkt), b, d)
      = Some (Running (E_Wrap seq 0), set_tail_pt seq (set_head_pt (seq - 1) (stored seq len pkt b)), d)"
    using assms store_in_slot_eq [OF assms(6,7), of seq b] by (simp add: eval_nat_numeral Let_def)
  note first = solo_add [OF this, of "BUF_SIZE - 0 + 1"]
  show ?thesis
    using first solo_add [OF solo_wrap [of 0 admit v n H C seq], of 1] assms(10)
    by (simp add: restart_window_wraps add.assoc)
qed

lemma solo_clear:
  assumes "k < unat seq" "fill_cond \<notin> C"
  shows "solo admit v (Rcv n) {} C (2 * (unat seq - k)) (Acquiring (Element (k mod BUF_SIZE)) (E_Clear seq k), b, d)
    = Some (Running Idle, complete (E_Clear seq k) b, d)"
  using assms(1)
proof (induction "unat seq - k" arbitrary: k b)
  case (Suc m)
  then have m: "m = unat seq - Suc k" by simp
  then have two: "2 * (unat seq - k) = Suc (Suc (2 * (unat seq - Suc k)))" using Suc.prems by simp
  show ?case
  proof (cases "Suc k < unat seq")
    case True
    then show ?thesis
      using Suc.hyps(1) [OF m True, of "clear_if_read k b"] complete_clear [OF Suc.prems, of b] two by (simp del: complete.simps)
  next
    case False
    then have "unat seq = Suc k" using Suc.prems by simp
    then have two: "2 * (unat seq - k) = Suc (Suc 0)" by simp
    show ?thesis unfolding two using False assms(2) \<open>unat seq = Suc k\<close> by simp
  qed
qed simp

lemma solo_to_clear:
  assumes "\<not> IsFull b" "seq > head_pt b" "\<not> seq > head_pt b + word_of_nat BUF_SIZE" "seq > tail_pt b" "admit seq len pkt b"
    and "bk_status (slot b (Seq2Ind seq)) = kEmpty" "unat len \<le> PKT_SIZE" "unat len \<le> length pkt"
  shows "solo admit v (Rcv n) {} C 5 (Acquiring Queue (E_Test seq len pkt), b, d)
    = Some (Acquiring (Element (unat (tail_pt b) mod BUF_SIZE)) (E_Clear seq (unat (tail_pt b))), stored seq len pkt b, d)"
  using assms store_in_slot_eq [OF assms(7,8), of seq b] by (simp add: eval_nat_numeral Let_def stored_fields)

lemma solo_store:
  assumes "\<not> IsFull b" "seq > head_pt b" "\<not> seq > head_pt b + word_of_nat BUF_SIZE" "seq > tail_pt b" "admit seq len pkt b"
    and "bk_status (slot b (Seq2Ind seq)) = kEmpty" "unat len \<le> PKT_SIZE" "unat len \<le> length pkt" "fill_cond \<notin> C"
  shows "solo admit v (Rcv n) {} C (5 + 2 * (unat seq - unat (tail_pt b))) (Acquiring Queue (E_Test seq len pkt), b, d)
    = Some (Running Idle, advance_tail seq (stored seq len pkt b), d)"
    "enqueue seq len pkt b = ok (advance_tail seq (stored seq len pkt b))"
proof -
  let ?t = "unat (tail_pt b)"
  have lt: "?t < unat seq" using assms(4) by (simp add: word_less_nat_alt)
  show "solo admit v (Rcv n) {} C (5 + 2 * (unat seq - ?t)) (Acquiring Queue (E_Test seq len pkt), b, d)
    = Some (Running Idle, advance_tail seq (stored seq len pkt b), d)"
    using solo_add [where admit = admit, OF solo_to_clear [where admit = admit and C = C, OF assms(1-8)]]
      solo_clear [OF lt assms(9)] by (simp add: advance_tail_def stored_fields)
  show "enqueue seq len pkt b = ok (advance_tail seq (stored seq len pkt b))"
    using assms(2-4,6) store_in_slot_eq [OF assms(7,8), of seq b] by (simp add: enqueue_def stored_fields)
qed

section \<open>Slots that are empty or hold a packet\<close>

definition two_states :: "rx_data_buf \<Rightarrow> bool" where
  "two_states b \<longleftrightarrow> (\<forall>i<BUF_SIZE. bk_status (slot b i) = kEmpty \<or> bk_status (slot b i) = kOccupiedNew)"

lemma two_states_advance: "two_states b \<Longrightarrow> two_states (advance_tail seq (stored seq len pkt b))"
proof -
  assume b: "two_states b"
  have c: "two_states (clear_if_read k b)" if "two_states b" for k b
    using that by (simp add: two_states_def clear_if_read_def Let_def clear_slot_def set_slot_def)
  have "two_states (fold clear_if_read ks b)" if "two_states b" for ks b
    using that by (induction ks arbitrary: b) (simp_all add: c)
  moreover have "two_states (stored seq len pkt b)" using b by (auto simp: two_states_def stored_def set_slot_def)
  ultimately show ?thesis by (simp add: advance_tail_def two_states_def)
qed

lemma two_states_empty:
  assumes "rx_inv sent b" "two_states b" "head_pt b < seq" "unat seq \<le> unat (head_pt b) + BUF_SIZE" "tail_pt b < seq"
  shows "bk_status (slot b (Seq2Ind seq)) = kEmpty"
proof -
  have "bk_status (slot b (Seq2Ind seq)) \<noteq> kOccupiedNew"
    using occupied_is_duplicate(2) [OF assms(1,3,4)] assms(5) by (auto simp: word_less_nat_alt)
  then show ?thesis using assms(2) mod_BUF_SIZE_less(3) [of seq] unfolding two_states_def by blast
qed

lemma two_states_restart:
  "bk_status (slot b (Seq2Ind seq)) = kOccupiedNew \<Longrightarrow> two_states (restart_window seq b)"
  using restart_window_fields(4) [of seq b] restart_window_fields(5) [of _ seq b] by (metis two_states_def)

lemma empty_advance:
  assumes "bk_status (slot b i) = kEmpty" "i \<noteq> Seq2Ind seq"
  shows "bk_status (slot (advance_tail seq (stored seq len pkt b)) i) = kEmpty"
proof -
  have c: "bk_status (slot (clear_if_read k b) i) = kEmpty" if "bk_status (slot b i) = kEmpty" for k b
    using that by (simp add: clear_if_read_def Let_def clear_slot_def set_slot_def)
  have "bk_status (slot (fold clear_if_read ks b) i) = kEmpty" if "bk_status (slot b i) = kEmpty" for ks b
    using that by (induction ks arbitrary: b) (simp_all add: c)
  then show ?thesis using assms by (simp add: advance_tail_def stored_fields)
qed

text \<open>
  One more packet in a window that still has room, by a thread that nobody waits for: every
  undelivered packet stays, and no slot is signalled.
\<close>

lemma stores_next:
  fixes len :: u16
  assumes reach: "lock_reachable admit s" and idle: "threads s (Rcv 0) = Running Idle"
    and others: "stands s (Rcv 0) {} C" "fill_cond \<notin> C"
    and inv: "rx_inv sent (rx_buf s)" "two_states (rx_buf s)"
    and pkt: "unat len \<le> PKT_SIZE" "unat len \<le> length pkt" "take (unat len) pkt = sent seq"
    and seq: "tail_pt (rx_buf s) < seq" "unat seq \<le> unat (head_pt (rx_buf s)) + BUF_SIZE" "unat seq + BUF_SIZE < 2 ^ 32"
    and adm: "admit seq len pkt (rx_buf s)"
  obtains s' where "lock_reachable admit s'" "threads s' = threads s" "rx_inv sent (rx_buf s')"
    "two_states (rx_buf s')" "head_pt (rx_buf s') = head_pt (rx_buf s)" "tail_pt (rx_buf s') = seq" "holds (rx_buf s') seq"
    "\<And>q. holds (rx_buf s) q \<Longrightarrow> holds (rx_buf s') q"
    "\<And>i. i \<noteq> Seq2Ind seq \<Longrightarrow> bk_status (slot (rx_buf s) i) = kEmpty \<Longrightarrow> bk_status (slot (rx_buf s') i) = kEmpty"
proof -
  let ?b = "rx_buf s"
  have ht: "unat (head_pt ?b) \<le> unat (tail_pt ?b)" using inv(1) by (simp add: rx_inv_def)
  have lt: "unat (tail_pt ?b) < unat seq" using seq(1) by (simp add: word_less_nat_alt)
  have hs: "head_pt ?b < seq" using ht lt by (simp add: word_less_nat_alt)
  have room: "unat (head_pt ?b) + BUF_SIZE < 2 ^ 32" using ht lt seq(3) by linarith
  have nf: "\<not> IsFull ?b"
    using unat_add_BUF_SIZE [OF room] lt seq(2) by (auto simp: IsFull_def word_unat_eq_iff)
  have nw: "\<not> seq > head_pt ?b + word_of_nat BUF_SIZE"
    using unat_add_BUF_SIZE [OF room] seq(2) by (simp add: word_less_nat_alt)
  note st = solo_store [where admit = admit, OF nf hs nw seq(1) adm two_states_empty [OF inv hs seq(2,1)] pkt(1,2) others(2)]
  obtain s' where s': "lock_reachable admit s'" "threads s' = (threads s)(Rcv 0 := Running Idle)"
    "rx_buf s' = advance_tail seq (stored seq len pkt ?b)"
    using call_reaches [OF reach others(1) idle _ st(1)] by auto
  obtain b' where b': "enqueue seq len pkt ?b = ok b'" "rx_inv sent b'" "head_pt b' = head_pt ?b"
    "unat (tail_pt b') = max (unat (tail_pt ?b)) (unat seq)" "holds b' seq" "\<And>q. holds ?b q \<Longrightarrow> holds b' q"
    by (rule enqueue_window [OF inv(1) hs seq(2) room pkt]) blast
  have eq: "rx_buf s' = b'" using s'(3) st(2) b'(1) by simp
  moreover have "tail_pt b' = seq" using b'(4) lt by (simp add: word_unat_eq_iff)
  moreover have "threads s' = threads s" using s'(2) idle by auto
  moreover have "two_states b'" using two_states_advance [OF inv(2), of seq len pkt] s'(3) eq by simp
  moreover have "bk_status (slot b' i) = kEmpty" if "i \<noteq> Seq2Ind seq" "bk_status (slot ?b i) = kEmpty" for i
    using empty_advance [OF that(2,1), of len pkt] s'(3) eq by simp
  ultimately show thesis using that [OF s'(1)] b' by simp
qed

section \<open>The run\<close>

definition asleep_on_slot_0 :: "thread \<Rightarrow> thread_state" where
  "asleep_on_slot_0 = (\<lambda>_. Running Idle)(Write_Tun := Sleeping element_avail_cond (Element 0) (D_Woken 0))"

lemma solo_wait:
  assumes "head_pt b \<noteq> tail_pt b" "head_pt_mod b = i" "bk_status (slot b i) = kEmpty"
  shows "solo admit v Write_Tun {} {} 4 (Acquiring Queue D_Test, b, d)
    = Some (Running (D_Unlocked i), set_slot i (\<lambda>k. k\<lparr>bk_status := kBlock, timestamp := the_time v\<rparr>) b, d)"
  using assms by (simp add: eval_nat_numeral IsEmpty_def deq_slot_def)

lemma idle_stands: "threads s = (\<lambda>_. Running Idle) \<Longrightarrow> stands s t {} {}"
  by (simp add: stands_def)

lemma fresh_slots: "bk_status (slot (RxDataBuf now) i) = kEmpty" "head_pt (RxDataBuf now) = 0" "tail_pt (RxDataBuf now) = 0"
  by (simp_all add: RxDataBuf_def BasicBuf_def basic_buf.defs empty_book_def)

lemma one_fits: "unat (1 :: u16) \<le> PKT_SIZE"
  by (simp add: PKT_SIZE_def)

lemma one_byte:
  assumes "\<And>q. length (sent q :: u8 list) = 1"
  shows "unat (1 :: u16) \<le> length (sent q)" "take (unat (1 :: u16)) (sent q) = sent q"
  using assms [of q] by simp_all

text \<open>Packet 2 arrives; the consumer finds slot 0 empty and unlocks the queue, but does not wait yet.\<close>

lemma consumer_about_to_wait:
  fixes v :: reads
  assumes one: "\<And>q. length (sent q) = 1" and adm: "admit 2 1 (sent 2) (RxDataBuf now)"
  obtains s where "lock_reachable admit s" "threads s = (\<lambda>_. Running Idle)(Write_Tun := Running (D_Unlocked 0))"
    "rx_inv sent (rx_buf s)" "head_pt (rx_buf s) = 0" "tail_pt (rx_buf s) = 2" "bk_status (slot (rx_buf s) 2) = kEmpty"
proof -
  note pkt = one_fits one_byte [of sent 2, OF one]
  define s0 where "s0 = lock_init now"
  have s0: "threads s0 = (\<lambda>_. Running Idle)" "rx_buf s0 = RxDataBuf now" by (simp_all add: s0_def lock_init_def)
  have r0: "lock_reachable admit s0" unfolding lock_reachable_def s0_def by blast
  obtain s1 where s1: "lock_reachable admit s1" "threads s1 = threads s0" "rx_inv sent (rx_buf s1)"
    "head_pt (rx_buf s1) = 0" "tail_pt (rx_buf s1) = 2" and
    e1: "\<And>i. i \<noteq> Seq2Ind 2 \<Longrightarrow> bk_status (slot (rx_buf s0) i) = kEmpty \<Longrightarrow> bk_status (slot (rx_buf s1) i) = kEmpty"
    by (rule stores_next [where seq = 2 and sent = sent and pkt = "sent 2", OF r0 _ idle_stands [OF s0(1)] _ _ _ pkt])
      (use s0 adm in \<open>simp_all add: RxDataBuf_inv fresh_slots two_states_def BUF_SIZE_def\<close>)
  have empty: "bk_status (slot (rx_buf s1) 0) = kEmpty" "bk_status (slot (rx_buf s1) 2) = kEmpty"
    by (rule e1; simp add: Seq2Ind_def BUF_SIZE_def s0 fresh_slots)+
  have t1: "threads s1 = (\<lambda>_. Running Idle)" using s1(2) s0(1) by simp
  let ?b = "set_slot 0 (\<lambda>k. k\<lparr>bk_status := kBlock, timestamp := the_time v\<rparr>) (rx_buf s1)"
  have "solo admit v Write_Tun {} {} 4 (Acquiring Queue D_Test, rx_buf s1, got s1) = Some (Running (D_Unlocked 0), ?b, got s1)"
    by (rule solo_wait) (use s1 empty in \<open>simp_all add: head_pt_mod_def\<close>)
  then obtain s2 where s2: "lock_reachable admit s2" "threads s2 = (threads s1)(Write_Tun := Running (D_Unlocked 0))"
    "rx_buf s2 = ?b"
    using call_reaches [OF s1(1) idle_stands [OF t1], of Write_Tun D_Test v 4] t1 by auto
  have "rx_inv sent ?b" by (rule rx_inv_loses [OF s1(3) loses_set_slot]) simp
  then show thesis using that [OF s2(1)] s2(2,3) t1 s1(4,5) empty by (simp add: set_slot_def)
qed

lemma consumer_falls_asleep:
  assumes "lock_reachable admit s" "threads s = (\<lambda>_. Running Idle)(Write_Tun := Running (D_Unlocked 0))"
  obtains s' where "lock_reachable admit s'" "threads s' = asleep_on_slot_0" "rx_buf s' = rx_buf s"
proof -
  fix v :: reads
  have "stands s Write_Tun {} {}" using assms(2) by (simp add: stands_def)
  moreover have "solo admit v Write_Tun {} {} 1 (threads s Write_Tun, rx_buf s, got s)
      = Some (Sleeping element_avail_cond (Element 0) (D_Woken 0), rx_buf s, got s)"
    using assms(2) by simp
  ultimately obtain s' where s': "lock_reachable admit s'"
    "threads s' = (threads s)(Write_Tun := Sleeping element_avail_cond (Element 0) (D_Woken 0))" "rx_buf s' = rx_buf s"
    using solo_reaches [OF assms(1)] by blast
  moreover have "threads s' = asleep_on_slot_0" using s'(2) assms(2) by (simp add: asleep_on_slot_0_def)
  ultimately show thesis using that by blast
qed

text \<open>Before it waits, packet 5003 restarts the window and signals.\<close>

lemma restart_run:
  assumes one: "\<And>q. length (sent q) = 1"
  obtains s where "lock_reachable (no_overrun sent) s" "threads s = asleep_on_slot_0" "rx_inv sent (rx_buf s)"
    "two_states (rx_buf s)" "head_pt (rx_buf s) = 5002" "tail_pt (rx_buf s) = 5003" "holds (rx_buf s) 5003"
proof -
  fix now v
  note pkt = one_fits one_byte [of sent 5003, OF one]
  have "no_overrun sent 2 1 (sent 2) (RxDataBuf now)" using one_fits one_byte [of sent 2, OF one] by (simp add: admissible_def fitting_def overruns_def fresh_slots BUF_SIZE_def)
  then obtain s2 where s2: "lock_reachable (no_overrun sent) s2" "threads s2 = (\<lambda>_. Running Idle)(Write_Tun := Running (D_Unlocked 0))"
    and inv: "rx_inv sent (rx_buf s2)" and p2: "head_pt (rx_buf s2) = 0" "tail_pt (rx_buf s2) = 2" "bk_status (slot (rx_buf s2) 2) = kEmpty"
    by (rule consumer_about_to_wait [of sent, OF one])
  have i: "Seq2Ind 5003 = 2" by (simp add: Seq2Ind_def BUF_SIZE_def)
  let ?b = "restart_window 5003 (stored 5003 1 (sent 5003) (rx_buf s2))"
  have adm: "no_overrun sent 5003 1 (sent 5003) (rx_buf s2)" using p2 i pkt by (simp add: admissible_def fitting_def overruns_def BUF_SIZE_def)
  have st2: "stands s2 (Rcv 0) {Element 0} {}" "threads s2 (Rcv 0) = Running Idle" "entry_of (Rcv 0) (E_Test 5003 1 (sent 5003))"
    using s2(2) by (simp_all add: stands_def)
  have "solo (no_overrun sent) v (Rcv 0) {Element 0} {} (5 + (BUF_SIZE - 0) + 1) (Acquiring Queue (E_Test 5003 1 (sent 5003)), rx_buf s2, got s2)
      = Some (Running Idle, ?b, got s2)"
    by (rule solo_restart) (use p2 i adm pkt in \<open>simp_all add: IsFull_def BUF_SIZE_def\<close>)
  from call_reaches [OF s2(1) st2 this] obtain s3 where
    s3: "lock_reachable (no_overrun sent) s3" "threads s3 = (threads s2)(Rcv 0 := Running Idle)" "rx_buf s3 = ?b" by blast
  have t3: "threads s3 = (\<lambda>_. Running Idle)(Write_Tun := Running (D_Unlocked 0))" using s3(2) s2(2) by auto
  obtain s4 where s4: "lock_reachable (no_overrun sent) s4" "threads s4 = asleep_on_slot_0" "rx_buf s4 = ?b"
    using consumer_falls_asleep [OF s3(1) t3] s3(3) by metis
  have free: "unat (head_pt (rx_buf s2)) + BUF_SIZE < unat (5003 :: u32)" "bk_status (slot (rx_buf s2) (Seq2Ind 5003)) \<noteq> kOccupiedNew"
    using p2 i by (simp_all add: BUF_SIZE_def)
  obtain b where b: "enqueue 5003 1 (sent 5003) (rx_buf s2) = ok b" "rx_inv sent b" "head_pt b = 5003 - 1" "tail_pt b = 5003" "holds b 5003"
    by (rule enqueue_wrap [OF inv free pkt])
  have "enqueue 5003 1 (sent 5003) (rx_buf s2) = ok ?b"
    using p2 i store_in_slot_eq [of 1 "sent 5003" 5003 "rx_buf s2"] pkt by (simp add: enqueue_def BUF_SIZE_def)
  then have "b = ?b" using b(1) by simp
  moreover have "two_states ?b" by (rule two_states_restart) (simp add: stored_fields)
  ultimately show thesis using that [OF s4(1,2)] b(2-5) s4(3) by simp
qed

text \<open>It sleeps on while the buffer fills up with packets it could deliver.\<close>

lemma sleeps_while_filling:
  assumes one: "\<And>q. length (sent q) = 1" and "n < BUF_SIZE"
  shows "\<exists>s. lock_reachable (no_overrun sent) s \<and> threads s = asleep_on_slot_0 \<and> rx_inv sent (rx_buf s)
    \<and> two_states (rx_buf s) \<and> head_pt (rx_buf s) = 5002 \<and> tail_pt (rx_buf s) = word_of_nat (5003 + n)
    \<and> (\<forall>i\<le>n. holds (rx_buf s) (word_of_nat (5003 + i)))"
  using assms(2)
proof (induction n)
  case 0
  show ?case by (rule restart_run [of sent]) (use one in auto)
next
  case (Suc n)
  then obtain s where s: "lock_reachable (no_overrun sent) s" "threads s = asleep_on_slot_0" "rx_inv sent (rx_buf s)"
    "two_states (rx_buf s)" "head_pt (rx_buf s) = 5002" "tail_pt (rx_buf s) = word_of_nat (5003 + n)"
    and h: "\<forall>i\<le>n. holds (rx_buf s) (word_of_nat (5003 + i))" by auto
  have st: "stands s (Rcv 0) {} {element_avail_cond}" using s(2) by (simp add: stands_def asleep_on_slot_0_def)
  let ?seq = "word_of_nat (5003 + Suc n) :: u32"
  note pkt = one_fits one_byte [of sent ?seq, OF one]
  have un: "unat ?seq = 5003 + Suc n" "unat (word_of_nat (5003 + n) :: u32) = 5003 + n"
    using Suc.prems by (simp_all add: BUF_SIZE_def unat_of_nat del: of_nat_add of_nat_Suc)
  have seq: "tail_pt (rx_buf s) < ?seq" "unat ?seq \<le> unat (head_pt (rx_buf s)) + BUF_SIZE" "unat ?seq + BUF_SIZE < 2 ^ 32"
    using un s(5,6) Suc.prems by (simp_all add: word_less_nat_alt BUF_SIZE_def del: of_nat_add of_nat_Suc)
  have adm: "no_overrun sent ?seq 1 (sent ?seq) (rx_buf s)"
    using pkt seq(2,3) unfolding admissible_def fitting_def overruns_def by (simp del: of_nat_add of_nat_Suc)
  have idle: "threads s (Rcv 0) = Running Idle" using s(2) by (simp add: asleep_on_slot_0_def)
  obtain s' where s': "lock_reachable (no_overrun sent) s'" "threads s' = threads s" "rx_inv sent (rx_buf s')"
    "two_states (rx_buf s')" "head_pt (rx_buf s') = head_pt (rx_buf s)" "tail_pt (rx_buf s') = ?seq" "holds (rx_buf s') ?seq"
    and k: "\<And>q. holds (rx_buf s) q \<Longrightarrow> holds (rx_buf s') q"
    by (rule stores_next [where sent = sent, OF s(1) idle st _ s(3,4) pkt seq adm]) auto
  have "\<forall>i\<le>Suc n. holds (rx_buf s') (word_of_nat (5003 + i))"
    using h k s'(7) by (auto simp: le_Suc_eq simp del: of_nat_add of_nat_Suc)
  then show ?case using s' s(2,5) by metis
qed

end
