(* ===== verification/Lock_Refine.thy ===== *)
theory Lock_Refine
  imports Lock_Restart
begin

text \<open>
  The segments of a thread that runs alone compute the operations of \<open>Rx_Data_Buf\<close>: the model with
  locks and the model with atomic operations are two views of the same code.
\<close>

section \<open>Runs of one thread\<close>

definition runs ::
  "reads \<Rightarrow> thread \<Rightarrow> thread_state \<times> rx_data_buf \<times> (u32 \<times> u8 list) list \<Rightarrow> thread_state \<times> rx_data_buf \<times> (u32 \<times> u8 list) list \<Rightarrow> bool"
where "runs v t x y \<longleftrightarrow> (\<exists>n. solo any_packet v t {} {} n x = Some y)"

lemma runs_refl [intro]: "runs v t x x"
  unfolding runs_def by (metis solo.simps(1))

lemma runs_trans: "runs v t x y \<Longrightarrow> runs v t y z \<Longrightarrow> runs v t x z"
  unfolding runs_def by (metis solo_add)

lemma runs_acquire: "runs v t (Running P, b, d) y \<Longrightarrow> runs v t (Acquiring l P, b, d) y"
proof -
  have "solo any_packet v t {} {} 1 (Acquiring l P, b, d) = Some (Running P, b, d)" by simp
  then have "runs v t (Acquiring l P, b, d) (Running P, b, d)" unfolding runs_def by blast
  then show "runs v t (Running P, b, d) y \<Longrightarrow> ?thesis" by (rule runs_trans)
qed

lemma admits_any: "admits any_packet P b"
  by (cases P) simp_all

lemma runs_segment:
  assumes "segment v t P b = ok r" "\<forall>c\<in>set (signals r). \<not> sleeps_on c (next_state r)"
    and "runs v t (next_state r, new_buf r, d @ returned r) y"
  shows "runs v t (Running P, b, d) y"
proof -
  have "solo any_packet v t {} {} 1 (Running P, b, d) = Some (next_state r, new_buf r, d @ returned r)"
    using assms(1,2) admits_any [of P b] by simp
  then have "runs v t (Running P, b, d) (next_state r, new_buf r, d @ returned r)" unfolding runs_def by blast
  then show ?thesis using assms(3) by (rule runs_trans)
qed

section \<open>EnqueuePkt\<close>

lemma runs_clear:
  assumes "k < unat seq"
  shows "runs v (Rcv n) (Acquiring (Element (k mod BUF_SIZE)) (E_Clear seq k), b, d) (Running Idle, complete (E_Clear seq k) b, d)"
  unfolding runs_def by (rule exI) (rule solo_clear, rule assms, simp)

lemma runs_wrap:
  "runs v (Rcv n) (Running (E_Wrap seq 0), b, d) (Running Idle, for_range 0 BUF_SIZE (wrap_slot seq) b, d)"
proof -
  have "runs v (Rcv n) (Running (E_Wrap seq 0), b, d) (Running (E_Wrap seq BUF_SIZE), for_range 0 BUF_SIZE (wrap_slot seq) b, d)"
    unfolding runs_def by (rule exI) (rule solo_wrap, simp)
  moreover have "runs v (Rcv n) (Running (E_Wrap seq BUF_SIZE), b, d) (Running Idle, b, d)" for b
    by (rule runs_segment) auto
  ultimately show ?thesis by (rule runs_trans)
qed

lemma runs_tail:
  "runs v (Rcv n) (Running (E_Tail seq w), b, d) (Running Idle, complete (E_Tail seq w) b, d)"
proof (cases w)
  case True
  let ?b = "set_tail_pt seq (set_head_pt (seq - 1) b)"
  have "runs v (Rcv n) (Running (E_Wrap seq 0), ?b, d) (Running Idle, complete (E_Tail seq w) b, d)"
    using runs_wrap [of v n seq ?b d] True by (simp add: restart_window_wraps)
  then show ?thesis using True by (intro runs_segment [where P = "E_Tail seq w"]) auto
next
  case False
  show ?thesis
  proof (cases "seq > tail_pt b")
    case True
    then have "unat (tail_pt b) < unat seq" by (simp add: word_less_nat_alt)
    from runs_clear [OF this, of v n b d] show ?thesis
      using False True by (intro runs_segment [where P = "E_Tail seq w"]) (auto simp: advance_tail_def)
  next
    case le: False
    show ?thesis using False le by (intro runs_segment [where P = "E_Tail seq w"]) auto
  qed
qed

text \<open>\<open>EnqueuePkt\<close> returns with its thread idle, or waits with its thread asleep.\<close>

lemma runs_enqueue:
  assumes "EnqueuePkt seq len pkt b = ok (done, b')"
  shows "runs v (Rcv n) (Acquiring Queue (E_Test seq len pkt), b, d)
    (if done then Running Idle else Sleeping empty_cond Queue (E_Test seq len pkt), b', d)"
proof (rule runs_acquire, cases "IsFull b")
  case True
  let ?i = "head_pt_mod b"
  have r: "done = False" "b' = give_up_head b" using assms True by (simp_all add: EnqueuePkt_def)
  have "runs v (Rcv n) (Running (E_Full seq len pkt ?i), b, d) (Sleeping empty_cond Queue (E_Test seq len pkt), b', d)"
    using r by (intro runs_segment [where P = "E_Full seq len pkt ?i"]) auto
  then have "runs v (Rcv n) (Acquiring (Element ?i) (E_Full seq len pkt ?i), b, d) (Sleeping empty_cond Queue (E_Test seq len pkt), b', d)"
    by (rule runs_acquire)
  then show "runs v (Rcv n) (Running (E_Test seq len pkt), b, d) (if done then Running Idle else Sleeping empty_cond Queue (E_Test seq len pkt), b', d)"
    using True r by (intro runs_segment [where P = "E_Test seq len pkt"]) auto
next
  case False
  have enq: "enqueue seq len pkt b = ok b'" and "done" using assms False by (auto simp: EnqueuePkt_def and_then_eq_ok)
  have "runs v (Rcv n) (Running (E_Test seq len pkt), b, d) (Running Idle, b', d)"
  proof (cases "seq > head_pt b")
    case True
    define w where "w \<longleftrightarrow> seq > head_pt b + word_of_nat BUF_SIZE"
    obtain b1 where st: "store_in_slot seq len pkt b = ok b1" using enq True by (auto simp: enqueue_def and_then_eq_ok)
    then have b1: "store_in_slot seq len pkt b = ok b1" "b' = complete (E_Tail seq w) b1"
      using enq True by (simp_all add: enqueue_def w_def split: if_splits)
    have "runs v (Rcv n) (Running (E_Tail seq w), b1, d) (Running Idle, b', d)" using runs_tail b1(2) by blast
    then have "runs v (Rcv n) (Running (E_Slot seq len pkt), b, d) (Running Idle, b', d)"
      using b1(1) by (intro runs_segment [where P = "E_Slot seq len pkt"]) (auto simp: w_def Let_def)
    then have "runs v (Rcv n) (Acquiring (Element (Seq2Ind seq)) (E_Slot seq len pkt), b, d) (Running Idle, b', d)"
      by (rule runs_acquire)
    then show ?thesis using False True by (intro runs_segment [where P = "E_Test seq len pkt"]) auto
  next
    case le: False
    then have "b' = complete (E_Tail seq False) b" using enq by (auto simp: enqueue_def split: if_splits)
    then have "runs v (Rcv n) (Running (E_Tail seq False), b, d) (Running Idle, b', d)" using runs_tail by blast
    then show ?thesis using False le by (intro runs_segment [where P = "E_Test seq len pkt"]) auto
  qed
  then show "runs v (Rcv n) (Running (E_Test seq len pkt), b, d) (if done then Running Idle else Sleeping empty_cond Queue (E_Test seq len pkt), b', d)"
    using \<open>done\<close> by simp
qed

section \<open>DequeuePkt\<close>

text \<open>How the thread stands at the end of a segment between two waits, and what it got.\<close>

fun consumer_state :: "dequeued \<Rightarrow> thread_state" where
  "consumer_state Wait_Fill = Sleeping fill_cond Queue D_Test"
| "consumer_state (Wait_Slot i) = Sleeping element_avail_cond (Element i) (D_Woken i)"
| "consumer_state q = Running Idle"

fun consumer_got :: "u32 \<Rightarrow> dequeued \<Rightarrow> (u32 \<times> u8 list) list" where
  "consumer_got s (Got_Pkt p len) = [(s, p)]"
| "consumer_got s q = []"

lemma runs_deq_slot:
  assumes "deq_slot (the_time v) i b = ok (q, b')"
  shows "runs v Write_Tun (Acquiring (Element i) (D_Slot i), b, d) (consumer_state q, b', d @ consumer_got (head_pt b + 1) q)"
proof (rule runs_acquire, cases q)
  case (Wait_Slot j)
  then have j: "j = i" using deq_slot_waits [OF assms] by simp
  have "runs v Write_Tun (Running (D_Unlocked i), b', d) (Sleeping element_avail_cond (Element i) (D_Woken i), b', d)"
    by (rule runs_segment) auto
  then show "runs v Write_Tun (Running (D_Slot i), b, d) (consumer_state q, b', d @ consumer_got (head_pt b + 1) q)"
    using assms Wait_Slot j by (intro runs_segment [where P = "D_Slot i"]) auto
next
  case Wait_Fill
  then show "runs v Write_Tun (Running (D_Slot i), b, d) (consumer_state q, b', d @ consumer_got (head_pt b + 1) q)"
    using deq_slot_waits [OF assms] by simp
qed (use assms in \<open>auto intro!: runs_segment [where P = "D_Slot i"]\<close>)

lemma runs_dequeue:
  assumes "DequeuePkt (the_time v) b = ok (q, b')"
  shows "runs v Write_Tun (Acquiring Queue D_Test, b, d) (consumer_state q, b', d @ consumer_got (head_pt b + 1) q)"
proof (rule runs_acquire, cases "IsEmpty b")
  case True
  then show "runs v Write_Tun (Running D_Test, b, d) (consumer_state q, b', d @ consumer_got (head_pt b + 1) q)"
    using assms by (intro runs_segment [where P = D_Test]) (auto simp: DequeuePkt_def)
next
  case False
  then have "deq_slot (the_time v) (head_pt_mod b) b = ok (q, b')" using assms by (simp add: DequeuePkt_def)
  note r = runs_deq_slot [OF this, of d]
  show "runs v Write_Tun (Running D_Test, b, d) (consumer_state q, b', d @ consumer_got (head_pt b + 1) q)"
    using False r by (intro runs_segment [where P = D_Test]) auto
qed

lemma runs_wake:
  assumes "DequeuePkt_wake (the_time v) i b = ok (q, b')"
  shows "runs v Write_Tun (Acquiring (Element i) (D_Woken i), b, d) (consumer_state q, b', d @ consumer_got (head_pt b + 1) q)"
proof -
  let ?j = "if bk_seq_num (slot b i) \<noteq> head_pt b + 1 then head_pt_mod b else i"
  have "deq_slot (the_time v) ?j b = ok (q, b')" using assms by (simp add: DequeuePkt_wake_def)
  note r = runs_deq_slot [OF this, of d]
  have "runs v Write_Tun (Running (D_Pick i), b, d) (consumer_state q, b', d @ consumer_got (head_pt b + 1) q)"
    using r by (intro runs_segment [where P = "D_Pick i"]) (auto simp: Let_def)
  from runs_acquire [OF this, of Queue] show ?thesis
    by (intro runs_acquire runs_segment [where P = "D_Woken i"]) auto
qed

section \<open>FindNackSeqNum\<close>

lemma no_sleeper: "\<not> sleeps_on c (next_drop ns)" "\<not> sleeps_on c (next_scan mx now k p t e ns)"
proof -
  show d: "\<not> sleeps_on c (next_drop ns)" for ns by (cases ns) simp_all
  then show "\<not> sleeps_on c (next_scan mx now k p t e ns)" by (simp add: next_scan_def Let_def)
qed

lemma runs_drops: "runs v Create_Ack (next_drop ns, b, d) (Running Idle, fold drop_nack ns b, d)"
proof (induction ns arbitrary: b)
  case (Cons s ss)
  have "runs v Create_Ack (Running (A_Drop s ss), b, d) (Running Idle, fold drop_nack (s # ss) b, d)"
    using Cons.IH [of "drop_nack s b"] no_sleeper(1) [of _ ss] by (intro runs_segment [where P = "A_Drop s ss"]) auto
  from runs_acquire [OF this] show ?case by simp
qed (simp add: runs_refl)

lemma runs_scan:
  "runs v Create_Ack (next_scan (max_num_nacks v) now k p t e ns, b, d)
    (let (ns', b') = for_range k (unat p + 1) (scan_slot (block_time v) now) (ns, b); nacks = ns' @ nacks_behind t e
     in (Running Idle, if length nacks \<ge> max_num_nacks v then fold drop_nack nacks b' else b', d))"
proof (induction "unat p + 1 - k" arbitrary: k ns b)
  case 0
  then have k: "\<not> k \<le> unat p" "[k..<unat p + 1] = []" by simp_all
  let ?nacks = "ns @ nacks_behind t e"
  show ?case
    using runs_drops [of v ?nacks b d] k(1) unfolding k(2) by (auto simp: next_scan_def Let_def)
next
  case (Suc m)
  then have k: "k \<le> unat p" "m = unat p + 1 - Suc k" by simp_all
  obtain ns1 b1 where s: "scan_slot (block_time v) now k (ns, b) = (ns1, b1)" by fastforce
  have IH: "runs v Create_Ack (next_scan (max_num_nacks v) now (Suc k) p t e ns1, b1, d)
    (let (ns', b') = for_range (Suc k) (unat p + 1) (scan_slot (block_time v) now) (ns1, b1); nacks = ns' @ nacks_behind t e
     in (Running Idle, if length nacks \<ge> max_num_nacks v then fold drop_nack nacks b' else b', d))" (is "runs v _ _ ?y")
    using Suc.hyps(1) [OF k(2)] .
  have y: "for_range k (unat p + 1) (scan_slot (block_time v) now) (ns, b) = for_range (Suc k) (unat p + 1) (scan_slot (block_time v) now) (ns1, b1)"
    using k(1) s upt_conv_Cons [of k "unat p + 1"] by (simp del: upt_Suc)
  have "runs v Create_Ack (Running (A_Scan now k p t e ns), b, d) ?y"
    using s IH by (intro runs_segment [where P = "A_Scan now k p t e ns"]) (auto simp: no_sleeper)
  then show ?case unfolding y using k(1) by (auto simp: next_scan_def intro: runs_acquire)
qed

text \<open>From the snapshot of the pointers, which the run takes with the queue locked.\<close>

lemma runs_find_nacks:
  assumes find: "find_nacks (block_time v) (max_num_nacks v) (the_time v)
      (nack_range (head_pt b) (tail_pt b) (highest_decoded v) (is_decoded v)) (head_pt b) (tail_pt b) b = ok (res, b')"
    and "\<not> (batch_acked v \<and> IsEmpty b)"
  shows "runs v Create_Ack (Acquiring Queue A_Test, b, d) (Running Idle, b', d)"
proof -
  let ?h = "head_pt b" and ?t = "tail_pt b"
  have "runs v Create_Ack (Running (A_Plan ?h ?t), b, d) (Running Idle, b', d)"
  proof (cases "nack_range ?h ?t (highest_decoded v) (is_decoded v)")
    case (Only_End e)
    then show ?thesis using find by (intro runs_segment [where P = "A_Plan ?h ?t"]) (auto simp: find_nacks_def)
  next
    case (Scan_To p e)
    have p: "p < ?t" using find Scan_To by (simp add: find_nacks_def split: if_splits)
    show ?thesis
      using find Scan_To p runs_scan [of v "the_time v" "unat ?h" p ?t e "[]" b d]
      by (intro runs_segment [where P = "A_Plan ?h ?t"])
        (auto simp: find_nacks_def Let_def no_sleeper split: prod.splits if_splits simp del: upt_Suc fold_append)
  qed
  then show ?thesis
    using assms(2) by (intro runs_acquire runs_segment [where P = A_Test]) auto
qed

end
