(* ===== verification/Lock_Properties.thy ===== *)
theory Lock_Properties
  imports Rx_Properties Lock_Refine
begin

text \<open>
  The properties of the receive buffer with its locks: exclusion, the absence of deadlocks, ordered
  delivery, and what can and cannot happen to a sleeping thread. The concrete runs are computed by
  \<open>solo\<close>.
\<close>

lemma byte_of_one: "length (byte_of q) = 1"
  by (simp add: byte_of_def)

lemma init_reachable: "lock_reachable admit (lock_init now)"
  unfolding lock_reachable_def by blast

lemma init_fields:
  "threads (lock_init now) = (\<lambda>_. Running Idle)" "rx_buf (lock_init now) = RxDataBuf now" "got (lock_init now) = []"
  by (simp_all add: lock_init_def)

section \<open>Ordered delivery\<close>

text \<open>
  C3: with the receiving threads, the writing thread and the acknowledging thread interleaved at
  every lock, unlock and wait, with wake-ups lost or spurious, and any packets that carry the payload
  of their number, fit a slot and stay away from the end of uint32, the packets that the writing
  thread gets come in strictly increasing order of their positions, and each is the packet sent under
  its position or an older one of the same slot. The second case needs a restart of the window over an
  undelivered packet: in a run where no restart meets one (stale is False, an assumption on the run
  that the code does not check), each packet is the one sent under its position.
\<close>

theorem locked_delivery_in_order:
  assumes "lock_reachable (admissible stale sent) s"
  shows "sorted_wrt (<) (map fst (got s))
    \<and> (\<forall>(p, d)\<in>set (got s). d = sent p \<or> stale \<and> (\<exists>q<p. Seq2Ind q = Seq2Ind p \<and> d = sent q))"
  using lock_reachable_data [OF assms] by (auto simp: data_inv_def state_inv_def abs_state_def delivers_def)

text \<open>Packet 1 is stored and delivered.\<close>

lemma one_delivered:
  obtains s where "lock_reachable (no_overrun byte_of) s" "got s = [(1, byte_of 1)]"
proof -
  fix v :: reads
  let ?s = "lock_init t0" and ?b = "RxDataBuf t0"
  let ?b1 = "advance_tail 1 (stored 1 1 (byte_of 1) ?b)"
  note pkt = one_fits one_byte [of byte_of 1, OF byte_of_one]
  have adm: "no_overrun byte_of 1 1 (byte_of 1) ?b" using pkt by (simp add: admissible_def fitting_def overruns_def fresh_slots BUF_SIZE_def)
  have idle: "threads ?s (Rcv 0) = Running Idle" "entry_of (Rcv 0) (E_Test 1 1 (byte_of 1))" by (simp_all add: init_fields)
  have st: "stands ?s (Rcv 0) {} {}" by (rule idle_stands) (simp add: init_fields)
  have run: "solo (no_overrun byte_of) v (Rcv 0) {} {} (5 + 2 * (unat (1 :: u32) - unat (tail_pt ?b))) (Acquiring Queue (E_Test 1 1 (byte_of 1)), ?b, [])
      = Some (Running Idle, ?b1, [])" "enqueue 1 1 (byte_of 1) ?b = ok ?b1"
    by (rule solo_store [where C = "{}" and admit = "no_overrun byte_of"]; use adm pkt fresh_slots in \<open>simp add: IsFull_def BUF_SIZE_def\<close>)+
  have same: "(\<lambda>_. Running Idle)(Rcv 0 := Running Idle) = (\<lambda>_. Running Idle)" by (simp add: fun_upd_idem)
  obtain s1 where s1: "lock_reachable (no_overrun byte_of) s1" "threads s1 = (\<lambda>_. Running Idle)" "rx_buf s1 = ?b1" "got s1 = []"
    using call_reaches [OF init_reachable st idle, unfolded init_fields, OF run(1)] unfolding same by blast
  obtain b1 where b1: "enqueue 1 1 (byte_of 1) ?b = ok b1" "rx_inv byte_of b1" "head_pt b1 = head_pt ?b" "holds b1 1"
    by (rule enqueue_window [OF RxDataBuf_inv [of byte_of], where seq = 1 and len = 1 and pkt = "byte_of 1" and now1 = t0])
      (use pkt in \<open>simp_all add: BUF_SIZE_def\<close>)
  have "b1 = ?b1" using b1(1) run(2) by simp
  then obtain b2 where b2: "DequeuePkt t0 ?b1 = ok (Got_Pkt (byte_of (head_pt ?b1 + 1)) (bk_len (slot ?b1 (head_pt_mod ?b1))), b2)"
    and h: "head_pt ?b1 = 0"
    using deq_got [of byte_of b1 t0 thesis] b1(2-4) by auto
  let ?v = "v\<lparr>the_time := t0\<rparr>"
  have "solo (no_overrun byte_of) ?v Write_Tun {} {} 4 (Acquiring Queue D_Test, ?b1, []) = Some (Running Idle, b2, [(1, byte_of 1)])"
    using b2 h by (simp add: eval_nat_numeral DequeuePkt_def split: if_splits)
  then show thesis
    using call_reaches [OF s1(1) idle_stands [OF s1(2)], of Write_Tun D_Test ?v 4] s1(2-4) that by auto
qed

theorem locked_delivery_in_order_witness:
  "\<exists>s. lock_reachable (no_overrun byte_of) s \<and> got s = [(1, [1])] \<and> sorted_wrt (<) (map fst (got s)) \<and> byte_of 1 = [1]"
proof -
  obtain s where s: "lock_reachable (no_overrun byte_of) s" "got s = [(1, byte_of 1)]" by (rule one_delivered)
  show ?thesis using s locked_delivery_in_order [OF s(1)] by (auto simp: byte_of_def)
qed

section \<open>The state between the calls\<close>

text \<open>What the invariant of the runs says of the buffer itself while nobody has the queue.\<close>

lemma free_queue_state:
  assumes "lock_reachable (admissible stale sent) s" "locks s Queue = None"
  shows "rx_ok stale sent (rx_buf s)" "unat (tail_pt (rx_buf s)) + BUF_SIZE < 2 ^ 32"
    "threads s Write_Tun = Sleeping element_avail_cond (Element i) (D_Woken i) \<Longrightarrow> head_pt (rx_buf s) \<noteq> tail_pt (rx_buf s) \<and> i < BUF_SIZE"
  using lock_reachable_data [OF assms(1)] assms(2) by (auto simp: data_inv_def state_inv_def abs_state_def virt_def)

lemma nobody_has_queue:
  assumes "lock_reachable admit s" "\<And>t. Queue \<notin> holding (threads s t)"
  shows "locks s Queue = None"
  using lock_reachable_inv [OF assms(1)] assms(2) by (metis lock_inv_def not_None_eq)

text \<open>
  C18: in every state of the interleaved runs in which nobody has the lock of the queue, the receive
  buffer is well formed, for the packets of locked_delivery_in_order. Its window is at most 5000 positions, and each slot
  marked as holding an undelivered packet holds the contents sent under the slot's number, with a
  length that fits; the number belongs to the slot and lies inside the window. After a restart over an
  undelivered packet the slot of the head alone may instead hold an older number of the same slot
  (stale); without such a restart no slot does. A writing thread that sleeps on a slot does so while
  the buffer is not empty.
\<close>

theorem rx_buffer_well_formed:
  assumes "lock_reachable (admissible stale sent) s" "locks s Queue = None"
  shows "unat (head_pt (rx_buf s)) \<le> unat (tail_pt (rx_buf s)) \<and> unat (tail_pt (rx_buf s)) \<le> unat (head_pt (rx_buf s)) + 5000
    \<and> (\<forall>i<5000. bk_status (slot (rx_buf s) i) = kOccupiedNew
        \<longrightarrow> slot_holds sent (rx_buf s) i \<or> stale \<and> slot_stale sent (rx_buf s) i)
    \<and> (\<forall>i. threads s Write_Tun = Sleeping element_avail_cond (Element i) (D_Woken i) \<longrightarrow> \<not> IsEmpty (rx_buf s) \<and> i < 5000)"
  using free_queue_state [OF assms] by (auto simp: rx_ok_def IsEmpty_def BUF_SIZE_def)

text \<open>Packet 2 is in the buffer, and the writing thread sleeps on the slot of packet 1.\<close>

lemma writer_asleep:
  obtains s where "lock_reachable (in_window byte_of) s" "threads s = asleep_on_slot_0"
    "head_pt (rx_buf s) = 0" "tail_pt (rx_buf s) = 2" "bk_status (slot (rx_buf s) 0) = kBlock"
proof -
  have "in_window byte_of 2 1 (byte_of 2) (RxDataBuf t0)"
    using one_fits one_byte [of byte_of 2, OF byte_of_one] by (simp add: in_window_def fitting_def BUF_SIZE_def)
  then obtain s where s: "lock_reachable (in_window byte_of) s" "threads s = (\<lambda>_. Running Idle)(Write_Tun := Running (D_Unlocked 0))"
    "head_pt (rx_buf s) = 0" "tail_pt (rx_buf s) = 2"
    by (rule consumer_about_to_wait [of byte_of, OF byte_of_one])
  obtain s' where s': "lock_reachable (in_window byte_of) s'" "threads s' = asleep_on_slot_0" "rx_buf s' = rx_buf s"
    by (rule consumer_falls_asleep [OF s(1,2)])
  have "blocked (rx_buf s') 0" using lock_reachable_wait [OF s'(1)] s'(2) by (simp add: wait_inv_def asleep_on_slot_0_def)
  then show thesis using that [OF s'(1,2)] s'(3) s(3,4) by (simp add: blocked_def)
qed

lemma in_window_fits: "lock_reachable (in_window sent) s \<Longrightarrow> lock_reachable (no_overrun sent) s"
  by (erule lock_reachable_mono) (rule in_window_admits)

theorem rx_buffer_well_formed_witness:
  "\<exists>s. lock_reachable (no_overrun byte_of) s \<and> locks s Queue = None \<and> \<not> IsEmpty (rx_buf s)
    \<and> (\<forall>i<5000. bk_status (slot (rx_buf s) i) = kOccupiedNew \<longrightarrow> slot_holds byte_of (rx_buf s) i)"
proof -
  obtain s where s: "lock_reachable (in_window byte_of) s" "threads s = asleep_on_slot_0"
    "threads s Write_Tun = Sleeping element_avail_cond (Element 0) (D_Woken 0)"
    by (rule writer_asleep) (simp add: asleep_on_slot_0_def)
  have q: "locks s Queue = None" by (rule nobody_has_queue [OF s(1)]) (simp add: s(2) asleep_on_slot_0_def)
  show ?thesis using rx_buffer_well_formed [OF in_window_fits [OF s(1)] q] in_window_fits [OF s(1)] q s(3) by blast
qed

section \<open>The writing thread that waits too long\<close>

text \<open>The segment of the search that gives up the slot the writing thread sleeps on.\<close>

lemma scan_wakes_writer:
  assumes reach: "lock_reachable admit s" and asleep: "threads s Write_Tun = Sleeping element_avail_cond (Element i) (D_Woken i)"
    and i: "i = head_pt_mod (rx_buf s)" and blocked: "bk_status (slot (rx_buf s) i) = kBlock"
    and late: "block_time v * 1000 < time_minus end_time (timestamp (slot (rx_buf s) i))"
    and seg: "segment v Create_Ack (A_Scan end_time (unat (head_pt (rx_buf s))) end_pt tail end_seq ns) (rx_buf s) = ok r"
    and woken: "woken_by (signals r) ((threads s)(Create_Ack := next_state r)) ts"
  shows "bk_status (slot (new_buf r) i) = kDrop \<and> ts Write_Tun = Acquiring (Element i) (D_Woken i)"
proof -
  let ?P = "A_Scan end_time (unat (head_pt (rx_buf s))) end_pt tail end_seq ns"
  have h: "unat (head_pt (rx_buf s)) mod BUF_SIZE = i" using i by (simp add: head_pt_mod_def)
  obtain b1 where b1: "scan_slot (block_time v) end_time (unat (head_pt (rx_buf s))) (ns, rx_buf s) = (ns, b1)"
    "bk_status (slot b1 i) = kDrop" using scan_late_head [of "rx_buf s"] blocked late i by blast
  have r: "new_buf r = b1" "signals r = [element_avail_cond]"
    using seg b1 h blocked by auto
  let ?ts = "(threads s)(Create_Ack := next_state r)"
  have li: "lock_inv s" using reach by (rule lock_reachable_inv)
  have next_state: "shape Create_Ack (next_state r)" using segment_locks(1) [OF _ seg] by simp
  then have "shape u (?ts u)" for u using li by (simp add: lock_inv_def)
  then have only: "\<forall>u. sleeps_on element_avail_cond (?ts u) \<longrightarrow> u = Write_Tun" using sleeps_on_avail by blast
  have "\<not> sleeps_on element_avail_cond (ts Write_Tun)"
    by (rule signal_wakes_only [OF woken _ only]) (simp add: r(2))
  moreover have "woken (?ts Write_Tun) (ts Write_Tun)" by (rule woken_by_woken [OF woken])
  ultimately show ?thesis using b1(2) r(1) asleep by (auto simp: woken_def)
qed

text \<open>
  C20: a writing thread that sleeps on the slot of the head, in a run with the packets of
  locked_delivery_in_order, is freed by the first search that comes to that slot when it has been blocked for more than block_time
  milliseconds. The search comes to it when the last batch is decoded or over its time, or the head is
  before the end of the previous batch; then FindNackSeqNum as a whole does not ask for the missing packet, marks its
  slot kDrop, touches no packet the buffer holds, and DequeuePkt moves past it when it wakes. Among the
  other threads, the step of the search at the head marks the slot and its signal wakes the writing
  thread, whoever else sleeps. How long the acknowledging thread takes to come to its next search is
  not bounded.
\<close>

theorem blocked_head_times_out:
  assumes "lock_reachable (admissible stale sent) s" "locks s Queue = None"
    and "threads s Write_Tun = Sleeping element_avail_cond (Element i) (D_Woken i)"
    and "i = head_pt_mod (rx_buf s)" "bk_status (slot (rx_buf s) i) = kBlock"
    and "block_time v * 1000 < time_minus end_time (timestamp (slot (rx_buf s) i))"
    and "GetBatchInfo now bi = ((highest, d), bi')" "d \<or> head_pt (rx_buf s) < highest"
  shows "(\<exists>nacks end_seq prev' b1 b2. FindNackSeqNum (block_time v) mx now end_time bi prev (rx_buf s) = ok (Nacks nacks end_seq, bi', prev', b1)
      \<and> head_pt (rx_buf s) + 1 \<notin> set nacks \<and> loses (rx_buf s) b1 \<and> bk_status (slot b1 i) = kDrop
      \<and> DequeuePkt_wake now' i b1 = ok (Gave_Up, b2) \<and> head_pt b2 = head_pt (rx_buf s) + 1)
    \<and> (\<forall>end_pt tail end_seq ns r ts. threads s Create_Ack = Running (A_Scan end_time (unat (head_pt (rx_buf s))) end_pt tail end_seq ns)
      \<and> segment v Create_Ack (A_Scan end_time (unat (head_pt (rx_buf s))) end_pt tail end_seq ns) (rx_buf s) = ok r
      \<and> woken_by (signals r) ((threads s)(Create_Ack := next_state r)) ts
      \<longrightarrow> bk_status (slot (new_buf r) i) = kDrop \<and> ts Write_Tun = Acquiring (Element i) (D_Woken i))"
proof -
  note f = free_queue_state [OF assms(1,2)]
  have window: "head_pt (rx_buf s) < tail_pt (rx_buf s)" "unat (tail_pt (rx_buf s)) \<le> unat (head_pt (rx_buf s)) + BUF_SIZE"
    "unat (tail_pt (rx_buf s)) + 1 < 2 ^ 32"
    using f(1,2) f(3) [OF assms(3)] ok_head_before_tail [OF f(1)] by (auto simp: rx_ok_def word_less_nat_alt BUF_SIZE_def)
  show ?thesis
    using timeout_unblocks [OF assms(5,6) [unfolded assms(4)] window assms(7,8), of mx prev now']
      scan_wakes_writer [OF assms(1,3-6)] assms(4) by blast
qed

text \<open>A second later the acknowledging thread has come to the slot.\<close>

lemma searching_at_head:
  fixes v :: reads
  obtains s end_time end_pt end_seq where "lock_reachable (no_overrun byte_of) s" "locks s Queue = None"
    "threads s Write_Tun = Sleeping element_avail_cond (Element 0) (D_Woken 0)" "head_pt (rx_buf s) = 0"
    "bk_status (slot (rx_buf s) 0) = kBlock" "time_minus end_time (timestamp (slot (rx_buf s) 0)) = 1000000"
    "threads s Create_Ack = Running (A_Scan end_time 0 end_pt 2 end_seq [])"
proof -
  obtain s where s: "lock_reachable (in_window byte_of) s" "threads s = asleep_on_slot_0"
    "head_pt (rx_buf s) = 0" "tail_pt (rx_buf s) = 2" "bk_status (slot (rx_buf s) 0) = kBlock" by (rule writer_asleep)
  define e where "e = (let t = timestamp (slot (rx_buf s) 0) in \<lparr>tv_sec = tv_sec t + 1, tv_usec = tv_usec t\<rparr>)"
  let ?v = "v\<lparr>the_time := e, batch_acked := False, is_decoded := True, highest_decoded := 2\<rparr>"
  obtain p q where plan: "nack_range 0 2 2 True = Scan_To p q" "p < 2"
    by (auto simp: nack_range_scans scans_def scan_last_def)
  have st: "stands s Create_Ack {} {element_avail_cond}" "threads s Create_Ack = Running Idle" "entry_of Create_Ack A_Test"
    using s(2) by (simp_all add: stands_def asleep_on_slot_0_def)
  have "solo (no_overrun byte_of) ?v Create_Ack {} {element_avail_cond} 4 (Acquiring Queue A_Test, rx_buf s, got s)
      = Some (Running (A_Scan e 0 p 2 q []), rx_buf s, got s)"
    using s(3,4) plan by (simp add: eval_nat_numeral next_scan_def)
  from call_reaches [OF in_window_fits [OF s(1)] st this] obtain s' where s': "lock_reachable (no_overrun byte_of) s'"
    "threads s' = (threads s)(Create_Ack := Running (A_Scan e 0 p 2 q []))" "rx_buf s' = rx_buf s" by blast
  have "locks s' Queue = None" by (rule nobody_has_queue [OF s'(1)]) (simp add: s'(2) s(2) asleep_on_slot_0_def)
  moreover have "time_minus e (timestamp (slot (rx_buf s) 0)) = 1000000" by (simp add: e_def Let_def time_minus_def)
  ultimately show thesis using that [OF s'(1)] s'(2,3) s(2,3,5) by (simp add: asleep_on_slot_0_def)
qed

theorem blocked_head_times_out_witness:
  "\<exists>s v P r ts. lock_reachable (no_overrun byte_of) s \<and> threads s Write_Tun = Sleeping element_avail_cond (Element 0) (D_Woken 0)
    \<and> threads s Create_Ack = Running P \<and> segment v Create_Ack P (rx_buf s) = ok r
    \<and> woken_by (signals r) ((threads s)(Create_Ack := next_state r)) ts \<and> ts Write_Tun = Acquiring (Element 0) (D_Woken 0)"
proof -
  define v :: reads where "v = undefined\<lparr>block_time := 20\<rparr>"
  obtain s e p q where s: "lock_reachable (no_overrun byte_of) s" "locks s Queue = None"
    "threads s Write_Tun = Sleeping element_avail_cond (Element 0) (D_Woken 0)" "head_pt (rx_buf s) = 0"
    "bk_status (slot (rx_buf s) 0) = kBlock" "time_minus e (timestamp (slot (rx_buf s) 0)) = 1000000"
    "threads s Create_Ack = Running (A_Scan e 0 p 2 q [])" by (rule searching_at_head)
  have info: "GetBatchInfo t0 (set_decoding_done True (BatchInfo t0 0)) = ((0, True), set_decoding_done True (BatchInfo t0 0))"
    by (simp add: GetBatchInfo_def decoding_done_def set_decoding_done_def BatchInfo_def)
  obtain r where r: "segment v Create_Ack (A_Scan e 0 p 2 q []) (rx_buf s) = ok r" by (auto simp: Let_def split_beta)
  obtain ts where ts: "woken_by (signals r) ((threads s)(Create_Ack := next_state r)) ts" using woken_by_exists by blast
  have late: "block_time v * 1000 < time_minus e (timestamp (slot (rx_buf s) 0))" using s(6) by (simp add: v_def)
  have head: "0 = head_pt_mod (rx_buf s)" using s(4) by (simp add: head_pt_mod_def)
  have "ts Write_Tun = Acquiring (Element 0) (D_Woken 0)"
    using blocked_head_times_out [OF s(1-3) head s(5) late info] s(4,7) r ts by force
  then show ?thesis using s(1,3,7) r ts by blast
qed

section \<open>Locks\<close>

text \<open>A receiving thread in \<open>EnqueuePkt\<close> has the queue while the acknowledging thread asks for it.\<close>

lemma contention:
  obtains s where "lock_reachable any_packet s" "threads s (Rcv 0) = Running (E_Test 1 1 [1])"
    "threads s Create_Ack = Acquiring Queue A_Test"
proof -
  fix v :: reads
  let ?s = "lock_init t0"
  have st: "stands ?s (Rcv 0) {} {}" by (rule idle_stands) (simp add: init_fields)
  have "solo any_packet v (Rcv 0) {} {} 1 (Acquiring Queue (E_Test 1 1 [1]), rx_buf ?s, got ?s)
      = Some (Running (E_Test 1 1 [1]), rx_buf ?s, got ?s)" by simp
  then obtain s1 where s1: "lock_reachable any_packet s1" "threads s1 = (threads ?s)(Rcv 0 := Running (E_Test 1 1 [1]))"
    using call_reaches [OF init_reachable st, of "E_Test 1 1 [1]" any_packet v 1] by (auto simp: init_fields)
  have "threads s1 Create_Ack = Running Idle" using s1(2) by (simp add: init_fields)
  from lock_reachable_step [OF s1(1) lock_step.call_op [OF this, of A_Test]] show thesis
    using that s1(2) by simp
qed

text \<open>
  C11: mutual exclusion. In every reachable state a lock belongs to a thread exactly when the thread is
  between the code's lock and unlock of it, so no two threads are, and every unlock and wait is made by
  the owner. The member \<open>owner\<close> of a slot names that thread, unless it has just been woken.
\<close>

theorem locks_follow_places:
  assumes "lock_reachable any_packet s"
  shows "(locks s l = Some t \<longleftrightarrow> l \<in> holding (threads s t))
    \<and> (threads s t = Running P \<and> Element i \<in> held P \<longrightarrow> P = D_Woken i \<or> owner s i = owner_of t)"
  using lock_reachable_owner [OF assms] by (auto simp: lock_inv_def owner_inv_def)

theorem locks_follow_places_witness:
  "\<exists>s. lock_reachable any_packet s \<and> threads s Create_Ack = Acquiring Queue A_Test \<and> locks s Queue = Some (Rcv 0)"
proof -
  obtain s where s: "lock_reachable any_packet s" "threads s (Rcv 0) = Running (E_Test 1 1 [1])"
    "threads s Create_Ack = Acquiring Queue A_Test" by (rule contention)
  show ?thesis using s locks_follow_places [OF s(1), of Queue "Rcv 0" "E_Test 1 1 [1]" 0] by auto
qed

text \<open>
  C12: no deadlock over locks. A thread that waits for a lock waits for a thread that runs or whose own
  lock is free, or for one that waits for such a thread: the queue is locked before a slot, and a
  thread that has a slot asks for no other lock.
\<close>

theorem lock_waits_end:
  assumes "lock_reachable any_packet s" "waits_for s t u"
  shows "can_go_on s u \<or> (\<exists>v. waits_for s u v \<and> can_go_on s v)"
  using waits_end [OF lock_reachable_inv [OF assms(1)] assms(2)] .

theorem lock_waits_end_witness:
  "\<exists>s. lock_reachable any_packet s \<and> waits_for s Create_Ack (Rcv 0)
    \<and> (can_go_on s (Rcv 0) \<or> (\<exists>v. waits_for s (Rcv 0) v \<and> can_go_on s v))"
proof -
  obtain s where s: "lock_reachable any_packet s" "threads s (Rcv 0) = Running (E_Test 1 1 [1])"
    "threads s Create_Ack = Acquiring Queue A_Test" by (rule contention)
  have "locks s Queue = Some (Rcv 0)" using lock_reachable_inv [OF s(1)] s(2) by (simp add: lock_inv_def)
  then have "waits_for s Create_Ack (Rcv 0)" using s(3) by (simp add: waits_for_def)
  then show ?thesis using s(1) lock_waits_end [OF s(1)] by blast
qed

section \<open>Sleeping threads\<close>

text \<open>
  C13: without a restart of the window no wake-up of a slot is lost: while the writing thread sleeps on
  a slot, it is the head's slot, still blocked, and the packet it waits for is not in the buffer.
\<close>

theorem slot_sleeper_misses_packet:
  assumes "lock_reachable (in_window sent) s" "threads s Write_Tun = Sleeping element_avail_cond (Element i) (D_Woken i)"
  shows "i = head_pt_mod (rx_buf s) \<and> bk_status (slot (rx_buf s) i) = kBlock \<and> \<not> holds (rx_buf s) (head_pt (rx_buf s) + 1)"
proof -
  have "blocked (rx_buf s) i" using lock_reachable_wait [OF assms(1)] assms(2) by (simp add: wait_inv_def)
  then show ?thesis using Seq2Ind_head [of "rx_buf s"] by (auto simp: blocked_def holds_def)
qed

theorem slot_sleeper_misses_packet_witness:
  "\<exists>s. lock_reachable (in_window byte_of) s \<and> threads s Write_Tun = Sleeping element_avail_cond (Element 0) (D_Woken 0)
    \<and> bk_status (slot (rx_buf s) 0) = kBlock \<and> \<not> holds (rx_buf s) (head_pt (rx_buf s) + 1)"
proof -
  obtain s where s: "lock_reachable (in_window byte_of) s"
    "threads s Write_Tun = Sleeping element_avail_cond (Element 0) (D_Woken 0)"
    by (rule writer_asleep) (simp add: asleep_on_slot_0_def)
  then show ?thesis using slot_sleeper_misses_packet [OF s] by blast
qed

text \<open>
  C14: the two threads that sleep on an empty queue share one condition without losing a wake-up: when
  one of them sleeps and the queue is not empty, the other one is awake at the place where it passes the
  signal on, or a restart of the window has not come to its signals yet. The packets are those of
  locked_delivery_in_order, restarts over undelivered packets included.
\<close>

theorem fill_signal_passed_on:
  assumes "lock_reachable (admissible stale sent) s" "\<not> IsEmpty (rx_buf s)"
  shows "(threads s Write_Tun = Sleeping fill_cond Queue D_Test
      \<longrightarrow> (place_of (threads s Create_Ack) = A_Woken \<and> \<not> sleeps_on fill_cond (threads s Create_Ack)) \<or> restart_pending s)
    \<and> (threads s Create_Ack = Sleeping fill_cond Queue A_Woken
      \<longrightarrow> (place_of (threads s Write_Tun) = D_Test \<and> \<not> sleeps_on fill_cond (threads s Write_Tun)) \<or> restart_pending s)"
  using lock_reachable_fill [of Write_Tun Create_Ack A_Woken, OF _ assms(1)]
    lock_reachable_fill [of Create_Ack Write_Tun D_Test, OF _ assms(1)] assms(2)
  by (auto simp: partners_def fill_ok_def)

text \<open>Both threads sleep, packet 1 arrives, and its signal wakes the acknowledging thread.\<close>

lemma both_asleep:
  obtains s where "lock_reachable (no_overrun byte_of) s" "rx_buf s = RxDataBuf t0"
    "threads s = (\<lambda>_. Running Idle)(Write_Tun := Sleeping fill_cond Queue D_Test, Create_Ack := Sleeping fill_cond Queue A_Woken)"
proof -
  fix w :: reads
  let ?s = "lock_init t0" and ?v = "w\<lparr>batch_acked := True\<rparr>" and ?C = "{fill_cond}"
  have st: "stands ?s Write_Tun {} ?C" by (simp add: stands_def init_fields)
  have "solo (no_overrun byte_of) ?v Write_Tun {} ?C 2 (Acquiring Queue D_Test, rx_buf ?s, got ?s)
      = Some (Sleeping fill_cond Queue D_Test, rx_buf ?s, got ?s)"
    by (simp add: eval_nat_numeral init_fields IsEmpty_def)
  then obtain s1 where s1: "lock_reachable (no_overrun byte_of) s1" "threads s1 = (threads ?s)(Write_Tun := Sleeping fill_cond Queue D_Test)"
    "rx_buf s1 = RxDataBuf t0" "got s1 = got ?s"
    using call_reaches [OF init_reachable st, of D_Test "no_overrun byte_of" ?v 2] by (auto simp: init_fields)
  have st1: "stands s1 Create_Ack {} ?C" using s1(2) by (simp add: stands_def init_fields)
  have "solo (no_overrun byte_of) ?v Create_Ack {} ?C 2 (Acquiring Queue A_Test, rx_buf s1, got s1)
      = Some (Sleeping fill_cond Queue A_Woken, rx_buf s1, got s1)"
    using s1(3) by (simp add: eval_nat_numeral IsEmpty_def)
  then obtain s2 where s2: "lock_reachable (no_overrun byte_of) s2" "threads s2 = (threads s1)(Create_Ack := Sleeping fill_cond Queue A_Woken)"
    "rx_buf s2 = rx_buf s1"
    using call_reaches [OF s1(1) st1, of A_Test ?v 2] s1(2) by (auto simp: init_fields)
  then show thesis using that s1(2,3) init_fields(1) by metis
qed

lemma acker_takes_signal:
  obtains s where "lock_reachable (no_overrun byte_of) s" "\<not> IsEmpty (rx_buf s)"
    "threads s Write_Tun = Sleeping fill_cond Queue D_Test" "threads s (Rcv 0) = Running Idle"
proof -
  fix v :: reads
  obtain s where s: "lock_reachable (no_overrun byte_of) s" "rx_buf s = RxDataBuf t0"
    "threads s = (\<lambda>_. Running Idle)(Write_Tun := Sleeping fill_cond Queue D_Test, Create_Ack := Sleeping fill_cond Queue A_Woken)"
    by (rule both_asleep)
  let ?b = "stored 1 1 (byte_of 1) (RxDataBuf t0)"
  note pkt = one_fits one_byte [of byte_of 1, OF byte_of_one]
  have st: "stands s (Rcv 0) {} {fill_cond}" "threads s (Rcv 0) = Running Idle" "entry_of (Rcv 0) (E_Test 1 1 (byte_of 1))"
    using s(3) by (simp_all add: stands_def)
  have adm: "no_overrun byte_of 1 1 (byte_of 1) (RxDataBuf t0)" using pkt by (simp add: admissible_def fitting_def overruns_def fresh_slots BUF_SIZE_def)
  have "solo (no_overrun byte_of) v (Rcv 0) {} {fill_cond} 5 (Acquiring Queue (E_Test 1 1 (byte_of 1)), rx_buf s, got s)
      = Some (Acquiring (Element (unat (tail_pt (RxDataBuf t0)) mod BUF_SIZE)) (E_Clear 1 (unat (tail_pt (RxDataBuf t0)))), ?b, got s)"
    unfolding s(2) by (rule solo_to_clear) (use adm pkt in \<open>simp_all add: IsFull_def BUF_SIZE_def fresh_slots\<close>)
  from solo_add [OF this, of 1] have "solo (no_overrun byte_of) v (Rcv 0) {} {fill_cond} (5 + 1) (Acquiring Queue (E_Test 1 1 (byte_of 1)), rx_buf s, got s)
      = Some (Running (E_Clear 1 0), ?b, got s)" by simp
  from call_reaches [OF s(1) st this] obtain s1 where
    s1: "lock_reachable (no_overrun byte_of) s1" "threads s1 = (threads s)(Rcv 0 := Running (E_Clear 1 0))" "rx_buf s1 = ?b" by blast
  let ?r = "\<lparr>next_state = Running Idle, new_buf = set_tail_pt 1 (clear_if_read 0 ?b), released = [Element (0 mod BUF_SIZE), Queue],
    signals = [fill_cond], returned = []\<rparr>"
  have r: "threads s1 (Rcv 0) = Running (E_Clear 1 0)" "segment v (Rcv 0) (E_Clear 1 0) (rx_buf s1) = ok ?r"
    "admits (no_overrun byte_of) (E_Clear 1 0) (rx_buf s1)"
    using s1(2,3) by simp_all
  let ?ts = "(threads s1)(Rcv 0 := next_state ?r)"
  have "woken_by (signals ?r) ?ts (?ts(Create_Ack := Acquiring Queue A_Woken))"
    using s1(2) s(3) by (auto intro!: woken_by.intros)
  from lock_reachable_step [OF s1(1) lock_step.run [OF r(1,3,2) this]] show thesis
    by (rule that) (use s1(2) s(3) in \<open>simp_all add: IsEmpty_def clear_if_read_def stored_fields clear_slot_def set_slot_def Let_def fresh_slots\<close>)
qed

theorem fill_signal_passed_on_witness:
  "\<exists>s. lock_reachable (no_overrun byte_of) s \<and> \<not> IsEmpty (rx_buf s) \<and> threads s Write_Tun = Sleeping fill_cond Queue D_Test
    \<and> ((place_of (threads s Create_Ack) = A_Woken \<and> \<not> sleeps_on fill_cond (threads s Create_Ack)) \<or> restart_pending s)"
proof -
  obtain s where s: "lock_reachable (no_overrun byte_of) s" "\<not> IsEmpty (rx_buf s)"
    "threads s Write_Tun = Sleeping fill_cond Queue D_Test" "threads s (Rcv 0) = Running Idle" by (rule acker_takes_signal)
  show ?thesis using fill_signal_passed_on [OF s(1,2)] s by blast
qed

text \<open>
  C17: a restart of the window loses the wake-up of the writing thread: it clears the slot without its
  lock and signals between the thread's unlock of the queue and its wait. The thread then sleeps while
  its packet is in the buffer, and no packet that arrives in order signals it before the buffer is
  full. The restart of these runs meets no undelivered packet: for every \<open>n < 5000\<close> there is a run that ends with \<open>n + 1\<close> deliverable packets in the buffer, the
  writing thread asleep and every other thread idle.
\<close>

theorem restart_loses_wakeup:
  assumes "n < 5000"
  shows "\<exists>s. lock_reachable (no_overrun byte_of) s
    \<and> threads s = (\<lambda>_. Running Idle)(Write_Tun := Sleeping element_avail_cond (Element 0) (D_Woken 0))
    \<and> (\<forall>i\<le>n. holds (rx_buf s) (head_pt (rx_buf s) + 1 + word_of_nat i))"
proof -
  obtain s where s: "lock_reachable (no_overrun byte_of) s" "threads s = asleep_on_slot_0" "head_pt (rx_buf s) = 5002"
    "\<forall>i\<le>n. holds (rx_buf s) (word_of_nat (5003 + i))"
    using sleeps_while_filling [of byte_of n, OF byte_of_one] assms by (auto simp: BUF_SIZE_def)
  then have "\<forall>i\<le>n. holds (rx_buf s) (head_pt (rx_buf s) + 1 + word_of_nat i)" by simp
  then show ?thesis using s(1,2) unfolding asleep_on_slot_0_def by blast
qed

theorem restart_loses_wakeup_witness:
  "\<exists>s. lock_reachable (no_overrun byte_of) s \<and> threads s Write_Tun = Sleeping element_avail_cond (Element 0) (D_Woken 0)
    \<and> holds (rx_buf s) (head_pt (rx_buf s) + 1)"
proof -
  obtain s where s: "lock_reachable (no_overrun byte_of) s"
    "threads s = (\<lambda>_. Running Idle)(Write_Tun := Sleeping element_avail_cond (Element 0) (D_Woken 0))"
    "\<forall>i\<le>4999. holds (rx_buf s) (head_pt (rx_buf s) + 1 + word_of_nat i)"
    using restart_loses_wakeup [of 4999] by auto
  have "holds (rx_buf s) (head_pt (rx_buf s) + 1 + word_of_nat 0)" using s(3) by blast
  then show ?thesis using s(1,2) by auto
qed

end
