(* ===== verification/Monitor.thy ===== *)
theory Monitor
  imports Prelude
begin

text \<open>
  Objects with one mutex and at most one condition variable, as \<open>RxRawBuf\<close>, \<open>BatchInfo\<close>
  (\<open>src/wspace_asym_util.h\<close>), \<open>OriginalSeqContext\<close> and \<open>BaseStationContext\<close>
  (\<open>src/wspace_client_scout.h\<close>) are. A step is one statement of one thread, so that the calls of
  several threads interleave at every access to a member. The locale \<open>monitor\<close> states what a proof
  outline of the calls has to give; its lemmas show that the calls are then atomic.
\<close>

section \<open>Statements and steps\<close>

text \<open>
  What a statement at a place does: go on with a changed object, signal the condition, wait on it
  (releasing the lock), unlock and return, or end the process.
\<close>

datatype ('p, 'o, 'r) statement = Go 'p 'o | Signal 'p | Wait 'p | Leave 'r | Fail abort

text \<open>What a thread does: nothing with the object, wait for the lock, run with it, or sleep.\<close>

datatype ('c, 'p) activity = Outside | Entering 'c 'p | Inside 'c 'p | Asleep 'c 'p

text \<open>\<open>completed\<close> are the calls that have returned, in the order of their unlock.\<close>

record ('t, 'c, 'p, 'o, 'r) monitor =
  object :: 'o
  holder :: "'t option"
  activity :: "'t \<Rightarrow> ('c, 'p) activity"
  completed :: "('t \<times> 'c \<times> 'r) list"

definition monitor_init :: "'o \<Rightarrow> ('t, 'c, 'p, 'o, 'r) monitor" where
  "monitor_init x = \<lparr>object = x, holder = None, activity = (\<lambda>_. Outside), completed = []\<rparr>"

text \<open>
  \<open>stmt\<close> is the code, \<open>start\<close> the place of a call behind its \<open>Lock()\<close>, \<open>may\<close> says which thread makes
  which calls. That only the holder of the lock runs is not assumed. A sleeping thread may wake
  without a signal.
\<close>

inductive monitor_step ::
  "('p \<Rightarrow> 'o \<Rightarrow> ('p, 'o, 'r) statement) \<Rightarrow> ('c \<Rightarrow> 'p) \<Rightarrow> ('t \<Rightarrow> 'c \<Rightarrow> bool) \<Rightarrow>
   ('t, 'c, 'p, 'o, 'r) monitor \<Rightarrow> ('t, 'c, 'p, 'o, 'r) monitor \<Rightarrow> bool" for stmt start may where
  call: "activity s t = Outside \<Longrightarrow> may t c
      \<Longrightarrow> monitor_step stmt start may s (s\<lparr>activity := (activity s)(t := Entering c (start c))\<rparr>)"
| lock: "activity s t = Entering c p \<Longrightarrow> holder s = None
      \<Longrightarrow> monitor_step stmt start may s (s\<lparr>holder := Some t, activity := (activity s)(t := Inside c p)\<rparr>)"
| go: "activity s t = Inside c p \<Longrightarrow> stmt p (object s) = Go p' x
      \<Longrightarrow> monitor_step stmt start may s (s\<lparr>object := x, activity := (activity s)(t := Inside c p')\<rparr>)"
| signal_lost: "activity s t = Inside c p \<Longrightarrow> stmt p (object s) = Signal p' \<Longrightarrow> \<forall>u d q. activity s u \<noteq> Asleep d q
      \<Longrightarrow> monitor_step stmt start may s (s\<lparr>activity := (activity s)(t := Inside c p')\<rparr>)"
| signal_wakes: "activity s t = Inside c p \<Longrightarrow> stmt p (object s) = Signal p' \<Longrightarrow> activity s u = Asleep d q
      \<Longrightarrow> monitor_step stmt start may s (s\<lparr>activity := (activity s)(t := Inside c p', u := Entering d q)\<rparr>)"
| wait: "activity s t = Inside c p \<Longrightarrow> stmt p (object s) = Wait p'
      \<Longrightarrow> monitor_step stmt start may s (s\<lparr>holder := None, activity := (activity s)(t := Asleep c p')\<rparr>)"
| leave: "activity s t = Inside c p \<Longrightarrow> stmt p (object s) = Leave r
      \<Longrightarrow> monitor_step stmt start may s (s\<lparr>holder := None, activity := (activity s)(t := Outside),
            completed := completed s @ [(t, c, r)]\<rparr>)"
| spurious: "activity s t = Asleep c p
      \<Longrightarrow> monitor_step stmt start may s (s\<lparr>activity := (activity s)(t := Entering c p)\<rparr>)"

definition monitor_reachable ::
  "('p \<Rightarrow> 'o \<Rightarrow> ('p, 'o, 'r) statement) \<Rightarrow> ('c \<Rightarrow> 'p) \<Rightarrow> ('t \<Rightarrow> 'c \<Rightarrow> bool) \<Rightarrow> 'o \<Rightarrow>
   ('t, 'c, 'p, 'o, 'r) monitor \<Rightarrow> bool" where
  "monitor_reachable stmt start may x s \<longleftrightarrow> (monitor_step stmt start may)\<^sup>*\<^sup>* (monitor_init x) s"

lemma monitor_reachable_induct:
  assumes "monitor_reachable stmt start may x s" "I (monitor_init x)"
    "\<And>s s'. monitor_reachable stmt start may x s \<Longrightarrow> I s \<Longrightarrow> monitor_step stmt start may s s' \<Longrightarrow> I s'"
  shows "I s"
  using assms(1) unfolding monitor_reachable_def
  by (induction rule: rtranclp_induct) (auto intro: assms(2,3) simp: monitor_reachable_def)

lemma monitor_reachable_init: "monitor_reachable stmt start may x (monitor_init x)"
  by (simp add: monitor_reachable_def)

lemma monitor_reachable_step:
  "monitor_reachable stmt start may x s \<Longrightarrow> monitor_step stmt start may s s' \<Longrightarrow> monitor_reachable stmt start may x s'"
  unfolding monitor_reachable_def by (rule rtranclp.rtrancl_into_rtrancl)

section \<open>Sequential runs\<close>

text \<open>The object after a list of calls one after the other, if each has its recorded result; \<open>None\<close> of
  \<open>op\<close> is a call that waits or ends the process.\<close>

fun replay :: "('c \<Rightarrow> 'o \<Rightarrow> ('r \<times> 'o) option) \<Rightarrow> ('t \<times> 'c \<times> 'r) list \<Rightarrow> 'o \<Rightarrow> 'o option" where
  "replay op [] x = Some x"
| "replay op ((t, c, r) # es) x =
     (case op c x of None \<Rightarrow> None | Some (r', y) \<Rightarrow> if r' = r then replay op es y else None)"

lemma replay_append: "replay op (es @ fs) x = Option.bind (replay op es x) (replay op fs)"
  by (induction op es x rule: replay.induct) (auto split: option.splits)

lemma replay_snoc:
  "replay op es x = Some y \<Longrightarrow> op c y = Some (r, z) \<Longrightarrow> replay op (es @ [(t, c, r)]) x = Some z"
  by (simp add: replay_append)

lemma replay_split:
  "replay op (es @ (t, c, r) # fs) x = Some z
    \<Longrightarrow> \<exists>y y'. replay op es x = Some y \<and> op c y = Some (r, y') \<and> replay op fs y' = Some z"
  by (auto simp: replay_append bind_eq_Some_conv split: option.splits if_splits)

text \<open>The calls of a log.\<close>

definition calls_made :: "('t \<times> 'c \<times> 'r) list \<Rightarrow> 'c list" where
  "calls_made log = map (\<lambda>(t, c, r). c) log"

lemma calls_made_simps [simp]: "calls_made [] = []" "calls_made ((t, c, r) # log) = c # calls_made log"
  by (simp_all add: calls_made_def)

section \<open>Proof outlines\<close>

text \<open>
  \<open>at c x p y\<close>: a call \<open>c\<close> that found the object as \<open>x\<close> has left it as \<open>y\<close> when it is at \<open>p\<close>. A
  provider shows that its statements keep this, that a return has the effect of \<open>op\<close>, and that a
  call waits only before it changed anything and when \<open>op\<close> says so.
\<close>

locale monitor =
  fixes stmt :: "'p \<Rightarrow> 'o \<Rightarrow> ('p, 'o, 'r) statement"
    and start :: "'c \<Rightarrow> 'p"
    and may :: "'t \<Rightarrow> 'c \<Rightarrow> bool"
    and op :: "'c \<Rightarrow> 'o \<Rightarrow> ('r \<times> 'o) option"
    and at :: "'c \<Rightarrow> 'o \<Rightarrow> 'p \<Rightarrow> 'o \<Rightarrow> bool"
  assumes at_start: "may t c \<Longrightarrow> at c x (start c) x"
    and at_go: "at c x p y \<Longrightarrow> stmt p y = Go p' y' \<Longrightarrow> at c x p' y'"
    and at_signal: "at c x p y \<Longrightarrow> stmt p y = Signal p' \<Longrightarrow> at c x p' y"
    and at_wait: "at c x p y \<Longrightarrow> stmt p y = Wait p' \<Longrightarrow> p' = start c \<and> y = x \<and> op c x = None"
    and at_leave: "at c x p y \<Longrightarrow> stmt p y = Leave r \<Longrightarrow> op c x = Some (r, y)"
begin

text \<open>
  The object is what the completed calls made of it one after the other, up to the part of the call
  whose thread has the lock (\<open>fits\<close>: what a thread is doing agrees with the lock and the outline).
\<close>

definition fits :: "'o \<Rightarrow> 'o \<Rightarrow> 't option \<Rightarrow> 't \<Rightarrow> ('c, 'p) activity \<Rightarrow> bool" where
  "fits x y h t a = (case a of
     Outside \<Rightarrow> h \<noteq> Some t
   | Inside c p \<Rightarrow> h = Some t \<and> may t c \<and> at c x p y
   | Entering c p \<Rightarrow> h \<noteq> Some t \<and> may t c \<and> p = start c
   | Asleep c p \<Rightarrow> h \<noteq> Some t \<and> may t c \<and> p = start c)"

definition atomic :: "'o \<Rightarrow> ('t, 'c, 'p, 'o, 'r) monitor \<Rightarrow> 'o \<Rightarrow> bool" where
  "atomic x0 s x \<longleftrightarrow> replay op (completed s) x0 = Some x \<and> (holder s = None \<longrightarrow> object s = x)
     \<and> (\<forall>t. fits x (object s) (holder s) t (activity s t))"

lemma atomic_fits: "atomic x0 s x \<Longrightarrow> activity s t = a \<Longrightarrow> fits x (object s) (holder s) t a"
  by (auto simp: atomic_def)

text \<open>What another thread is doing fits whatever object the holder of the lock leaves behind.\<close>

lemma fits_other: "fits x y h t a \<Longrightarrow> h = Some u \<Longrightarrow> t \<noteq> u \<Longrightarrow> h' = None \<or> h' = Some u \<Longrightarrow> fits x' y' h' t a"
  by (auto simp: fits_def split: activity.splits)

lemma fits_unlocked: "fits x y None t a \<Longrightarrow> h' \<noteq> Some t \<Longrightarrow> fits x' y' h' t a"
  by (auto simp: fits_def split: activity.splits)

lemma atomic_moves:
  assumes inv: "atomic x0 s x" and inside: "activity s t = Inside c p" and p': "at c x p' y"
  shows "atomic x0 (s\<lparr>object := y, activity := (activity s)(t := Inside c p')\<rparr>) x"
proof -
  have t: "holder s = Some t" "may t c" using atomic_fits [OF inv inside] by (auto simp: fits_def)
  have "fits x y (Some t) u (if u = t then Inside c p' else activity s u)" for u
    using fits_other [OF atomic_fits [OF inv refl]] t p' by (auto simp: fits_def)
  then show ?thesis using inv t by (simp add: atomic_def)
qed

lemma atomic_step:
  assumes inv: "atomic x0 s x" and step: "monitor_step stmt start may s s'"
  shows "\<exists>x'. atomic x0 s' x'"
  using step
proof cases
  case (call t c)
  have "holder s \<noteq> Some t" using atomic_fits [OF inv call(2)] by (simp add: fits_def)
  then have "fits x (object s) (holder s) u (if u = t then Entering c (start c) else activity s u)" for u
    using call(3) atomic_fits [OF inv refl, of u] by (simp add: fits_def)
  then have "atomic x0 s' x" using inv call(1) by (simp add: atomic_def)
  then show ?thesis ..
next
  case (lock t c p)
  have t: "may t c" "p = start c" using atomic_fits [OF inv lock(2)] by (simp_all add: fits_def)
  have x: "object s = x" using inv lock(3) by (simp add: atomic_def)
  have "fits x x (Some t) u (if u = t then Inside c p else activity s u)" for u
    using fits_unlocked [of x x u "activity s u" "Some t"] atomic_fits [OF inv refl, of u] t at_start [OF t(1), of x] x lock(3)
    by (auto simp: fits_def)
  then have "atomic x0 s' x" using inv lock(1) x by (simp add: atomic_def)
  then show ?thesis ..
next
  case (go t c p p' y)
  have "at c x p (object s)" using atomic_fits [OF inv go(2)] by (simp add: fits_def)
  from atomic_moves [OF inv go(2) at_go [OF this go(3)]] show ?thesis unfolding go(1) ..
next
  case (signal_lost t c p p')
  have "at c x p (object s)" using atomic_fits [OF inv signal_lost(2)] by (simp add: fits_def)
  from atomic_moves [OF inv signal_lost(2) at_signal [OF this signal_lost(3)]] show ?thesis
    unfolding signal_lost(1) by (intro exI [of _ x]) simp
next
  case (signal_wakes t c p p' u d q)
  have "at c x p (object s)" using atomic_fits [OF inv signal_wakes(2)] by (simp add: fits_def)
  note moved = atomic_moves [OF inv signal_wakes(2) at_signal [OF this signal_wakes(3)]]
  have "u \<noteq> t" using signal_wakes by auto
  then have "fits x (object s) (holder s) u (Entering d q)"
    using atomic_fits [OF inv signal_wakes(4)] by (simp add: fits_def)
  then have "atomic x0 s' x" using moved unfolding signal_wakes(1) by (simp add: atomic_def)
  then show ?thesis ..
next
  case (wait t c p p')
  have t: "holder s = Some t" "may t c" "at c x p (object s)" using atomic_fits [OF inv wait(2)] by (simp_all add: fits_def)
  have p': "p' = start c" "object s = x" using at_wait [OF t(3) wait(3)] by simp_all
  have "fits x x None u (if u = t then Asleep c (start c) else activity s u)" for u
    using fits_other [OF atomic_fits [OF inv refl, of u] t(1), of None] t by (auto simp: fits_def)
  then have "atomic x0 s' x" using inv wait(1) p' by (simp add: atomic_def)
  then show ?thesis ..
next
  case (leave t c p r)
  have t: "holder s = Some t" "at c x p (object s)" using atomic_fits [OF inv leave(2)] by (simp_all add: fits_def)
  have "replay op (completed s @ [(t, c, r)]) x0 = Some (object s)"
    using at_leave [OF t(2) leave(3)] inv by (intro replay_snoc [where y = x]) (simp_all add: atomic_def)
  moreover have "fits (object s) (object s) None u (if u = t then Outside else activity s u)" for u
    using fits_other [OF atomic_fits [OF inv refl, of u] t(1), of None] by (auto simp: fits_def)
  ultimately have "atomic x0 s' (object s)" using leave(1) by (simp add: atomic_def)
  then show ?thesis ..
next
  case (spurious t c p)
  have "fits x (object s) (holder s) t (Entering c p)" using atomic_fits [OF inv spurious(2)] by (simp add: fits_def)
  then have "atomic x0 s' x" using inv spurious(1) by (simp add: atomic_def)
  then show ?thesis ..
qed

lemma reachable_atomic:
  assumes "monitor_reachable stmt start may x0 s" shows "\<exists>x. atomic x0 s x"
  using assms
proof (rule monitor_reachable_induct)
  show "\<exists>x. atomic x0 (monitor_init x0) x" by (intro exI [of _ x0]) (simp add: atomic_def monitor_init_def fits_def)
qed (use atomic_step in blast)

text \<open>The consequences: mutual exclusion, and the calls are those of a sequential run.\<close>

lemma reachable_fits:
  assumes "monitor_reachable stmt start may x0 s"
  obtains x where "replay op (completed s) x0 = Some x" "holder s = None \<Longrightarrow> object s = x"
    "\<And>t. fits x (object s) (holder s) t (activity s t)"
  using reachable_atomic [OF assms] by (auto simp: atomic_def)

lemma inside_holds:
  assumes "monitor_reachable stmt start may x0 s" "activity s t = Inside c p"
  shows "holder s = Some t"
proof -
  obtain x where "\<And>t. fits x (object s) (holder s) t (activity s t)" using assms(1) by (rule reachable_fits) blast
  from this [of t] show ?thesis by (simp add: assms(2) fits_def)
qed

lemma holder_inside:
  assumes "monitor_reachable stmt start may x0 s" "holder s = Some t"
  shows "\<exists>c p. activity s t = Inside c p"
proof -
  obtain x where "\<And>t. fits x (object s) (holder s) t (activity s t)" using assms(1) by (rule reachable_fits) blast
  from this [of t] show ?thesis using assms(2) by (cases "activity s t") (auto simp: fits_def)
qed

lemma completed_may:
  assumes "monitor_reachable stmt start may x0 s" "(t, c, r) \<in> set (completed s)"
  shows "may t c"
proof -
  have "\<forall>(t, c, r) \<in> set (completed s). may t c"
    using assms(1)
  proof (rule monitor_reachable_induct)
    show "\<forall>(t, c, r) \<in> set (completed (monitor_init x0)). may t c" by (simp add: monitor_init_def)
    fix s s'
    assume reach: "monitor_reachable stmt start may x0 s" and old: "\<forall>(t, c, r) \<in> set (completed s). may t c"
      and step: "monitor_step stmt start may s s'"
    show "\<forall>(t, c, r) \<in> set (completed s'). may t c"
      using step
    proof cases
      case (leave t c p r)
      obtain x where "atomic x0 s x" using reachable_atomic [OF reach] by blast
      from atomic_fits [OF this leave(2)] have "may t c" by (simp add: fits_def)
      then show ?thesis using old leave(1) by simp
    qed (use old in simp_all)
  qed
  then show ?thesis using assms(2) by blast
qed

end

section \<open>Calls end\<close>

text \<open>
  With a variant of the statements, a thread that has the lock gives it back, unless it ends the
  process (\<open>fails\<close>).
\<close>

locale monitor_ends = monitor stmt start may op at
  for stmt :: "'p \<Rightarrow> 'o \<Rightarrow> ('p, 'o, 'r) statement" and start :: "'c \<Rightarrow> 'p" and may :: "'t \<Rightarrow> 'c \<Rightarrow> bool"
    and op :: "'c \<Rightarrow> 'o \<Rightarrow> ('r \<times> 'o) option" and at :: "'c \<Rightarrow> 'o \<Rightarrow> 'p \<Rightarrow> 'o \<Rightarrow> bool" +
  fixes variant :: "'p \<Rightarrow> 'o \<Rightarrow> nat"
  assumes go_less: "stmt p y = Go p' y' \<Longrightarrow> variant p' y' < variant p y"
    and signal_less: "stmt p y = Signal p' \<Longrightarrow> variant p' y < variant p y"
    and at_fail: "at c x p y \<Longrightarrow> stmt p y = Fail a \<Longrightarrow> op c x = None"
begin

abbreviation steps where "steps \<equiv> (monitor_step stmt start may)\<^sup>*\<^sup>*"

lemma steps_first: "monitor_step stmt start may s s1 \<Longrightarrow> steps s1 s' \<Longrightarrow> steps s s'"
  by (rule converse_rtranclp_into_rtranclp)

text \<open>What the thread that has the lock does when it runs on alone.\<close>

definition ends_as ::
  "'c \<Rightarrow> 'o \<Rightarrow> 't \<Rightarrow> ('t, 'c, 'p, 'o, 'r) monitor \<Rightarrow> ('t, 'c, 'p, 'o, 'r) monitor \<Rightarrow> bool" where
  "ends_as c x t s s' \<longleftrightarrow> holder s' = None \<and> (\<forall>u. activity s u = Outside \<longrightarrow> activity s' u = Outside)
    \<and> (case op c x of
         Some (r, y) \<Rightarrow> completed s' = completed s @ [(t, c, r)] \<and> object s' = y \<and> activity s' t = Outside
       | None \<Rightarrow> completed s' = completed s \<and> object s' = x)"

definition fails :: "('t, 'c, 'p, 'o, 'r) monitor \<Rightarrow> bool" where
  "fails s \<longleftrightarrow> (\<exists>t c p a. activity s t = Inside c p \<and> stmt p (object s) = Fail a)"

lemma ends_as_from: "ends_as c x t s1 s' \<Longrightarrow> completed s1 = completed s
    \<Longrightarrow> (\<And>u. activity s u = Outside \<Longrightarrow> activity s1 u = Outside) \<Longrightarrow> ends_as c x t s s'"
  by (auto simp: ends_as_def split: option.splits)

lemma runs_out:
  assumes "activity s t = Inside c p" "at c x p (object s)"
  shows "\<exists>s'. steps s s' \<and> (ends_as c x t s s' \<or> fails s' \<and> op c x = None)"
  using assms
proof (induction "variant p (object s)" arbitrary: s p rule: less_induct)
  case less
  show ?case
  proof (cases "stmt p (object s)")
    case (Go p' y)
    let ?s = "s\<lparr>object := y, activity := (activity s)(t := Inside c p')\<rparr>"
    have step: "monitor_step stmt start may s ?s" using less.prems(1) Go by (rule monitor_step.go)
    have "at c x p' (object ?s)" using at_go [OF less.prems(2) Go] by simp
    moreover have "variant p' (object ?s) < variant p (object s)" using go_less [OF Go] by simp
    ultimately obtain s' where "steps ?s s'" "ends_as c x t ?s s' \<or> fails s' \<and> op c x = None"
      using less.hyps [of p' ?s] by auto
    moreover have "ends_as c x t s s'" if "ends_as c x t ?s s'"
      using that by (rule ends_as_from) (use less.prems(1) in auto)
    ultimately show ?thesis using steps_first [OF step] by blast
  next
    case (Signal p')
    obtain s1 where s1: "monitor_step stmt start may s s1" "activity s1 t = Inside c p'" "object s1 = object s" "completed s1 = completed s"
      "\<And>u. activity s u = Outside \<Longrightarrow> activity s1 u = Outside"
    proof (cases "\<exists>u d q. activity s u = Asleep d q")
      case True
      then obtain u d q where u: "activity s u = Asleep d q" by blast
      then have "u \<noteq> t" using less.prems(1) by auto
      have "monitor_step stmt start may s (s\<lparr>activity := (activity s)(t := Inside c p', u := Entering d q)\<rparr>)"
        using less.prems(1) Signal u by (rule monitor_step.signal_wakes)
      then show ?thesis by (rule that) (use \<open>u \<noteq> t\<close> u less.prems(1) in auto)
    next
      case False
      then have "\<forall>u d q. activity s u \<noteq> Asleep d q" by blast
      with less.prems(1) Signal have "monitor_step stmt start may s (s\<lparr>activity := (activity s)(t := Inside c p')\<rparr>)"
        by (rule monitor_step.signal_lost)
      then show ?thesis by (rule that) (use less.prems(1) in auto)
    qed
    have "at c x p' (object s1)" using at_signal [OF less.prems(2) Signal] s1(3) by simp
    moreover have "variant p' (object s1) < variant p (object s)" using signal_less [OF Signal] s1(3) by simp
    ultimately obtain s' where "steps s1 s'" "ends_as c x t s1 s' \<or> fails s' \<and> op c x = None"
      using less.hyps [of p' s1] s1(2) by auto
    moreover have "ends_as c x t s s'" if "ends_as c x t s1 s'" using that s1(4,5) by (rule ends_as_from)
    ultimately show ?thesis using steps_first [OF s1(1)] by blast
  next
    case (Wait p')
    have "steps s (s\<lparr>holder := None, activity := (activity s)(t := Asleep c p')\<rparr>)"
      by (rule r_into_rtranclp, rule monitor_step.wait) (fact less.prems(1) Wait)+
    then show ?thesis using at_wait [OF less.prems(2) Wait] less.prems(1)
      by (intro exI conjI) (assumption, auto simp: ends_as_def)
  next
    case (Leave r)
    have "steps s (s\<lparr>holder := None, activity := (activity s)(t := Outside), completed := completed s @ [(t, c, r)]\<rparr>)"
      by (rule r_into_rtranclp, rule monitor_step.leave) (fact less.prems(1) Leave)+
    then show ?thesis using at_leave [OF less.prems(2) Leave] by (intro exI conjI) (assumption, simp add: ends_as_def)
  next
    case (Fail a)
    then show ?thesis using at_fail [OF less.prems(2)] less.prems(1) by (intro exI [of _ s]) (auto simp: fails_def)
  qed
qed

lemma lock_comes_free:
  assumes "monitor_reachable stmt start may x0 s" shows "\<exists>s'. steps s s' \<and> (holder s' = None \<or> fails s')"
proof (cases "holder s")
  case (Some t)
  obtain c p where inside: "activity s t = Inside c p" using holder_inside [OF assms Some] by blast
  obtain x where "\<And>t. fits x (object s) (holder s) t (activity s t)" using assms by (rule reachable_fits) blast
  from this [of t] have "at c x p (object s)" by (simp add: inside fits_def)
  from runs_out [OF inside this] show ?thesis by (auto simp: ends_as_def)
qed blast

lemma call_returns:
  assumes "monitor_reachable stmt start may x0 s" "holder s = None" "activity s t = Entering c p" "op c (object s) = Some (r, y)"
  shows "\<exists>s'. steps s s' \<and> holder s' = None \<and> completed s' = completed s @ [(t, c, r)] \<and> object s' = y
    \<and> activity s' t = Outside \<and> (\<forall>u. activity s u = Outside \<longrightarrow> activity s' u = Outside)"
proof -
  let ?s = "s\<lparr>holder := Some t, activity := (activity s)(t := Inside c p)\<rparr>"
  have step: "monitor_step stmt start may s ?s" using assms(3,2) by (rule monitor_step.lock)
  obtain x where "\<And>t. fits x (object s) (holder s) t (activity s t)" using assms(1) by (rule reachable_fits) blast
  from this [of t] have "may t c" "p = start c" by (simp_all add: assms(3) fits_def)
  then have "at c (object s) p (object ?s)" using at_start by simp
  with runs_out [of ?s t c p "object s"] obtain s' where "steps ?s s'" "ends_as c (object s) t ?s s'"
    using assms(4) by auto
  have "ends_as c (object s) t s s'"
    using \<open>ends_as c (object s) t ?s s'\<close> by (rule ends_as_from) (use assms(3) in auto)
  moreover have "steps s s'" using steps_first [OF step] \<open>steps ?s s'\<close> .
  ultimately show ?thesis using assms(4) by (auto simp: ends_as_def)
qed

text \<open>A thread that is outside can make a call that does not wait, and only that.\<close>

lemma call_possible:
  assumes reach: "monitor_reachable stmt start may x0 s" and idle: "holder s = None" "activity s t = Outside"
    and c: "may t c" "op c (object s) = Some (r, y)"
  shows "\<exists>s'. monitor_reachable stmt start may x0 s' \<and> holder s' = None \<and> completed s' = completed s @ [(t, c, r)]
    \<and> object s' = y \<and> (\<forall>u. activity s u = Outside \<longrightarrow> activity s' u = Outside)"
proof -
  let ?s = "s\<lparr>activity := (activity s)(t := Entering c (start c))\<rparr>"
  have "monitor_reachable stmt start may x0 ?s"
    using reach by (rule monitor_reachable_step) (rule monitor_step.call, fact idle(2), fact c(1))
  note reach' = this
  obtain s' where s': "steps ?s s'" "holder s' = None" "completed s' = completed s @ [(t, c, r)]" "object s' = y"
    "activity s' t = Outside" "\<forall>u. activity ?s u = Outside \<longrightarrow> activity s' u = Outside"
    using call_returns [OF reach', of t c "start c" r y] idle(1) c(2) by auto
  have "activity s' u = Outside" if "activity s u = Outside" for u
    using that s'(5,6) by (cases "u = t") auto
  moreover have "monitor_reachable stmt start may x0 s'"
    using reach' s'(1) by (simp add: monitor_reachable_def)
  ultimately show ?thesis using s'(2-4) by blast
qed

end

end
