(* ===== verification/Raw_Locks.thy ===== *)
theory Raw_Locks
  imports Raw_Buf Monitor
begin

text \<open>
  \<open>RxRawBuf\<close> with its lock and its condition \<open>fill_cond_\<close>: \<open>PushPkts\<close> and \<open>PopPktStatus\<close> of
  \<open>src/wspace_asym_util.cc\<close> statement by statement, run by \<open>RxRcvAth\<close> and \<open>RxCreateRawAck\<close>. The
  interpretation of \<open>monitor\<close> shows that the calls are atomic with the effect \<open>Raw_Buf\<close> gives them;
  the last section that the acknowledging thread does not miss a packet.
\<close>

section \<open>The statements\<close>

datatype raw_place =
    Push_Test u32 bool
  | Push_Room u32 bool
  | Push_Gap u32 bool u32
  | Push_Count u32 bool
  | Push_Clear u32 bool
  | Push_One u32 bool
  | Push_Bad u32 bool
  | Push_End u32
  | Push_Signal
  | Push_Unlock bool
  | Pop_Test u32
  | Pop_Good
  | Pop_Collect u32 "u32 list" nat
  | Pop_Prefix u32 "u32 list" nat
  | Pop_Erase u32 "u32 list" nat
  | Pop_Num u32 "u32 list"
  | Pop_Reset u32 "u32 list" u16
  | Pop_Unlock u32 "u32 list" u16

datatype raw_result = Pushed bool | Popped "u32 list" u32 u16

text \<open>
  \<open>Push_Gap\<close> has the counter of the loop over the holes, \<open>Pop_Collect\<close> and \<open>Pop_Prefix\<close> the
  iterator of the two loops over the deque.
\<close>

fun raw_statement :: "raw_place \<Rightarrow> raw_buf \<Rightarrow> (raw_place, raw_buf, raw_result) statement" where
  "raw_statement (Push_Test cur good) b =
     (if cur \<le> rb_end_seq b then Go (Push_Unlock False) b else Go (Push_Room cur good) b)"
| "raw_statement (Push_Room cur good) b =
     (if cur - rb_end_seq b \<le> kMaxBufSize - pkt_cnt b then Go (Push_Gap cur good (rb_end_seq b + 1)) b
      else Go (Push_Clear cur good) b)"
| "raw_statement (Push_Gap cur good i) b =
     (if i < cur then Go (Push_Gap cur good (i + 1)) (b\<lparr>nack_deq := nack_deq b @ [\<lparr>rs_seq = i, send_cnt = 0\<rparr>]\<rparr>)
      else Go (Push_Count cur good) b)"
| "raw_statement (Push_Count cur good) b = Go (Push_Bad cur good) (b\<lparr>pkt_cnt := pkt_cnt b + (cur - rb_end_seq b)\<rparr>)"
| "raw_statement (Push_Clear cur good) b = Go (Push_One cur good) (b\<lparr>nack_deq := []\<rparr>)"
| "raw_statement (Push_One cur good) b = Go (Push_Bad cur good) (b\<lparr>pkt_cnt := 1\<rparr>)"
| "raw_statement (Push_Bad cur good) b =
     Go (Push_End cur) (if \<not> good then b\<lparr>nack_deq := nack_deq b @ [\<lparr>rs_seq = cur, send_cnt = 0\<rparr>]\<rparr> else b)"
| "raw_statement (Push_End cur) b = Go Push_Signal (b\<lparr>rb_end_seq := cur\<rparr>)"
| "raw_statement Push_Signal b = Signal (Push_Unlock True)"
| "raw_statement (Push_Unlock r) b = Leave (Pushed r)"
| "raw_statement (Pop_Test m) b = (if pkt_cnt b < m then Wait (Pop_Test m) else Go Pop_Good b)"
| "raw_statement Pop_Good b = Go (Pop_Collect (rb_end_seq b) [] 0) b"
| "raw_statement (Pop_Collect good v j) b =
     (if j < length (nack_deq b)
      then Go (Pop_Collect good (v @ [rs_seq (nack_deq b ! j)]) (j + 1))
             (b\<lparr>nack_deq := (nack_deq b)[j := count_send (nack_deq b ! j)]\<rparr>)
      else Go (Pop_Prefix good v 0) b)"
| "raw_statement (Pop_Prefix good v j) b =
     (if j < length (nack_deq b) \<and> send_cnt (nack_deq b ! j) = max_send_cnt b then Go (Pop_Prefix good v (j + 1)) b
      else Go (Pop_Erase good v j) b)"
| "raw_statement (Pop_Erase good v j) b = Go (Pop_Num good v) (b\<lparr>nack_deq := drop j (nack_deq b)\<rparr>)"
| "raw_statement (Pop_Num good v) b = Go (Pop_Reset good v (ucast (pkt_cnt b))) b"
| "raw_statement (Pop_Reset good v n) b = Go (Pop_Unlock good v n) (b\<lparr>pkt_cnt := 0\<rparr>)"
| "raw_statement (Pop_Unlock good v n) b = Leave (Popped v good n)"

text \<open>The threads of a radio and the calls they make (\<open>min_pkt_cnt\<close> is an argument of \<open>Pop_Event\<close>).\<close>

datatype raw_thread = Raw_Rcv | Raw_Ack

fun raw_may :: "raw_thread \<Rightarrow> raw_event \<Rightarrow> bool" where
  "raw_may Raw_Rcv (Push_Event s good) \<longleftrightarrow> True"
| "raw_may Raw_Ack (Pop_Event m) \<longleftrightarrow> True"
| "raw_may t c \<longleftrightarrow> False"

fun raw_start :: "raw_event \<Rightarrow> raw_place" where
  "raw_start (Push_Event s good) = Push_Test s good"
| "raw_start (Pop_Event m) = Pop_Test m"

text \<open>The effect of a whole call.\<close>

fun raw_op :: "raw_event \<Rightarrow> raw_buf \<Rightarrow> (raw_result \<times> raw_buf) option" where
  "raw_op (Push_Event s good) b = (let (r, b') = PushPkts s good b in Some (Pushed r, b'))"
| "raw_op (Pop_Event m) b =
     (case PopPktStatus m b of None \<Rightarrow> None | Some ((v, good, n), b') \<Rightarrow> Some (Popped v good n, b'))"

section \<open>The proof outline\<close>

abbreviation status_counted :: "raw_buf \<Rightarrow> raw_status list" where
  "status_counted x \<equiv> map count_send (nack_deq x)"

text \<open>The buffer before \<open>Push_Bad\<close> and \<open>Push_End\<close>.\<close>

definition room_made :: "u32 \<Rightarrow> raw_buf \<Rightarrow> raw_buf" where
  "room_made s x =
     (if s - rb_end_seq x \<le> kMaxBufSize - pkt_cnt x
      then x\<lparr>nack_deq := nack_deq x @ map fresh_status (gap (rb_end_seq x) s), pkt_cnt := pkt_cnt x + (s - rb_end_seq x)\<rparr>
      else x\<lparr>nack_deq := [], pkt_cnt := 1\<rparr>)"

definition bad_pushed :: "u32 \<Rightarrow> bool \<Rightarrow> raw_buf \<Rightarrow> raw_buf" where
  "bad_pushed s good x = (let y = room_made s x in if \<not> good then y\<lparr>nack_deq := nack_deq y @ [fresh_status s]\<rparr> else y)"

lemma PushPkts_bad_pushed:
  "rb_end_seq x < s \<Longrightarrow> PushPkts s good x = (True, (bad_pushed s good x)\<lparr>rb_end_seq := s\<rparr>)"
  by (simp add: PushPkts_def bad_pushed_def room_made_def Let_def)

text \<open>The assertion at each place: what the call has read so far, and the buffer it has made.\<close>

fun push_at :: "u32 \<Rightarrow> bool \<Rightarrow> raw_buf \<Rightarrow> raw_place \<Rightarrow> raw_buf \<Rightarrow> bool" where
  "push_at s good x (Push_Test s' good') y \<longleftrightarrow> s' = s \<and> good' = good \<and> y = x"
| "push_at s good x (Push_Room s' good') y \<longleftrightarrow> s' = s \<and> good' = good \<and> y = x \<and> rb_end_seq x < s"
| "push_at s good x (Push_Gap s' good' i) y \<longleftrightarrow> s' = s \<and> good' = good \<and> s - rb_end_seq x \<le> kMaxBufSize - pkt_cnt x
     \<and> rb_end_seq x < i \<and> i \<le> s \<and> y = x\<lparr>nack_deq := nack_deq x @ map fresh_status (gap (rb_end_seq x) i)\<rparr>"
| "push_at s good x (Push_Count s' good') y \<longleftrightarrow> s' = s \<and> good' = good \<and> s - rb_end_seq x \<le> kMaxBufSize - pkt_cnt x
     \<and> rb_end_seq x < s \<and> y = x\<lparr>nack_deq := nack_deq x @ map fresh_status (gap (rb_end_seq x) s)\<rparr>"
| "push_at s good x (Push_Clear s' good') y \<longleftrightarrow> s' = s \<and> good' = good \<and> \<not> s - rb_end_seq x \<le> kMaxBufSize - pkt_cnt x
     \<and> rb_end_seq x < s \<and> y = x"
| "push_at s good x (Push_One s' good') y \<longleftrightarrow> s' = s \<and> good' = good \<and> \<not> s - rb_end_seq x \<le> kMaxBufSize - pkt_cnt x
     \<and> rb_end_seq x < s \<and> y = x\<lparr>nack_deq := []\<rparr>"
| "push_at s good x (Push_Bad s' good') y \<longleftrightarrow> s' = s \<and> good' = good \<and> rb_end_seq x < s \<and> y = room_made s x"
| "push_at s good x (Push_End s') y \<longleftrightarrow> s' = s \<and> rb_end_seq x < s \<and> y = bad_pushed s good x"
| "push_at s good x Push_Signal y \<longleftrightarrow> rb_end_seq x < s \<and> PushPkts s good x = (True, y)"
| "push_at s good x (Push_Unlock r) y \<longleftrightarrow> (r \<longleftrightarrow> rb_end_seq x < s) \<and> PushPkts s good x = (r, y)"
| "push_at s good x p y \<longleftrightarrow> False"

fun pop_at :: "u32 \<Rightarrow> raw_buf \<Rightarrow> raw_place \<Rightarrow> raw_buf \<Rightarrow> bool" where
  "pop_at m x (Pop_Test m') y \<longleftrightarrow> m' = m \<and> y = x"
| "pop_at m x Pop_Good y \<longleftrightarrow> \<not> pkt_cnt x < m \<and> y = x"
| "pop_at m x (Pop_Collect good v j) y \<longleftrightarrow> \<not> pkt_cnt x < m \<and> good = rb_end_seq x \<and> j \<le> length (nack_deq x)
     \<and> v = map rs_seq (take j (nack_deq x)) \<and> y = x\<lparr>nack_deq := map count_send (take j (nack_deq x)) @ drop j (nack_deq x)\<rparr>"
| "pop_at m x (Pop_Prefix good v j) y \<longleftrightarrow> \<not> pkt_cnt x < m \<and> good = rb_end_seq x \<and> v = map rs_seq (nack_deq x)
     \<and> j \<le> length (nack_deq x) \<and> (\<forall>i<j. send_cnt (count_send (nack_deq x ! i)) = max_send_cnt x)
     \<and> y = x\<lparr>nack_deq := status_counted x\<rparr>"
| "pop_at m x (Pop_Erase good v j) y \<longleftrightarrow> \<not> pkt_cnt x < m \<and> good = rb_end_seq x \<and> v = map rs_seq (nack_deq x)
     \<and> j = length (takeWhile (\<lambda>s. send_cnt s = max_send_cnt x) (status_counted x))
     \<and> y = x\<lparr>nack_deq := status_counted x\<rparr>"
| "pop_at m x (Pop_Num good v) y \<longleftrightarrow> \<not> pkt_cnt x < m \<and> good = rb_end_seq x \<and> v = map rs_seq (nack_deq x)
     \<and> y = x\<lparr>nack_deq := dropWhile (\<lambda>s. send_cnt s = max_send_cnt x) (status_counted x)\<rparr>"
| "pop_at m x (Pop_Reset good v n) y \<longleftrightarrow> \<not> pkt_cnt x < m \<and> good = rb_end_seq x \<and> v = map rs_seq (nack_deq x) \<and> n = ucast (pkt_cnt x)
     \<and> y = x\<lparr>nack_deq := dropWhile (\<lambda>s. send_cnt s = max_send_cnt x) (status_counted x)\<rparr>"
| "pop_at m x (Pop_Unlock good v n) y \<longleftrightarrow> PopPktStatus m x = Some ((v, good, n), y)"
| "pop_at m x p y \<longleftrightarrow> False"

fun raw_at :: "raw_event \<Rightarrow> raw_buf \<Rightarrow> raw_place \<Rightarrow> raw_buf \<Rightarrow> bool" where
  "raw_at (Push_Event s good) x p y \<longleftrightarrow> push_at s good x p y"
| "raw_at (Pop_Event m) x p y \<longleftrightarrow> pop_at m x p y"

lemma gap_empty: "gap e (e + 1) = []"
proof (cases "unat e + 1 = 2 ^ 32")
  case True
  then have "e + 1 = 0" by (simp add: word_unat_eq_iff unat_word_ariths)
  then show ?thesis by (simp add: gap_def)
next
  case False
  then have "unat (e + 1) \<le> unat e + 1" by (simp add: unat_word_ariths)
  then show ?thesis by (simp add: gap_def)
qed

lemma less_next: "i < (s :: u32) \<Longrightarrow> i + 1 \<le> s \<and> i < i + 1"
  using unat_u32_next [of i s] by (simp add: word_less_nat_alt word_le_nat_alt)

lemma less_next_trans: "e < i \<Longrightarrow> i < (s :: u32) \<Longrightarrow> e < i + 1"
  using less_next less_trans by blast

lemma gap_next: "e < i \<Longrightarrow> i < (s :: u32) \<Longrightarrow> gap e (i + 1) = gap e i @ [i]"
  using unat_u32_next [of i s] by (simp add: gap_def word_less_nat_alt)

lemma push_at_go: "push_at s good x p y \<Longrightarrow> raw_statement p y = Go p' y' \<Longrightarrow> push_at s good x p' y'"
  by (induction p y rule: raw_statement.induct)
    (auto simp: room_made_def bad_pushed_def PushPkts_bad_pushed Let_def gap_empty gap_next less_next PushPkts_def
       intro: less_next_trans split: if_splits)

lemma take_drop_update:
  "j < length xs \<Longrightarrow> (map f (take j xs) @ drop j xs) ! j = xs ! j
     \<and> (map f (take j xs) @ drop j xs)[j := f (xs ! j)] = map f (take (j + 1) xs) @ drop (j + 1) xs"
  by (simp add: nth_append list_update_append take_Suc_conv_app_nth flip: Cons_nth_drop_Suc)

text \<open>Which places wait, signal and return.\<close>

lemma raw_waits: "raw_statement p y = Wait p' \<longleftrightarrow> (\<exists>m. p = Pop_Test m \<and> pkt_cnt y < m \<and> p' = Pop_Test m)"
  by (cases p) auto

lemma raw_signals: "raw_statement p y = Signal p' \<longleftrightarrow> p = Push_Signal \<and> p' = Push_Unlock True"
  by (cases p) auto

lemma raw_leaves: "raw_statement p y = Leave r \<longleftrightarrow>
    (\<exists>a. p = Push_Unlock a \<and> r = Pushed a) \<or> (\<exists>good v n. p = Pop_Unlock good v n \<and> r = Popped v good n)"
  by (cases p) auto

lemma pop_at_collect:
  "pop_at m x (Pop_Collect good v j) y \<Longrightarrow> raw_statement (Pop_Collect good v j) y = Go p' y' \<Longrightarrow> pop_at m x p' y'"
  using take_drop_update [of j "nack_deq x" count_send]
  by (cases "j < length (nack_deq x)") (auto simp: take_Suc_conv_app_nth)

lemma pop_at_prefix:
  assumes at: "pop_at m x (Pop_Prefix good v j) y" and go: "raw_statement (Pop_Prefix good v j) y = Go p' y'"
  shows "pop_at m x p' y'"
proof -
  let ?xs = "status_counted x" and ?P = "\<lambda>s. send_cnt s = max_send_cnt x"
  have y: "nack_deq y = ?xs" "max_send_cnt y = max_send_cnt x" "j \<le> length ?xs" "\<forall>i<j. ?P (?xs ! i)"
    using at by auto
  show ?thesis
  proof (cases "j < length ?xs \<and> ?P (?xs ! j)")
    case True
    then have "p' = Pop_Prefix good v (j + 1)" "y' = y" using go y(1,2) by (auto split: if_splits)
    then show ?thesis using at True less_Suc_eq by auto
  next
    case False
    then have p': "p' = Pop_Erase good v j" "y' = y" using go y(1,2) by (auto split: if_splits)
    have "takeWhile ?P ?xs = take j ?xs" using False y(4) by (intro takeWhile_eq_take_P_nth) auto
    then have "j = length (takeWhile ?P ?xs)" using y(3) by simp
    then show ?thesis using at p' by simp
  qed
qed

lemma pop_at_erase:
  "pop_at m x (Pop_Erase good v j) y \<Longrightarrow> raw_statement (Pop_Erase good v j) y = Go p' y' \<Longrightarrow> pop_at m x p' y'"
  by (auto simp: dropWhile_eq_drop)

lemma pop_at_reset:
  "pop_at m x (Pop_Reset good v n) y \<Longrightarrow> raw_statement (Pop_Reset good v n) y = Go p' y' \<Longrightarrow> pop_at m x p' y'"
  by (auto simp: PopPktStatus_def Let_def)

lemma pop_at_go:
  assumes "pop_at m x p y" "raw_statement p y = Go p' y'" shows "pop_at m x p' y'"
proof (cases p)
  case (Pop_Collect good v j)
  then show ?thesis using pop_at_collect assms by blast
next
  case (Pop_Prefix good v j)
  then show ?thesis using pop_at_prefix assms by blast
next
  case (Pop_Erase good v j)
  then show ?thesis using pop_at_erase assms by blast
next
  case (Pop_Reset good v n)
  then show ?thesis using pop_at_reset assms by blast
qed (use assms in \<open>auto split: if_splits\<close>)

lemma raw_at_go: "raw_at c x p y \<Longrightarrow> raw_statement p y = Go p' y' \<Longrightarrow> raw_at c x p' y'"
  using push_at_go [of _ _ x p y p' y'] pop_at_go [of _ x p y p' y'] by (cases c) auto

lemma raw_at_wait: "raw_at c x p y \<Longrightarrow> raw_statement p y = Wait p' \<Longrightarrow> p' = raw_start c \<and> y = x \<and> raw_op c x = None"
  by (cases c) (auto simp: raw_waits PopPktStatus_def)

lemma raw_at_signal: "raw_at c x p y \<Longrightarrow> raw_statement p y = Signal p' \<Longrightarrow> raw_at c x p' y"
  by (cases c) (auto simp: raw_signals)

lemma raw_at_leave: "raw_at c x p y \<Longrightarrow> raw_statement p y = Leave r \<Longrightarrow> raw_op c x = Some (r, y)"
  by (cases c) (auto simp: raw_leaves)

lemma raw_at_start: "raw_may t c \<Longrightarrow> raw_at c x (raw_start c) x"
  by (cases c) auto

text \<open>The steps that a call still has to make at most.\<close>

fun raw_variant :: "raw_place \<Rightarrow> raw_buf \<Rightarrow> nat" where
  "raw_variant (Push_Test s good) y = unat s + 7"
| "raw_variant (Push_Room s good) y = unat s + 6"
| "raw_variant (Push_Gap s good i) y = 5 + (unat s - unat i)"
| "raw_variant (Push_Count s good) y = 4"
| "raw_variant (Push_Clear s good) y = 5"
| "raw_variant (Push_One s good) y = 4"
| "raw_variant (Push_Bad s good) y = 3"
| "raw_variant (Push_End s) y = 2"
| "raw_variant Push_Signal y = 1"
| "raw_variant (Push_Unlock r) y = 0"
| "raw_variant (Pop_Test m) y = 7 + 2 * length (nack_deq y)"
| "raw_variant Pop_Good y = 6 + 2 * length (nack_deq y)"
| "raw_variant (Pop_Collect good v j) y = 5 + length (nack_deq y) + (length (nack_deq y) - j)"
| "raw_variant (Pop_Prefix good v j) y = 4 + (length (nack_deq y) - j)"
| "raw_variant (Pop_Erase good v j) y = 3"
| "raw_variant (Pop_Num good v) y = 2"
| "raw_variant (Pop_Reset good v n) y = 1"
| "raw_variant (Pop_Unlock good v n) y = 0"

lemma raw_go_less: "raw_statement p y = Go p' y' \<Longrightarrow> raw_variant p' y' < raw_variant p y"
proof (cases p)
  case (Push_Gap s good i)
  assume "raw_statement p y = Go p' y'"
  then show ?thesis using unat_u32_next [of i s] Push_Gap by (auto simp: word_less_nat_alt split: if_splits)
qed (auto split: if_splits)

lemma raw_at_fails: "raw_at c x p y \<Longrightarrow> raw_statement p y \<noteq> Fail a"
  by (cases p) auto

interpretation raw: monitor_ends raw_statement raw_start raw_may raw_op raw_at raw_variant
  by unfold_locales
    (fact raw_at_start raw_at_go raw_at_signal raw_at_wait raw_at_leave raw_go_less | simp add: raw_signals raw_at_fails)+

section \<open>Locked runs\<close>

abbreviation raw_step_locked :: "(raw_thread, raw_event, raw_place, raw_buf, raw_result) monitor \<Rightarrow>
  (raw_thread, raw_event, raw_place, raw_buf, raw_result) monitor \<Rightarrow> bool" where
  "raw_step_locked \<equiv> monitor_step raw_statement raw_start raw_may"

text \<open>From the value that the constructor or option \<open>-A\<close> gave \<open>max_send_cnt\<close> before the threads start.\<close>

abbreviation raw_locked :: "u8 \<Rightarrow> (raw_thread, raw_event, raw_place, raw_buf, raw_result) monitor \<Rightarrow> bool" where
  "raw_locked mx \<equiv> monitor_reachable raw_statement raw_start raw_may (set_max_send_cnt mx RxRawBuf)"

text \<open>The numbers the collections of a log reported.\<close>

fun reported_by :: "raw_thread \<times> raw_event \<times> raw_result \<Rightarrow> u32 list" where
  "reported_by (t, c, Popped v good n) = v"
| "reported_by (t, c, Pushed a) = []"

lemma replay_raw_step:
  assumes "raw_op c (hist_buf h) = Some (r, y)"
  shows "hist_buf (raw_step c h) = y \<and> reported (raw_step c h) = reported h @ reported_by (t, c, r)"
  using assms by (cases c) (auto simp: raw_step_def Let_def split: prod.splits option.splits)

lemma replay_raw_run:
  "replay raw_op log (hist_buf h) = Some x \<Longrightarrow>
     hist_buf (fold raw_step (calls_made log) h) = x
     \<and> reported (fold raw_step (calls_made log) h) = reported h @ concat (map reported_by log)"
proof (induction log arbitrary: h)
  case (Cons e log)
  obtain t c r where e: "e = (t, c, r)" by (cases e) auto
  obtain y where y: "raw_op c (hist_buf h) = Some (r, y)" "replay raw_op log y = Some x"
    using Cons.prems by (auto simp: e split: option.splits if_splits)
  show ?case using Cons.IH [of "raw_step c h"] replay_raw_step [OF y(1), of t] y(2) by (simp add: e calls_made_def)
qed (simp add: calls_made_def)

text \<open>A locked run is a run of \<open>Raw_Buf\<close>, call by call in the order of the unlocks.\<close>

lemma raw_locked_run:
  assumes "raw_locked mx s"
  shows "reported (raw_run mx (calls_made (completed s))) = concat (map reported_by (completed s))"
    "holder s = None \<Longrightarrow> object s = hist_buf (raw_run mx (calls_made (completed s)))"
proof -
  obtain x where x: "replay raw_op (completed s) (set_max_send_cnt mx RxRawBuf) = Some x" "holder s = None \<longrightarrow> object s = x"
    using raw.reachable_atomic [OF assms] by (auto simp: raw.atomic_def)
  note run = replay_raw_run [of "completed s" "raw_begin mx" x, folded raw_run_def]
  show "reported (raw_run mx (calls_made (completed s))) = concat (map reported_by (completed s))"
    "holder s = None \<Longrightarrow> object s = hist_buf (raw_run mx (calls_made (completed s)))"
    using run x by (simp_all add: raw_begin_def)
qed

text \<open>The good packets of a run are those pushed as good and not refused as out of order.\<close>

lemma replay_received:
  "replay raw_op log (hist_buf h) = Some x \<Longrightarrow> \<forall>(t, c, r)\<in>set log. raw_may t c \<Longrightarrow>
     set (received (fold raw_step (calls_made log) h))
       = set (received h) \<union> {q. (Raw_Rcv, Push_Event q True, Pushed True) \<in> set log}"
proof (induction log arbitrary: h)
  case (Cons e log)
  obtain t c r where e: "e = (t, c, r)" by (cases e) auto
  obtain y where y: "raw_op c (hist_buf h) = Some (r, y)" "replay raw_op log y = Some x"
    using Cons.prems(1) by (auto simp: e split: option.splits if_splits)
  have "set (received (raw_step c h)) = set (received h) \<union> {q. (Raw_Rcv, Push_Event q True, Pushed True) = e}"
    using y(1) Cons.prems(2) by (cases c; cases t) (auto simp: e raw_step_def Let_def split: prod.splits option.splits)
  then show ?case
    using Cons.IH [of "raw_step c h"] Cons.prems(2) replay_raw_step [OF y(1), of t] y(2) by (auto simp: e)
qed simp

lemma raw_locked_received:
  assumes "raw_locked mx s"
  shows "set (received (raw_run mx (calls_made (completed s)))) = {q. (Raw_Rcv, Push_Event q True, Pushed True) \<in> set (completed s)}"
proof -
  obtain x where "replay raw_op (completed s) (set_max_send_cnt mx RxRawBuf) = Some x"
    using raw.reachable_atomic [OF assms] by (auto simp: raw.atomic_def)
  then show ?thesis
    using replay_received [of "completed s" "raw_begin mx" x]
      raw.completed_may [OF assms] by (auto simp: raw_run_def raw_begin_def)
qed

section \<open>No packet is missed\<close>

text \<open>
  While \<open>RxCreateRawAck\<close> sleeps the count is below what it waits for, or the receiving thread has
  just counted a packet and is about to signal. One thread waits, as the comment in \<open>PopPktStatus\<close>
  says, so that the signal reaches it.
\<close>

fun to_signal :: "raw_place \<Rightarrow> bool" where
  "to_signal (Push_Bad s good) \<longleftrightarrow> True"
| "to_signal (Push_End s) \<longleftrightarrow> True"
| "to_signal Push_Signal \<longleftrightarrow> True"
| "to_signal p \<longleftrightarrow> False"

definition about_to_signal :: "(raw_event, raw_place) activity \<Rightarrow> bool" where
  "about_to_signal a = (case a of Inside c p \<Rightarrow> to_signal p | _ \<Rightarrow> False)"

definition raw_awake :: "(raw_thread, raw_event, raw_place, raw_buf, raw_result) monitor \<Rightarrow> bool" where
  "raw_awake s \<longleftrightarrow> (\<forall>d q. activity s Raw_Rcv \<noteq> Asleep d q)
     \<and> (\<forall>m p. activity s Raw_Ack = Asleep (Pop_Event m) p \<longrightarrow> pkt_cnt (object s) < m \<or> about_to_signal (activity s Raw_Rcv))"

lemma push_goes:
  assumes "push_at s good x p y" "raw_statement p y = Go p' y'"
  shows "if to_signal p then to_signal p' else pkt_cnt y' = pkt_cnt y \<or> to_signal p'"
  using assms by (cases p) (auto split: if_splits)

text \<open>The receiving thread never waits; the other one waits for the number of packets it was given.\<close>

lemma raw_inside:
  assumes "raw_locked mx s" "activity s t = Inside c p"
  obtains x where "raw_at c x p (object s)" "raw_may t c" "holder s = Some t"
proof -
  obtain x where "raw.fits x (object s) (holder s) t (activity s t)"
    using raw.reachable_atomic [OF assms(1)] by (auto simp: raw.atomic_def)
  then have "holder s = Some t" "raw_may t c" "raw_at c x p (object s)" by (simp_all add: assms(2) raw.fits_def)
  then show thesis using that by blast
qed

lemma raw_may_cases: "raw_may t c \<Longrightarrow> (\<exists>s good. t = Raw_Rcv \<and> c = Push_Event s good) \<or> (\<exists>m. t = Raw_Ack \<and> c = Pop_Event m)"
  by (cases t; cases c) auto

lemma raw_awake_step:
  assumes reach: "raw_locked mx s" and awake: "raw_awake s" and step: "raw_step_locked s s'"
  shows "raw_awake s'"
  using step
proof cases
  case (call t c)
  then show ?thesis using awake by (cases t) (auto simp: raw_awake_def about_to_signal_def)
next
  case (lock t c p)
  show ?thesis
  proof (cases t)
    case Raw_Rcv
    then show ?thesis using lock awake by (auto simp: raw_awake_def about_to_signal_def)
  next
    case Raw_Ack
    then show ?thesis using lock awake by (auto simp: raw_awake_def)
  qed
next
  case (go t c p p' y)
  obtain x where x: "raw_at c x p (object s)" "raw_may t c" using raw_inside [OF reach go(2)] .
  show ?thesis
  proof (cases t)
    case Raw_Rcv
    then obtain q good where "c = Push_Event q good" using x(2) by (cases c) auto
    then have "if to_signal p then to_signal p' else pkt_cnt y = pkt_cnt (object s) \<or> to_signal p'"
      using push_goes go(3) x(1) by simp
    then show ?thesis using go(1,2) awake Raw_Rcv by (auto simp: raw_awake_def about_to_signal_def split: if_splits)
  next
    case Raw_Ack
    then show ?thesis using go awake by (auto simp: raw_awake_def)
  qed
next
  case (signal_lost t c p p')
  then show ?thesis by (simp add: raw_awake_def)
next
  case (signal_wakes t c p p' u d q)
  have "u = Raw_Ack" using awake signal_wakes(4) by (cases u) (auto simp: raw_awake_def)
  then show ?thesis using awake signal_wakes(1) by (auto simp: raw_awake_def)
next
  case (wait t c p p')
  obtain x where x: "raw_at c x p (object s)" "raw_may t c" using raw_inside [OF reach wait(2)] .
  from raw_may_cases [OF x(2)] show ?thesis
  proof (elim disjE exE conjE)
    fix q good assume "t = Raw_Rcv" "c = Push_Event q good"
    then show ?thesis using wait(3) x(1) by (auto simp: raw_waits)
  next
    fix m assume "t = Raw_Ack" "c = Pop_Event m"
    then show ?thesis using wait(1,3) x(1) awake by (auto simp: raw_waits raw_awake_def)
  qed
next
  case (leave t c p r)
  have "\<not> to_signal p" using leave(3) by (auto simp: raw_leaves)
  then show ?thesis using leave(1,2) awake by (cases t) (auto simp: raw_awake_def about_to_signal_def)
next
  case (spurious t c p)
  have "t = Raw_Ack" using awake spurious(2) by (cases t) (auto simp: raw_awake_def)
  then show ?thesis using awake spurious(1) by (auto simp: raw_awake_def)
qed

lemma raw_locked_awake: "raw_locked mx s \<Longrightarrow> raw_awake s"
proof (erule monitor_reachable_induct)
  show "raw_awake (monitor_init (set_max_send_cnt mx RxRawBuf))" by (simp add: raw_awake_def monitor_init_def)
qed (rule raw_awake_step)

text \<open>Between the calls, a thread that sleeps has nothing to collect.\<close>

lemma raw_sleeper:
  assumes "raw_locked mx s" "activity s Raw_Ack = Asleep (Pop_Event m) p" "holder s = None"
  shows "pkt_cnt (object s) < m"
proof -
  have "\<not> about_to_signal (activity s Raw_Rcv)"
    using raw.inside_holds [OF assms(1)] assms(3) by (auto simp: about_to_signal_def split: activity.splits)
  then show ?thesis using raw_locked_awake [OF assms(1)] assms(2) by (auto simp: raw_awake_def)
qed

text \<open>And there is always such a moment: the lock comes free.\<close>

lemma raw_lock_comes_free: "raw_locked mx s \<Longrightarrow> \<exists>s'. raw_step_locked\<^sup>*\<^sup>* s s' \<and> holder s' = None"
proof -
  assume reach: "raw_locked mx s"
  obtain s' where s': "raw_step_locked\<^sup>*\<^sup>* s s'" "holder s' = None \<or> raw.fails s'"
    using raw.lock_comes_free [OF reach] by blast
  have "raw_locked mx s'" using reach s'(1) by (simp add: monitor_reachable_def)
  then have "\<not> raw.fails s'" unfolding raw.fails_def by (metis raw_inside raw_at_fails)
  then show ?thesis using s' by blast
qed

end
