(* ===== verification/Tun.thy ===== *)
theory Tun
  imports Byte_Layout
begin

text \<open>
  Class \<open>Tun\<close> of \<open>src/tun.h\<close> and \<open>src/tun.cc\<close>: the tun device, the sockets of the radios and of
  the cellular link, and reading and writing through them. The operating system is a parameter
  (\<open>os\<close>): the results of \<open>open\<close>, \<open>ioctl\<close>, of the successive calls of \<open>socket\<close>, of the calls that
  receive and send, and \<open>inet_addr\<close>. Errors that the code only prints do not appear.
\<close>

section \<open>Addresses\<close>

record sockaddr_in =
  sin_family :: u16
  sin_addr :: u32
  sin_port :: u16

definition htons :: "u16 \<Rightarrow> u16" where
  "htons x = word_of_nat (unat x mod 256 * 256 + unat x div 256)"

definition CreateAddr_ip :: "(string \<Rightarrow> u32) \<Rightarrow> string \<Rightarrow> int \<Rightarrow> sockaddr_in" where
  "CreateAddr_ip inet_addr ip port = \<lparr>sin_family = 2, sin_addr = inet_addr ip, sin_port = htons (word_of_int port)\<rparr>"

definition CreateAddr_any :: "int \<Rightarrow> sockaddr_in" where
  "CreateAddr_any port = \<lparr>sin_family = 2, sin_addr = 0, sin_port = htons (word_of_int port)\<rparr>"

definition no_addr :: sockaddr_in where
  "no_addr = \<lparr>sin_family = 0, sin_addr = 0, sin_port = 0\<rparr>"

section \<open>State\<close>

text \<open>\<open>PKT_SIZE\<close> as \<open>tun.h\<close> defines it again for the files that include it.\<close>

definition TUN_PKT_SIZE :: nat where "TUN_PKT_SIZE = 2000"
definition PORT_ETH :: int where "PORT_ETH = 55554"
definition PORT_ATH :: int where "PORT_ATH = 55555"
definition MAX_RADIO :: nat where "MAX_RADIO = 3"

datatype io_type = kTun | kWspace | kCellular | kController

record os =
  open_clone :: int
  ioctl_tunsetiff :: int
  ioctl_name :: string
  socket_fd :: "nat \<Rightarrow> int"
  recv_result :: "int \<Rightarrow> nat \<Rightarrow> int \<times> u8 list"
  send_result :: "int \<Rightarrow> sockaddr_in option \<Rightarrow> u8 list \<Rightarrow> int"
  os_inet_addr :: "string \<Rightarrow> u32"

text \<open>\<open>bound\<close> are the calls of \<open>bind\<close>, \<open>outbox\<close> the data given to \<open>write\<close> and \<open>sendto\<close>; file descriptors of sockets are kept in 16 bits.\<close>

record tun =
  tun_fd :: int
  tun_type :: i32
  if_name :: string
  controller_ip_eth :: string
  tun_client_id :: i32
  bs_ip_tbl :: "i32 \<rightharpoonup> string"
  bs_addr_tbl :: "i32 \<rightharpoonup> sockaddr_in"
  client_addr_eth :: sockaddr_in
  controller_addr_eth :: sockaddr_in
  client_addr_ath_tbl :: "i32 \<rightharpoonup> sockaddr_in"
  port_eth :: int
  port_ath_tbl :: "i32 \<rightharpoonup> int"
  sock_fd_eth :: u16
  sock_fd_ath_tbl :: "i32 \<rightharpoonup> u16"
  radio_ids :: "i32 list"
  bound :: "(int \<times> sockaddr_in) list"
  outbox :: "(io_type \<times> u8 list) list"

definition IFF_TUN :: i32 where "IFF_TUN = 1"

definition Tun :: "int \<Rightarrow> u16 \<Rightarrow> sockaddr_in \<Rightarrow> sockaddr_in \<Rightarrow> tun" where
  "Tun junk_fd junk_sock junk_client junk_controller =
     \<lparr>tun_fd = junk_fd, tun_type = IFF_TUN, if_name = '''', controller_ip_eth = '''', tun_client_id = 0,
      bs_ip_tbl = Map.empty, bs_addr_tbl = Map.empty, client_addr_eth = junk_client,
      controller_addr_eth = junk_controller, client_addr_ath_tbl = Map.empty, port_eth = PORT_ETH,
      port_ath_tbl = Map.empty, sock_fd_eth = junk_sock, sock_fd_ath_tbl = Map.empty, radio_ids = [], bound = [], outbox = []\<rparr>"

section \<open>Setting up\<close>

text \<open>The result and what \<open>dev\<close> holds afterwards.\<close>

definition AllocTun :: "os \<Rightarrow> string \<Rightarrow> int \<times> string" where
  "AllocTun sys dev =
     (if open_clone sys < 0 then (open_clone sys, dev)
      else if ioctl_tunsetiff sys < 0 then (ioctl_tunsetiff sys, dev)
      else (open_clone sys, ioctl_name sys))"

definition CreateSock :: "os \<Rightarrow> nat \<Rightarrow> int outcome" where
  "CreateSock sys i = (if socket_fd sys i < 0 then abort Perror_Exit else ok (socket_fd sys i))"

definition BindSocket :: "int \<Rightarrow> sockaddr_in \<Rightarrow> tun \<Rightarrow> tun" where
  "BindSocket fd addr t = t\<lparr>bound := bound t @ [(fd, addr)]\<rparr>"

text \<open>The loop over the radios; the \<open>i\<close>-th one, from 0, uses socket \<open>i + 1\<close>.\<close>

fun init_radios :: "os \<Rightarrow> nat \<Rightarrow> i32 list \<Rightarrow> tun \<Rightarrow> tun outcome" where
  "init_radios sys i [] t = ok t"
| "init_radios sys i (r # rs) t =
     and_then (CreateSock sys (i + 1)) (\<lambda>fd.
       let port = PORT_ATH + int i; addr = CreateAddr_any port; sock = word_of_int fd;
           t = t\<lparr>sock_fd_ath_tbl := (sock_fd_ath_tbl t)(r \<mapsto> sock), port_ath_tbl := (port_ath_tbl t)(r \<mapsto> port),
                 client_addr_ath_tbl := (client_addr_ath_tbl t)(r \<mapsto> addr)\<rparr>
       in init_radios sys (i + 1) rs (BindSocket (uint sock) addr t))"

definition InitSock :: "os \<Rightarrow> tun \<Rightarrow> tun outcome" where
  "InitSock sys t =
     (let (fd, name) = AllocTun sys (if_name t); t = t\<lparr>tun_fd := fd, if_name := name\<rparr> in
      and_then (CreateSock sys 0) (\<lambda>fd.
        let t = t\<lparr>sock_fd_eth := word_of_int fd, client_addr_eth := CreateAddr_any (port_eth t)\<rparr>;
            t = BindSocket (uint (sock_fd_eth t)) (client_addr_eth t) t
        in and_then (init_radios sys 0 (radio_ids t) t) (\<lambda>t.
             ok (t\<lparr>controller_addr_eth := CreateAddr_ip (os_inet_addr sys) (controller_ip_eth t) (port_eth t)\<rparr>))))"

section \<open>Reading and writing\<close>

text \<open>
  \<open>operator[]\<close> of \<open>map\<close> inserts a zero for a missing key. The length read is kept in \<open>uint16_t\<close>, so
  that an error result of -1 becomes 65535.
\<close>

definition Tun_Read :: "os \<Rightarrow> io_type \<Rightarrow> u16 \<Rightarrow> i32 \<Rightarrow> tun \<Rightarrow> ((u16 \<times> u8 list) \<times> tun) outcome" where
  "Tun_Read sys type len radio_id t =
     (if \<not> len > 0 then abort Assert_Failed
      else case type of
        kController \<Rightarrow> abort Assert_Failed
      | _ \<Rightarrow>
          let (fd, t) = (case type of
                 kTun \<Rightarrow> (tun_fd t, t)
               | kWspace \<Rightarrow> (case sock_fd_ath_tbl t radio_id of
                     Some s \<Rightarrow> (uint s, t)
                   | None \<Rightarrow> (0, t\<lparr>sock_fd_ath_tbl := (sock_fd_ath_tbl t)(radio_id \<mapsto> 0)\<rparr>))
               | _ \<Rightarrow> (uint (sock_fd_eth t), t));
              (ret, data) = recv_result sys fd (unat len);
              nread = word_of_int ret :: u16
          in if \<not> nread > 0 then abort Assert_Failed else ok ((nread, data), t))"

text \<open>The datagram is the first \<open>len\<close> bytes of \<open>buf\<close>.\<close>

definition Tun_Write :: "os \<Rightarrow> io_type \<Rightarrow> u8 list \<Rightarrow> u16 \<Rightarrow> i32 \<Rightarrow> tun \<Rightarrow> (u16 \<times> tun) outcome" where
  "Tun_Write sys type buf len the_bs t =
     (if \<not> len > 0 then abort Assert_Failed
      else if unat len > length buf then abort Out_Of_Bounds
      else
        let data = take (unat len) buf in
        and_then (case type of
            kTun \<Rightarrow> ok (send_result sys (tun_fd t) None data, t)
          | kCellular \<Rightarrow>
              let t = (case bs_addr_tbl t the_bs of
                    None \<Rightarrow> t\<lparr>bs_addr_tbl := (bs_addr_tbl t)(the_bs \<mapsto> no_addr)\<rparr> | Some _ \<Rightarrow> t)
              in ok (send_result sys (uint (sock_fd_eth t)) (bs_addr_tbl t the_bs) data, t)
          | kController \<Rightarrow> ok (send_result sys (uint (sock_fd_eth t)) (Some (controller_addr_eth t)) data, t)
          | kWspace \<Rightarrow> abort Assert_Failed)
        (\<lambda>(ret, t). let nwrite = word_of_int ret :: u16 in
           if \<not> nwrite = len then abort Assert_Failed
           else ok (nwrite, t\<lparr>outbox := outbox t @ [(type, data)]\<rparr>)))"

text \<open>The helpers behind the class that nothing calls.\<close>

definition cread :: "os \<Rightarrow> int \<Rightarrow> nat \<Rightarrow> int \<times> u8 list" where
  "cread sys fd n = recv_result sys fd n"

definition cwrite :: "os \<Rightarrow> int \<Rightarrow> u8 list \<Rightarrow> nat \<Rightarrow> int outcome" where
  "cwrite sys fd buf n =
     (if n > length buf then abort Out_Of_Bounds else ok (send_result sys fd None (take n buf)))"

section \<open>Announcing and closing\<close>

definition Tun_Init :: "os \<Rightarrow> tun \<Rightarrow> tun outcome" where
  "Tun_Init sys t = InitSock sys t"

text \<open>
  \<open>InformServerAddr\<close>, whose call in \<open>Init\<close> is commented out: \<open>Inr\<close> is the datagram sent. Errors of
  \<open>sendto\<close> and \<open>recvfrom\<close> are printed only; the reply is compared as a string in the buffer that
  held the message.
\<close>

definition text_bytes :: "string \<Rightarrow> u8 list" where
  "text_bytes s = map (\<lambda>c. word_of_nat (of_char c)) s"

definition connect_msg :: "i32 \<Rightarrow> u8 list" where
  "connect_msg i = text_bytes ''connect'' @ [0] @ bytes_u32 i"

definition c_string :: "u8 list \<Rightarrow> u8 list" where
  "c_string = takeWhile (\<lambda>b. b \<noteq> 0)"

definition InformServerAddr :: "os \<Rightarrow> int \<Rightarrow> i32 \<Rightarrow> u8 list outcome" where
  "InformServerAddr sys sock_fd i =
     (let msg = connect_msg i;
          buffer = msg @ replicate (TUN_PKT_SIZE - length msg) 0;
          (ret, data) = recv_result sys sock_fd TUN_PKT_SIZE;
          buffer = (if ret = - 1 then buffer else data @ drop (length data) buffer)
      in if c_string buffer \<noteq> text_bytes ''accept'' then abort Exit_Zero else ok msg)"

text \<open>The destructor: the descriptors it closes, those of the radios in the order of their ids.\<close>

definition Tun_close :: "tun \<Rightarrow> int list" where
  "Tun_close t = tun_fd t # uint (sock_fd_eth t)
     # map (\<lambda>r. uint (the (sock_fd_ath_tbl t (word_of_int r)))) (sorted_list_of_set (sint ` dom (sock_fd_ath_tbl t)))"

section \<open>Lemmas\<close>

text \<open>Where a read looks, and the documented behaviour of \<open>recv\<close>: an error is -1, otherwise the
  number of bytes, at most the length asked for.\<close>

definition recv_sane :: "os \<Rightarrow> bool" where
  "recv_sane sys \<longleftrightarrow> (\<forall>fd n. let (ret, data) = recv_result sys fd n in
     ret = - 1 \<and> data = [] \<or> 0 \<le> ret \<and> nat ret = length data \<and> length data \<le> n)"

lemma Tun_Read_length:
  assumes sane: "recv_sane sys" and read: "Tun_Read sys type len r t = ok ((nread, data), t')"
  shows "nread = 65535 \<and> data = [] \<or> unat nread = length data \<and> length data \<le> unat len \<and> 0 < length data"
proof -
  obtain fd ret where rr: "recv_result sys fd (unat len) = (ret, data)" "nread = word_of_int ret" "nread > 0"
    using read by (cases type) (auto simp: Tun_Read_def Let_def split: if_splits prod.splits option.splits)
  have "unat len < 65536" using unsigned_less [of len] by simp
  have "ret = - 1 \<and> data = [] \<or> 0 \<le> ret \<and> nat ret = length data \<and> length data \<le> unat len"
    using sane [unfolded recv_sane_def Let_def, THEN spec, THEN spec, of "unat len" fd] rr(1) by simp
  then show ?thesis
  proof
    assume "ret = - 1 \<and> data = []"
    then show ?thesis using rr(2) by simp
  next
    assume a: "0 \<le> ret \<and> nat ret = length data \<and> length data \<le> unat len"
    then have "nread = word_of_nat (length data)" using rr(2) by (metis int_nat_eq of_int_of_nat_eq)
    then have "unat nread = length data" using a \<open>unat len < 65536\<close> by (simp add: unat_of_nat)
    then show ?thesis using a rr(3) by (metis gr_zeroI unat_0 unat_gt_0 word_less_nat_alt)
  qed
qed

text \<open>A send that the system accepts: all bytes are taken.\<close>

definition send_sane :: "os \<Rightarrow> bool" where
  "send_sane sys \<longleftrightarrow> (\<forall>fd addr data. send_result sys fd addr data = int (length data))"

lemma Tun_Write_sent:
  assumes "send_sane sys" "type = kTun \<or> type = kController" "len > 0" "unat len \<le> length buf"
  shows "Tun_Write sys type buf len i t = ok (len, t\<lparr>outbox := outbox t @ [(type, take (unat len) buf)]\<rparr>)"
  using assms by (auto simp: Tun_Write_def send_sane_def Let_def min_def)

lemma init_radios_tables:
  assumes "distinct rs" "\<forall>j<length rs. 0 \<le> socket_fd sys (i + 1 + j)"
  shows "\<exists>t'. init_radios sys i rs t = ok t'
    \<and> (\<forall>j<length rs. port_ath_tbl t' (rs ! j) = Some (PORT_ATH + int (i + j))
         \<and> sock_fd_ath_tbl t' (rs ! j) = Some (word_of_int (socket_fd sys (i + 1 + j)))
         \<and> client_addr_ath_tbl t' (rs ! j) = Some (CreateAddr_any (PORT_ATH + int (i + j))))
    \<and> (\<forall>r. r \<notin> set rs \<longrightarrow> port_ath_tbl t' r = port_ath_tbl t r \<and> sock_fd_ath_tbl t' r = sock_fd_ath_tbl t r
         \<and> client_addr_ath_tbl t' r = client_addr_ath_tbl t r)
    \<and> port_eth t' = port_eth t \<and> sock_fd_eth t' = sock_fd_eth t"
  using assms
proof (induction rs arbitrary: i t)
  case (Cons r rs)
  let ?port = "PORT_ATH + int i" and ?sock = "word_of_int (socket_fd sys (i + 1)) :: u16"
  let ?t = "BindSocket (uint ?sock) (CreateAddr_any ?port) (t\<lparr>sock_fd_ath_tbl := (sock_fd_ath_tbl t)(r \<mapsto> ?sock),
    port_ath_tbl := (port_ath_tbl t)(r \<mapsto> ?port), client_addr_ath_tbl := (client_addr_ath_tbl t)(r \<mapsto> CreateAddr_any ?port)\<rparr>)"
  have fds: "0 \<le> socket_fd sys (i + 1)" "\<forall>j<length rs. 0 \<le> socket_fd sys ((i + 1) + 1 + j)"
  proof -
    show "0 \<le> socket_fd sys (i + 1)" using Cons.prems(2) by force
    show "\<forall>j<length rs. 0 \<le> socket_fd sys ((i + 1) + 1 + j)"
    proof (intro allI impI)
      fix j assume "j < length rs"
      then show "0 \<le> socket_fd sys ((i + 1) + 1 + j)" using Cons.prems(2) [rule_format, of "Suc j"] by simp
    qed
  qed
  obtain t' where t': "init_radios sys (i + 1) rs ?t = ok t'"
    "\<forall>j<length rs. port_ath_tbl t' (rs ! j) = Some (PORT_ATH + int (i + 1 + j))
         \<and> sock_fd_ath_tbl t' (rs ! j) = Some (word_of_int (socket_fd sys (i + 1 + 1 + j)))
         \<and> client_addr_ath_tbl t' (rs ! j) = Some (CreateAddr_any (PORT_ATH + int (i + 1 + j)))"
    "\<forall>q. q \<notin> set rs \<longrightarrow> port_ath_tbl t' q = port_ath_tbl ?t q \<and> sock_fd_ath_tbl t' q = sock_fd_ath_tbl ?t q
         \<and> client_addr_ath_tbl t' q = client_addr_ath_tbl ?t q"
    "port_eth t' = port_eth ?t" "sock_fd_eth t' = sock_fd_eth ?t"
    using Cons.IH [OF _ fds(2), of ?t] Cons.prems(1) by auto
  have "init_radios sys i (r # rs) t = ok t'" using t'(1) fds(1) by (simp add: CreateSock_def Let_def)
  moreover have "port_ath_tbl t' ((r # rs) ! j) = Some (PORT_ATH + int (i + j))
      \<and> sock_fd_ath_tbl t' ((r # rs) ! j) = Some (word_of_int (socket_fd sys (i + 1 + j)))
      \<and> client_addr_ath_tbl t' ((r # rs) ! j) = Some (CreateAddr_any (PORT_ATH + int (i + j)))" if "j < length (r # rs)" for j
  proof (cases j)
    case 0
    then show ?thesis using t'(3) Cons.prems(1) by (simp add: BindSocket_def)
  next
    case (Suc m)
    then show ?thesis using t'(2) that by simp
  qed
  ultimately show ?case using t'(3-5) by (auto simp: BindSocket_def)
qed simp

text \<open>
  A reply is accepted if it is the string with its end. Without it the rest of the message
  completes the string to another one, and the client exits.
\<close>

lemma text_accept: "text_bytes ''accept'' = [97, 99, 99, 101, 112, 116]"
  by (simp add: text_bytes_def of_char_def)

lemma text_connect: "text_bytes ''connect'' = [99, 111, 110, 110, 101, 99, 116]"
  by (simp add: text_bytes_def of_char_def)

lemma InformServerAddr_accepted:
  "recv_result sys fd TUN_PKT_SIZE = (7, text_bytes ''accept'' @ [0]) \<Longrightarrow> InformServerAddr sys fd i = ok (connect_msg i)"
  by (simp add: InformServerAddr_def Let_def c_string_def text_accept)

lemma InformServerAddr_without_end:
  "recv_result sys fd TUN_PKT_SIZE = (6, text_bytes ''accept'') \<Longrightarrow> InformServerAddr sys fd i = abort Exit_Zero"
  by (simp add: InformServerAddr_def Let_def c_string_def text_accept connect_msg_def text_connect)

lemma InformServerAddr_no_reply:
  "recv_result sys fd TUN_PKT_SIZE = (- 1, []) \<Longrightarrow> InformServerAddr sys fd i = abort Exit_Zero"
  by (simp add: InformServerAddr_def Let_def c_string_def text_accept connect_msg_def text_connect)

text \<open>The destructor closes the device and every socket in the tables.\<close>

lemma set_Tun_close: "finite (dom (sock_fd_ath_tbl t))
  \<Longrightarrow> set (Tun_close t) = {tun_fd t, uint (sock_fd_eth t)} \<union> uint ` ran (sock_fd_ath_tbl t)"
  by (auto simp: Tun_close_def ran_def image_iff) (metis domI option.sel)+

end
