(* ===== verification/Client_Rx.thy ===== *)
theory Client_Rx
  imports Rx_Data_Buf Raw_Buf Code_Info Tun
begin

text \<open>
  The receiving threads of \<open>src/wspace_client_scout.cc\<close>: \<open>RxRcvAth\<close>, which handles the coded
  packets of one radio, and \<open>RxRcvCell\<close>, which handles the duplicates of the cellular link, with
  \<open>BaseStationContext\<close> and \<open>IsIndExist\<close>. One pass through the loop of a thread is one function of
  the received datagram. It returns the calls of \<open>EnqueuePkt\<close> it makes, in order; \<open>run_calls\<close>
  carries them out on the receive buffer.
\<close>

section \<open>Contexts\<close>

record base_station_context =
  the_bs_id :: i32

definition BaseStationContext :: base_station_context where
  "BaseStationContext = \<lparr>the_bs_id = - 1\<rparr>"

definition bs_id :: "base_station_context \<Rightarrow> i32" where
  "bs_id c = the_bs_id c"

definition set_bs_id :: "i32 \<Rightarrow> base_station_context \<Rightarrow> base_station_context" where
  "set_bs_id i c = c\<lparr>the_bs_id := i\<rparr>"

definition IsIndExist :: "'a list \<Rightarrow> nat \<Rightarrow> 'a \<Rightarrow> bool" where
  "IsIndExist arr len val \<longleftrightarrow> val \<in> set (take len arr)"

text \<open>A radio's part of the client that belongs to the receiving thread: \<open>RadioContext\<close> without the
  receive buffer, with the base station it belongs to (\<open>bs_id_\<close>); then the local variables of the thread.\<close>

record radio_context =
  raw_pkt_buf :: raw_buf
  decoder :: code_info
  the_batch_info :: batch_info
  ctx_bs_id :: i32

definition RadioContext :: "fresh_memory \<Rightarrow> time \<Rightarrow> u32 \<Rightarrow> i32 \<Rightarrow> radio_context outcome" where
  "RadioContext mem junk_time junk_left the_id =
     and_then (CodeInfo mem kDecoder MAX_BATCH_SIZE TUN_PKT_SIZE) (\<lambda>d.
       ok \<lparr>raw_pkt_buf = RxRawBuf, decoder = d, the_batch_info = BatchInfo junk_time junk_left, ctx_bs_id = the_id\<rparr>)"

definition radio_bs_id :: "radio_context \<Rightarrow> i32" where
  "radio_bs_id r = ctx_bs_id r"

definition radio_set_bs_id :: "i32 \<Rightarrow> radio_context \<Rightarrow> radio_context" where
  "radio_set_bs_id i r = r\<lparr>ctx_bs_id := i\<rparr>"

record rcv_ath = radio_context +
  pkt_mem :: "u8 list"
  batch_id :: u32
  start_seq :: u32
  batch_done :: bool
  early_inds :: "nat list"
  early_cnt :: nat

definition rcv_ath_start :: "u8 list \<Rightarrow> nat list \<Rightarrow> radio_context \<Rightarrow> rcv_ath" where
  "rcv_ath_start junk_pkt junk_inds r =
     radio_context.extend r \<lparr>pkt_mem = junk_pkt, batch_id = 0, start_seq = 0, batch_done = False,
       early_inds = junk_inds, early_cnt = 0\<rparr>"

text \<open>A call \<open>EnqueuePkt(seq_num, pkt_len, pkt)\<close>.\<close>

type_synonym enqueue_call = "u32 \<times> u16 \<times> u8 list"

section \<open>RxRcvAth\<close>

text \<open>
  \<open>(nread * 8.0) / (hdr->GetRate() / 10.0) + DIFS_80211ag + SLOT_TIME * 5\<close>, cut to \<open>uint32\<close>. The
  rates are multiples of one half, so the quotient in \<open>double\<close> lies on the same side of every
  integer as the exact one.
\<close>

definition per_pkt_duration :: "u16 \<Rightarrow> u16 \<Rightarrow> u32" where
  "per_pkt_duration nread rate = word_of_nat (unat nread * 80 div unat rate + 28 + 9 * 5)"

text \<open>The three cases of the batch number. \<open>None\<close> is a \<open>continue\<close>.\<close>

definition new_batch :: "time \<Rightarrow> ath_code_header \<Rightarrow> u8 list \<Rightarrow> parsed_code \<Rightarrow> u32 \<Rightarrow> rcv_ath \<Rightarrow> rcv_ath outcome" where
  "new_batch now hdr pkt p duration s =
     (let s = s\<lparr>batch_id := p_batch_id p, batch_done := False, early_cnt := 0,
            decoder := SetCodeInfo (p_k p) (p_n p) (p_start_seq p) (ClearInfo (decoder s)),
            early_inds := replicate MAX_BATCH_SIZE 0\<rparr> in
      and_then (hdr_lens hdr pkt) (\<lambda>lens.
      and_then (CopyLens lens (decoder s)) (\<lambda>d.
        let s = s\<lparr>decoder := d, start_seq := (if p_start_seq p > start_seq s then p_start_seq p else start_seq s)\<rparr> in
        and_then (SetBatchInfo now (p_batch_id p) (start_seq s - 1) (batch_done s) (int (p_ind p)) (int (p_n p)) duration
            (the_batch_info s))
          (\<lambda>bi. ok (s\<lparr>the_batch_info := bi\<rparr>)))))"

definition current_batch :: "time \<Rightarrow> parsed_code \<Rightarrow> u32 \<Rightarrow> rcv_ath \<Rightarrow> (bool \<times> rcv_ath) outcome" where
  "current_batch now p duration s =
     and_then (if \<not> batch_done s then UpdateTimeLeft now (int (p_ind p)) (int (p_n p)) duration (the_batch_info s)
               else ok (the_batch_info s)) (\<lambda>bi.
       let s = s\<lparr>the_batch_info := bi\<rparr> in
       ok (\<not> (batch_done s \<or> IsIndExist (ci_inds (decoder s)) (cur_ind (decoder s)) (p_ind p)), s))"

definition join_batch ::
  "time \<Rightarrow> ath_code_header \<Rightarrow> u8 list \<Rightarrow> parsed_code \<Rightarrow> u32 \<Rightarrow> rcv_ath \<Rightarrow> (bool \<times> rcv_ath) outcome" where
  "join_batch now hdr pkt p duration s =
     (if batch_id s > p_batch_id p then ok (False, s)
      else if batch_id s < p_batch_id p then and_then (new_batch now hdr pkt p duration s) (\<lambda>s. ok (True, s))
      else current_batch now p duration s)"

text \<open>Native packets are enqueued before the batch is decoded.\<close>

definition early_enqueue :: "u8 list \<Rightarrow> parsed_code \<Rightarrow> rcv_ath \<Rightarrow> (enqueue_call list \<times> rcv_ath) outcome" where
  "early_enqueue payload p s =
     (if p_ind p < p_k p then
        and_then (GetLen (p_ind p) (decoder s)) (\<lambda>len.
          if early_cnt s \<ge> length (early_inds s) then abort Out_Of_Bounds
          else ok ([(p_start_seq p + word_of_nat (p_ind p), len, payload)],
                   s\<lparr>early_inds := (early_inds s)[early_cnt s := p_ind p], early_cnt := early_cnt s + 1\<rparr>))
      else ok ([], s))"

text \<open>The loop over the packets of a decoded batch.\<close>

definition late_step ::
  "nat list \<Rightarrow> nat \<Rightarrow> u32 \<Rightarrow> nat \<Rightarrow> (enqueue_call list \<times> code_info) outcome \<Rightarrow> (enqueue_call list \<times> code_info) outcome" where
  "late_step inds cnt start i r =
     and_then r (\<lambda>(calls, d).
       if \<not> IsIndExist inds cnt i
       then and_then (PopPkt d) (\<lambda>(x, d). case x of
              None \<Rightarrow> abort Assert_Failed
            | Some (buf, len) \<Rightarrow> ok (calls @ [(start + word_of_nat i, len, map gf_byte buf)], d))
       else ok (calls, MoveToNextPkt d))"

definition finish_batch :: "parsed_code \<Rightarrow> rcv_ath \<Rightarrow> (enqueue_call list \<times> rcv_ath) outcome" where
  "finish_batch p s =
     (if cur_ind (decoder s) \<ge> p_k p then
        and_then (if early_cnt s \<noteq> p_k p
                  then and_then (DecodeBatch (decoder s)) (\<lambda>d.
                         for_range 0 (p_k p) (late_step (early_inds s) (early_cnt s) (p_start_seq p)) (ok ([], d)))
                  else ok ([], decoder s)) (\<lambda>(calls, d).
          ok (calls, s\<lparr>decoder := d, batch_done := True, the_batch_info := set_decoding_done True (the_batch_info s)\<rparr>))
      else ok ([], s))"

text \<open>From the check of the batch number to the end of the loop's body.\<close>

definition decode_pkt ::
  "time \<Rightarrow> ath_code_header \<Rightarrow> u16 \<Rightarrow> parsed_code \<Rightarrow> u32 \<Rightarrow> rcv_ath \<Rightarrow> (enqueue_call list \<times> rcv_ath) outcome" where
  "decode_pkt now hdr nread p duration s =
     and_then (join_batch now hdr (pkt_mem s) p duration s) (\<lambda>(useful, s).
       if \<not> useful then ok ([], s)
       else
         let payload = GetPayloadStart hdr (pkt_mem s) in
         and_then (PushPkt (nread - word_of_nat (GetFullHdrLen hdr)) (map GF payload) (p_ind p) (decoder s)) (\<lambda>(accepted, d).
           if \<not> accepted then abort Assert_Failed
           else
             and_then (early_enqueue payload p (s\<lparr>decoder := d\<rparr>)) (\<lambda>(early, s).
             and_then (finish_batch p s) (\<lambda>(late, s).
               ok (early @ late, s)))))"

text \<open>
  One pass: \<open>data\<close> is what \<open>RcvDownlinkPkt\<close> writes to the start of \<open>pkt\<close>, and \<open>nread\<close> the length it
  reports. \<open>my_radio\<close> is \<open>*radio_id\<close>.
\<close>

definition RxRcvAth ::
  "i32 \<Rightarrow> i32 \<Rightarrow> time \<Rightarrow> u8 list \<Rightarrow> u16 \<Rightarrow> rcv_ath \<Rightarrow> base_station_context
     \<Rightarrow> (enqueue_call list \<times> rcv_ath \<times> base_station_context) outcome" where
  "RxRcvAth my_client my_radio now data nread s bs =
     (let s = s\<lparr>pkt_mem := data @ drop (length data) (pkt_mem s)\<rparr>; hdr = code_header_at (pkt_mem s) in
      if \<not> is_good hdr then ok ([], s, bs)
      else and_then (ParseHeader hdr) (\<lambda>p.
        if p_client_id p \<noteq> my_client then ok ([], s, bs)
        else if \<not> my_radio = p_bs_id p then abort Assert_Failed
        else
          let s = s\<lparr>raw_pkt_buf := snd (PushPkts (raw_seq hdr) True (raw_pkt_buf s))\<rparr>; bs = set_bs_id (p_bs_id p) bs in
          and_then (GetRate hdr) (\<lambda>rate.
          and_then (decode_pkt now hdr nread p (per_pkt_duration nread rate) s) (\<lambda>(calls, s).
            ok (calls, s, bs)))))"

text \<open>The pass with its read, from the socket of the radio.\<close>

definition RcvDownlinkPkt :: "os \<Rightarrow> i32 \<Rightarrow> tun \<Rightarrow> ((u16 \<times> u8 list) \<times> tun) outcome" where
  "RcvDownlinkPkt sys radio_id t = Tun_Read sys kWspace (word_of_nat TUN_PKT_SIZE) radio_id t"

definition RxRcvAth_pass ::
  "os \<Rightarrow> i32 \<Rightarrow> i32 \<Rightarrow> time \<Rightarrow> rcv_ath \<Rightarrow> base_station_context \<Rightarrow> tun
     \<Rightarrow> (enqueue_call list \<times> rcv_ath \<times> base_station_context \<times> tun) outcome" where
  "RxRcvAth_pass sys my_client my_radio now s bs t =
     and_then (RcvDownlinkPkt sys my_radio t) (\<lambda>((nread, data), t).
       and_then (RxRcvAth my_client my_radio now data nread s bs) (\<lambda>(calls, s, bs). ok (calls, s, bs, t)))"

text \<open>What the system delivers is handled with its length, if it is no error.\<close>

lemma RxRcvAth_pass_read:
  assumes "recv_result sys (uint sock) 2000 = (int (length data), data)" "sock_fd_ath_tbl t my_radio = Some sock"
    "0 < length data" "length data \<le> 2000"
  shows "RxRcvAth_pass sys my_client my_radio now s bs t
    = and_then (RxRcvAth my_client my_radio now data (word_of_nat (length data)) s bs) (\<lambda>(calls, s, bs). ok (calls, s, bs, t))"
proof -
  have "(0 :: u16) < word_of_nat (length data)" using assms(3,4) by (simp add: word_less_nat_alt unat_of_nat)
  then show ?thesis using assms(1,2) by (simp add: RxRcvAth_pass_def RcvDownlinkPkt_def Tun_Read_def TUN_PKT_SIZE_def)
qed

section \<open>The calls on the receive buffer\<close>

text \<open>Until one has to wait; the result holds the calls that are left.\<close>

fun run_calls :: "enqueue_call list \<Rightarrow> rx_data_buf \<Rightarrow> (enqueue_call list \<times> rx_data_buf) outcome" where
  "run_calls [] b = ok ([], b)"
| "run_calls ((seq, len, pkt) # calls) b =
     and_then (EnqueuePkt seq len pkt b) (\<lambda>(returned, b).
       if returned then run_calls calls b else ok ((seq, len, pkt) # calls, b))"

section \<open>RxRcvCell\<close>

text \<open>
  The result names the radio whose buffer is used, \<open>radio_context_tbl_[radio_id]\<close>; a number that is
  not in the table makes \<open>operator[]\<close> insert a null pointer. \<open>known\<close> is the set of the table's keys.
\<close>

definition RxRcvCell ::
  "i32 list \<Rightarrow> i32 \<Rightarrow> u8 list \<Rightarrow> u8 list \<Rightarrow> ((i32 \<times> enqueue_call) option \<times> u8 list) outcome" where
  "RxRcvCell known my_client data mem =
     (let pkt = data @ drop (length data) mem; hdr = code_header_at pkt in
      if pkt ! 0 \<noteq> ATH_CODE then ok (None, pkt)
      else and_then (ParseHeader hdr) (\<lambda>p.
        if \<not> my_client = p_client_id p then abort Assert_Failed
        else if \<not> p_ind p < p_k p then abort Assert_Failed
        else and_then (hdr_lens hdr pkt) (\<lambda>lens.
          if p_bs_id p \<notin> set known then abort Null_Deref
          else ok (Some (p_bs_id p, p_start_seq p + word_of_nat (p_ind p), lens ! p_ind p, GetPayloadStart hdr pkt), pkt))))"

end
