(* ===== verification/Client_Threads.thy ===== *)
theory Client_Threads
  imports Ack_Packet Rx_Blocking Client_Rx
begin

text \<open>
  The other threads of \<open>src/wspace_client_scout.cc\<close>: \<open>RxWriteTun\<close> with \<open>OriginalSeqContext\<close>, the
  acknowledging threads \<open>RxCreateDataAck\<close> and \<open>RxCreateRawAck\<close>, and \<open>RxSendCell\<close>. One pass through
  the loop of a thread is one function; a pass that waits returns \<open>None\<close>.
\<close>

section \<open>OriginalSeqContext\<close>

record original_seq_context =
  max_seq :: u32

definition OriginalSeqContext :: original_seq_context where
  "OriginalSeqContext = \<lparr>max_seq = 0\<rparr>"

definition need_update :: "u32 \<Rightarrow> original_seq_context \<Rightarrow> bool \<times> original_seq_context" where
  "need_update cmp_seq c = (if cmp_seq > max_seq c then (True, c\<lparr>max_seq := cmp_seq\<rparr>) else (False, c))"

definition set_max_seq :: "u32 \<Rightarrow> original_seq_context \<Rightarrow> original_seq_context" where
  "set_max_seq seq c = c\<lparr>max_seq := seq\<rparr>"

text \<open>The contract: a gate that lets a key pass only above everything that passed before.\<close>

definition gate_step :: "('k \<Rightarrow> 'g \<Rightarrow> bool \<times> 'g) \<Rightarrow> 'k \<Rightarrow> 'k list \<times> 'g \<Rightarrow> 'k list \<times> 'g" where
  "gate_step pass k s = (case s of (ks, g) \<Rightarrow> case pass k g of (p, g') \<Rightarrow> (if p then ks @ [k] else ks, g'))"

locale monotone_gate =
  fixes pass :: "'k :: linorder \<Rightarrow> 'g \<Rightarrow> bool \<times> 'g" and level :: "'g \<Rightarrow> 'k"
  assumes pass_iff: "fst (pass k g) \<longleftrightarrow> level g < k"
    and pass_level: "level (snd (pass k g)) = max (level g) k"
begin

lemma passed_keys_increase:
  "fold (gate_step pass) ks ([], g) = (ks', g')
    \<Longrightarrow> sorted_wrt (<) ks' \<and> (\<forall>k\<in>set ks'. k \<le> level g') \<and> level g' = fold max ks (level g)"
proof (induction ks arbitrary: ks' g' rule: rev_induct)
  case (snoc k ks)
  obtain ks1 g1 where f: "fold (gate_step pass) ks ([], g) = (ks1, g1)" by fastforce
  obtain p g2 where p: "pass k g1 = (p, g2)" by fastforce
  note i = snoc.IH [OF f]
  have "gate_step pass k (ks1, g1) = (ks', g')" using snoc.prems f by simp
  then have r: "ks' = (if p then ks1 @ [k] else ks1)" "g' = g2" using p by (simp_all add: gate_step_def)
  have l: "p \<longleftrightarrow> level g1 < k" "level g2 = max (level g1) k" using pass_iff [of k g1] pass_level [of k g1] p by simp_all
  have "\<forall>x\<in>set ks'. x \<le> level g'" using i r l by (auto simp: le_max_iff_disj split: if_splits)
  moreover have "sorted_wrt (<) ks'" using i r l(1) by (auto simp: sorted_wrt_append)
  moreover have "level g' = fold max (ks @ [k]) (level g)" using i r(2) l(2) by (simp add: max.commute)
  ultimately show ?case by blast
qed simp

end

interpretation osc: monotone_gate need_update max_seq
  by unfold_locales (auto simp: need_update_def max_def)

section \<open>RxWriteTun\<close>

text \<open>What the thread decides about a packet of \<open>DequeuePkt\<close>: \<open>data\<close> are its bytes, put in a buffer that
  was cleared; the result is the original sequence number and the arguments of \<open>Tun::Write\<close>.\<close>

definition write_decision ::
  "i32 \<Rightarrow> u8 list \<Rightarrow> u16 \<Rightarrow> original_seq_context \<Rightarrow> (u32 \<times> u8 list \<times> u16) option \<times> original_seq_context" where
  "write_decision my_client data len c =
     (let pkt = data @ replicate (TUN_PKT_SIZE - length data) 0; hdr = ctc_header_at pkt in
      if pkt ! 0 = CONTROLLER_TO_CLIENT \<and> ctc_client_id hdr = my_client
      then let (update, c) = need_update (o_seq hdr) c in
        (if update then Some (o_seq hdr, drop CTC_HEADER_SIZE pkt, len - word_of_nat CTC_HEADER_SIZE) else None, c)
      else (None, c))"

definition RxWriteTun ::
  "os \<Rightarrow> i32 \<Rightarrow> dequeued \<Rightarrow> original_seq_context \<times> tun \<Rightarrow> (original_seq_context \<times> tun) outcome" where
  "RxWriteTun sys my_client r s =
     (case r of
        Got_Pkt data len \<Rightarrow>
          let (c, t) = s; (d, c) = write_decision my_client data len c in
          (case d of
             None \<Rightarrow> ok (c, t)
           | Some (q, buf, n) \<Rightarrow> and_then (Tun_Write sys kTun buf n 0 t) (\<lambda>(nwrite, t). ok (c, t)))
      | _ \<Rightarrow> ok s)"

text \<open>
  The writing threads of several radios share the context. The test and the update of \<open>need_update\<close>
  are under its lock, the write is not: other threads run in between.
\<close>

datatype writer = Between | Writing u32 "u8 list"

record tun_state =
  osc_ctx :: original_seq_context
  writers :: "nat \<Rightarrow> writer"
  tun_log :: "(u32 \<times> u8 list) list"

definition tun_init :: tun_state where
  "tun_init = \<lparr>osc_ctx = OriginalSeqContext, writers = (\<lambda>_. Between), tun_log = []\<rparr>"

inductive tun_step :: "i32 \<Rightarrow> tun_state \<Rightarrow> tun_state \<Rightarrow> bool" for my_client where
  pass_step: "writers s w = Between \<Longrightarrow> write_decision my_client data len (osc_ctx s) = (Some (q, buf, n), c)
      \<Longrightarrow> tun_step my_client s (s\<lparr>osc_ctx := c, writers := (writers s)(w := Writing q (take (unat n) buf))\<rparr>)"
| skip_step: "writers s w = Between \<Longrightarrow> write_decision my_client data len (osc_ctx s) = (None, c)
      \<Longrightarrow> tun_step my_client s (s\<lparr>osc_ctx := c\<rparr>)"
| write_step: "writers s w = Writing q buf
      \<Longrightarrow> tun_step my_client s (s\<lparr>writers := (writers s)(w := Between), tun_log := tun_log s @ [(q, buf)]\<rparr>)"

inductive_simps tun_step_simps: "tun_step my_client s s'"

definition tun_reachable :: "i32 \<Rightarrow> tun_state \<Rightarrow> bool" where
  "tun_reachable my_client s \<longleftrightarrow> (tun_step my_client)\<^sup>*\<^sup>* tun_init s"

definition tun_inv :: "tun_state \<Rightarrow> bool" where
  "tun_inv s \<longleftrightarrow> distinct (map fst (tun_log s)) \<and> (\<forall>q\<in>set (map fst (tun_log s)). q \<le> max_seq (osc_ctx s))
     \<and> (\<forall>w q buf. writers s w = Writing q buf \<longrightarrow> q \<le> max_seq (osc_ctx s) \<and> q \<notin> set (map fst (tun_log s)))
     \<and> (\<forall>w w' q buf buf'. writers s w = Writing q buf \<longrightarrow> writers s w' = Writing q buf' \<longrightarrow> w = w')"

lemma write_decision_level:
  "write_decision my_client data len c = (Some (q, buf, n), c') \<Longrightarrow> max_seq c < q \<and> max_seq c' = q"
  "write_decision my_client data len c = (None, c') \<Longrightarrow> c' = c"
  by (auto simp: write_decision_def need_update_def Let_def split: if_splits)

lemma tun_step_inv: "tun_step my_client s s' \<Longrightarrow> tun_inv s \<Longrightarrow> tun_inv s'"
proof (induction rule: tun_step.induct)
  case (pass_step s w data len q buf n c)
  have l: "max_seq (osc_ctx s) < q" "max_seq c = q" using write_decision_level(1) [OF pass_step.hyps(2)] by simp_all
  have "x < q" if "x \<le> max_seq (osc_ctx s)" for x using that l(1) by simp
  then show ?case using pass_step.prems l(2) unfolding tun_inv_def by (auto split: if_splits) (force+)?
next
  case (skip_step s w data len c)
  then show ?case using write_decision_level(2) by fastforce
next
  case (write_step s w q buf)
  then show ?case unfolding tun_inv_def by (auto split: if_splits) (metis+)?
qed

lemma tun_reachable_inv: "tun_reachable my_client s \<Longrightarrow> tun_inv s"
  unfolding tun_reachable_def
proof (induction rule: rtranclp_induct)
  case base
  show ?case by (simp add: tun_inv_def tun_init_def)
qed (rule tun_step_inv)

section \<open>Acknowledgements\<close>

text \<open>Sending one: \<open>tun_.Write(Tun::kController, (char*)ack_pkt, ack_pkt->GetLen(), 0)\<close>.\<close>

definition send_ack :: "os \<Rightarrow> u8 list \<Rightarrow> ack_pkt \<Rightarrow> tun \<Rightarrow> (u16 \<times> tun) outcome" where
  "send_ack sys mem a t = and_then (GetLen_ack a) (\<lambda>len. Tun_Write sys kController (ack_bytes mem a) len 0 t)"

text \<open>
  \<open>RxCreateDataAck\<close>: the search on the receive buffer \<open>b\<close> of the radio \<open>r\<close>, with the static variable
  \<open>batch_id_prev\<close> of \<open>FindNackSeqNum\<close>, and the datagram. \<open>None\<close>: the search waits for packets; when it
  is woken, the pass goes on with \<open>RxCreateDataAck_wake\<close> on the state it finds then.
\<close>

definition send_data_ack ::
  "os \<Rightarrow> u8 list \<Rightarrow> radio_context \<Rightarrow> u32 list \<Rightarrow> u32 \<Rightarrow> ack_pkt \<Rightarrow> tun \<Rightarrow> (ack_pkt \<times> tun) outcome" where
  "send_data_ack sys mem r nacks end_seq a t =
     and_then (push_list PushNack nacks (ack_Init DATA_ACK a)) (\<lambda>a.
       let a = set_ids (tun_client_id t) (radio_bs_id r) (set_end_seq end_seq a) in
       and_then (send_ack sys mem a t) (\<lambda>(n, t). ok (a, t)))"

type_synonym data_ack_result = "(ack_pkt \<times> radio_context \<times> u32 \<times> rx_data_buf \<times> tun) option outcome"

definition after_search ::
  "os \<Rightarrow> u8 list \<Rightarrow> radio_context \<Rightarrow> ack_pkt \<Rightarrow> tun \<Rightarrow> nack_report \<times> batch_info \<times> u32 \<times> rx_data_buf \<Rightarrow> data_ack_result" where
  "after_search sys mem r a t found =
     (case found of (report, bi, prev, b) \<Rightarrow>
        (case report of
           Nack_Wait \<Rightarrow> ok None
         | Nacks nacks end_seq \<Rightarrow> and_then (send_data_ack sys mem r nacks end_seq a t) (\<lambda>(a, t).
             ok (Some (a, r\<lparr>the_batch_info := bi\<rparr>, prev, b, t)))))"

definition RxCreateDataAck ::
  "os \<Rightarrow> int \<Rightarrow> u8 list \<Rightarrow> time \<Rightarrow> time \<Rightarrow> radio_context \<Rightarrow> u32 \<Rightarrow> rx_data_buf \<Rightarrow> ack_pkt \<Rightarrow> tun \<Rightarrow> data_ack_result" where
  "RxCreateDataAck sys block_time mem now end_time r prev b a t =
     and_then (FindNackSeqNum block_time ACK_WINDOW now end_time (the_batch_info r) prev b) (after_search sys mem r a t)"

definition RxCreateDataAck_wake ::
  "os \<Rightarrow> int \<Rightarrow> u8 list \<Rightarrow> time \<Rightarrow> time \<Rightarrow> radio_context \<Rightarrow> u32 \<Rightarrow> rx_data_buf \<Rightarrow> ack_pkt \<Rightarrow> tun \<Rightarrow> data_ack_result" where
  "RxCreateDataAck_wake sys block_time mem now end_time r prev b a t =
     and_then (FindNackSeqNum_wake block_time ACK_WINDOW now end_time (the_batch_info r) prev b) (after_search sys mem r a t)"

text \<open>\<open>None\<close>: \<open>PopPktStatus\<close> waits.\<close>

definition PushRawNack :: "u32 \<Rightarrow> ack_pkt \<Rightarrow> ack_pkt outcome" where
  "PushRawNack seq a = and_then (PushNack seq a) (\<lambda>a. if ack_IsFull a then abort Perror_Exit else ok a)"

definition RxCreateRawAck ::
  "os \<Rightarrow> u32 \<Rightarrow> u8 list \<Rightarrow> radio_context \<Rightarrow> ack_pkt \<Rightarrow> tun \<Rightarrow> (ack_pkt \<times> radio_context \<times> tun) option outcome" where
  "RxCreateRawAck sys min_pkt_cnt mem r a t =
     (case PopPktStatus min_pkt_cnt (raw_pkt_buf r) of
        None \<Rightarrow> ok None
      | Some ((nack_vec, end_seq, n), b) \<Rightarrow>
          and_then (push_list PushRawNack nack_vec (ack_Init RAW_ACK a)) (\<lambda>a.
            let a = set_ids (tun_client_id t) (radio_bs_id r) (set_num_pkts n (set_end_seq end_seq a)) in
            and_then (send_ack sys mem a t) (\<lambda>(k, t). ok (Some (a, r\<lparr>raw_pkt_buf := b\<rparr>, t)))))"

section \<open>RxSendCell\<close>

text \<open>The type byte in front of what is read from the tun device.\<close>

definition RxSendCell :: "os \<Rightarrow> u8 list \<Rightarrow> tun \<Rightarrow> (u8 list \<times> tun) outcome" where
  "RxSendCell sys pkt t =
     and_then (Tun_Read sys kTun (word_of_nat (TUN_PKT_SIZE - CELL_DATA_HEADER_SIZE)) 0 t) (\<lambda>((nread, data), t).
       let pkt = [CELL_DATA] @ data @ drop (1 + length data) pkt in
       and_then (Tun_Write sys kController pkt (nread + 1) 0 t) (\<lambda>(n, t). ok (pkt, t)))"

end
