(* ===== verification/Object_Locks.thy ===== *)
theory Object_Locks
  imports Client_Rx Client_Threads Monitor
begin

text \<open>
  The other objects with a lock, statement by statement: \<open>BatchInfo\<close> between \<open>RxRcvAth\<close> and
  \<open>RxCreateDataAck\<close> (\<open>src/wspace_asym_util.cc\<close>), \<open>OriginalSeqContext\<close> between the writing threads
  and \<open>BaseStationContext\<close> between all threads (\<open>src/wspace_client_scout.cc\<close>). The interpretations
  of \<open>monitor\<close> show that their calls have the effect \<open>Batch_Info\<close>, \<open>Client_Threads\<close> and \<open>Client_Rx\<close>
  give them, however the statements of the threads interleave.
\<close>

section \<open>BatchInfo\<close>

record batch_args =
  ba_now :: time
  ba_id :: u32
  ba_seq :: u32
  ba_done :: bool
  ba_ind :: int
  ba_n :: int
  ba_dur :: u32

text \<open>\<open>Update_Left\<close> uses the last four arguments and the clock.\<close>

datatype batch_call =
    Set_Batch batch_args
  | Update_Left batch_args
  | Get_Batch time
  | Ask_Done time
  | Set_Decoding bool
  | Get_ID

datatype batch_result = Batch_Set | Batch_Answer u32 bool | Batch_Done bool | Batch_ID u32

datatype batch_place =
    Bi_Id batch_args
  | Bi_Seq batch_args
  | Bi_Done batch_args
  | Bi_Assert batch_args
  | Bi_Left batch_args
  | Bi_Now batch_args
  | Bi_Unlock
  | Bi_Get time
  | Bi_Test time "u32 option"
  | Bi_Timeout time "u32 option"
  | Bi_Read "u32 option"
  | Bi_Return "u32 option" bool
  | Bi_Set bool
  | Bi_Get_ID
  | Bi_Return_ID u32

definition left_assert :: "batch_args \<Rightarrow> bool" where
  "left_assert a \<longleftrightarrow> ba_ind a \<ge> 0 \<and> ba_ind a < ba_n a \<and> ba_n a > 0"

text \<open>\<open>decoding_done(false)\<close> is a part of \<open>GetBatchInfo\<close>, which has the number it will return in the option.\<close>

fun batch_statement :: "batch_place \<Rightarrow> batch_info \<Rightarrow> (batch_place, batch_info, batch_result) statement" where
  "batch_statement (Bi_Id a) b = Go (Bi_Seq a) (b\<lparr>bi_batch_id := ba_id a\<rparr>)"
| "batch_statement (Bi_Seq a) b = Go (Bi_Done a) (b\<lparr>bi_highest_decoded_seq := ba_seq a\<rparr>)"
| "batch_statement (Bi_Done a) b = Go (Bi_Assert a) (b\<lparr>bi_decoding_done := ba_done a\<rparr>)"
| "batch_statement (Bi_Assert a) b = (if \<not> left_assert a then Fail Assert_Failed else Go (Bi_Left a) b)"
| "batch_statement (Bi_Left a) b = Go (Bi_Now a) (b\<lparr>time_left := ba_dur a * word_of_int (ba_n a - ba_ind a - 1)\<rparr>)"
| "batch_statement (Bi_Now a) b = Go Bi_Unlock (b\<lparr>cur_recv_time := ba_now a\<rparr>)"
| "batch_statement Bi_Unlock b = Leave Batch_Set"
| "batch_statement (Bi_Get now) b = Go (Bi_Test now (Some (bi_highest_decoded_seq b))) b"
| "batch_statement (Bi_Test now q) b = (if \<not> bi_decoding_done b then Go (Bi_Timeout now q) b else Go (Bi_Read q) b)"
| "batch_statement (Bi_Timeout now q) b = Go (Bi_Read q) (b\<lparr>bi_decoding_done := IsTimeOut now b\<rparr>)"
| "batch_statement (Bi_Read q) b = Go (Bi_Return q (bi_decoding_done b)) b"
| "batch_statement (Bi_Return q d) b = Leave (case q of None \<Rightarrow> Batch_Done d | Some s \<Rightarrow> Batch_Answer s d)"
| "batch_statement (Bi_Set d) b = Go Bi_Unlock (b\<lparr>bi_decoding_done := d\<rparr>)"
| "batch_statement Bi_Get_ID b = Go (Bi_Return_ID (bi_batch_id b)) b"
| "batch_statement (Bi_Return_ID i) b = Leave (Batch_ID i)"

fun batch_start :: "batch_call \<Rightarrow> batch_place" where
  "batch_start (Set_Batch a) = Bi_Id a"
| "batch_start (Update_Left a) = Bi_Left a"
| "batch_start (Get_Batch now) = Bi_Get now"
| "batch_start (Ask_Done now) = Bi_Test now None"
| "batch_start (Set_Decoding d) = Bi_Set d"
| "batch_start Get_ID = Bi_Get_ID"

text \<open>\<open>UpdateTimeLeft\<close> asserts its arguments before it takes the lock.\<close>

datatype batch_thread = Batch_Rcv | Batch_Ack

fun batch_may :: "batch_thread \<Rightarrow> batch_call \<Rightarrow> bool" where
  "batch_may t (Update_Left a) \<longleftrightarrow> left_assert a"
| "batch_may t c \<longleftrightarrow> True"

fun batch_op :: "batch_call \<Rightarrow> batch_info \<Rightarrow> (batch_result \<times> batch_info) option" where
  "batch_op (Set_Batch a) b =
     (case SetBatchInfo (ba_now a) (ba_id a) (ba_seq a) (ba_done a) (ba_ind a) (ba_n a) (ba_dur a) b of
        Inl e \<Rightarrow> None | Inr b' \<Rightarrow> Some (Batch_Set, b'))"
| "batch_op (Update_Left a) b =
     (case UpdateTimeLeft (ba_now a) (ba_ind a) (ba_n a) (ba_dur a) b of Inl e \<Rightarrow> None | Inr b' \<Rightarrow> Some (Batch_Set, b'))"
| "batch_op (Get_Batch now) b = (let ((s, d), b') = GetBatchInfo now b in Some (Batch_Answer s d, b'))"
| "batch_op (Ask_Done now) b = (let (d, b') = decoding_done now b in Some (Batch_Done d, b'))"
| "batch_op (Set_Decoding d) b = Some (Batch_Set, set_decoding_done d b)"
| "batch_op Get_ID b = Some (Batch_ID (GetBatchID b), b)"

text \<open>The proof outline.\<close>

fun set_at :: "batch_args \<Rightarrow> batch_info \<Rightarrow> batch_place \<Rightarrow> batch_info \<Rightarrow> bool" where
  "set_at a x (Bi_Id a') y \<longleftrightarrow> a' = a \<and> y = x"
| "set_at a x (Bi_Seq a') y \<longleftrightarrow> a' = a \<and> y = x\<lparr>bi_batch_id := ba_id a\<rparr>"
| "set_at a x (Bi_Done a') y \<longleftrightarrow> a' = a \<and> y = x\<lparr>bi_batch_id := ba_id a, bi_highest_decoded_seq := ba_seq a\<rparr>"
| "set_at a x (Bi_Assert a') y \<longleftrightarrow> a' = a
     \<and> y = x\<lparr>bi_batch_id := ba_id a, bi_highest_decoded_seq := ba_seq a, bi_decoding_done := ba_done a\<rparr>"
| "set_at a x (Bi_Left a') y \<longleftrightarrow> a' = a \<and> left_assert a
     \<and> y = x\<lparr>bi_batch_id := ba_id a, bi_highest_decoded_seq := ba_seq a, bi_decoding_done := ba_done a\<rparr>"
| "set_at a x (Bi_Now a') y \<longleftrightarrow> a' = a \<and> left_assert a
     \<and> y = x\<lparr>bi_batch_id := ba_id a, bi_highest_decoded_seq := ba_seq a, bi_decoding_done := ba_done a,
           time_left := ba_dur a * word_of_int (ba_n a - ba_ind a - 1)\<rparr>"
| "set_at a x Bi_Unlock y \<longleftrightarrow> batch_op (Set_Batch a) x = Some (Batch_Set, y)"
| "set_at a x p y \<longleftrightarrow> False"

fun left_at :: "batch_args \<Rightarrow> batch_info \<Rightarrow> batch_place \<Rightarrow> batch_info \<Rightarrow> bool" where
  "left_at a x (Bi_Left a') y \<longleftrightarrow> a' = a \<and> left_assert a \<and> y = x"
| "left_at a x (Bi_Now a') y \<longleftrightarrow> a' = a \<and> left_assert a \<and> y = x\<lparr>time_left := ba_dur a * word_of_int (ba_n a - ba_ind a - 1)\<rparr>"
| "left_at a x Bi_Unlock y \<longleftrightarrow> batch_op (Update_Left a) x = Some (Batch_Set, y)"
| "left_at a x p y \<longleftrightarrow> False"

fun done_at :: "time \<Rightarrow> u32 option \<Rightarrow> batch_info \<Rightarrow> batch_place \<Rightarrow> batch_info \<Rightarrow> bool" where
  "done_at now q x (Bi_Test now' q') y \<longleftrightarrow> now' = now \<and> q' = q \<and> y = x"
| "done_at now q x (Bi_Timeout now' q') y \<longleftrightarrow> now' = now \<and> q' = q \<and> y = x \<and> \<not> bi_decoding_done x"
| "done_at now q x (Bi_Read q') y \<longleftrightarrow> q' = q \<and> y = snd (decoding_done now x)"
| "done_at now q x (Bi_Return q' d) y \<longleftrightarrow> q' = q \<and> (d, y) = decoding_done now x"
| "done_at now q x p y \<longleftrightarrow> False"

fun batch_at :: "batch_call \<Rightarrow> batch_info \<Rightarrow> batch_place \<Rightarrow> batch_info \<Rightarrow> bool" where
  "batch_at (Set_Batch a) x p y \<longleftrightarrow> set_at a x p y"
| "batch_at (Update_Left a) x p y \<longleftrightarrow> left_at a x p y"
| "batch_at (Get_Batch now) x p y \<longleftrightarrow> p = Bi_Get now \<and> y = x \<or> done_at now (Some (bi_highest_decoded_seq x)) x p y"
| "batch_at (Ask_Done now) x p y \<longleftrightarrow> done_at now None x p y"
| "batch_at (Set_Decoding d) x p y \<longleftrightarrow> p = Bi_Set d \<and> y = x \<or> p = Bi_Unlock \<and> y = set_decoding_done d x"
| "batch_at Get_ID x p y \<longleftrightarrow> p = Bi_Get_ID \<and> y = x \<or> p = Bi_Return_ID (bi_batch_id x) \<and> y = x"

lemmas batch_ops = SetBatchInfo_def UpdateTimeLeft_def GetBatchInfo_def decoding_done_def set_decoding_done_def GetBatchID_def
  left_assert_def

lemma batch_waits: "batch_statement p y \<noteq> Wait p'" "batch_statement p y \<noteq> Signal p'"
  by (cases p; auto)+

lemma set_at_go: "set_at a x p y \<Longrightarrow> batch_statement p y = Go p' y' \<Longrightarrow> set_at a x p' y'"
  by (cases p) (auto simp: batch_ops split: if_splits)

lemma left_at_go: "left_at a x p y \<Longrightarrow> batch_statement p y = Go p' y' \<Longrightarrow> left_at a x p' y'"
  by (cases p) (auto simp: batch_ops split: if_splits)

lemma done_at_go: "done_at now q x p y \<Longrightarrow> batch_statement p y = Go p' y' \<Longrightarrow> done_at now q x p' y'"
  by (cases p) (auto simp: batch_ops split: if_splits)

lemma batch_at_go: "batch_at c x p y \<Longrightarrow> batch_statement p y = Go p' y' \<Longrightarrow> batch_at c x p' y'"
  using set_at_go [of _ x p y p' y'] left_at_go [of _ x p y p' y'] done_at_go [of _ _ x p y p' y']
  by (cases c) (auto simp: batch_ops)

lemma batch_at_leave: "batch_at c x p y \<Longrightarrow> batch_statement p y = Leave r \<Longrightarrow> batch_op c x = Some (r, y)"
  by (cases c; cases p) (auto simp: GetBatchInfo_def GetBatchID_def split: prod.splits if_splits)

lemma batch_at_start: "batch_may t c \<Longrightarrow> batch_at c x (batch_start c) x"
  by (cases c) auto

text \<open>Each place is at least one statement nearer to the unlock.\<close>

fun batch_variant :: "batch_place \<Rightarrow> batch_info \<Rightarrow> nat" where
  "batch_variant (Bi_Id a) y = 6"
| "batch_variant (Bi_Seq a) y = 5"
| "batch_variant (Bi_Done a) y = 4"
| "batch_variant (Bi_Assert a) y = 3"
| "batch_variant (Bi_Left a) y = 2"
| "batch_variant (Bi_Get now) y = 4"
| "batch_variant (Bi_Test now q) y = 3"
| "batch_variant (Bi_Timeout now q) y = 2"
| "batch_variant Bi_Unlock y = 0"
| "batch_variant (Bi_Return q d) y = 0"
| "batch_variant (Bi_Return_ID i) y = 0"
| "batch_variant p y = 1"

lemma batch_go_less: "batch_statement p y = Go p' y' \<Longrightarrow> batch_variant p' y' < batch_variant p y"
  by (cases p) (auto split: if_splits)

lemma batch_at_fail: "batch_at c x p y \<Longrightarrow> batch_statement p y = Fail a \<Longrightarrow> batch_op c x = None"
  by (cases c; cases p) (auto simp: SetBatchInfo_def UpdateTimeLeft_def left_assert_def split: if_splits)

interpretation bi: monitor_ends batch_statement batch_start batch_may batch_op batch_at batch_variant
  by unfold_locales (fact batch_at_start batch_at_go batch_at_leave batch_go_less batch_at_fail | simp add: batch_waits)+

text \<open>What a snapshot is of: the last batch that was set.\<close>

fun sets_batch :: "batch_call \<Rightarrow> bool" where
  "sets_batch (Set_Batch a) \<longleftrightarrow> True"
| "sets_batch c \<longleftrightarrow> False"

abbreviation batch_locked :: "batch_info \<Rightarrow> (batch_thread, batch_call, batch_place, batch_info, batch_result) monitor \<Rightarrow> bool" where
  "batch_locked b0 \<equiv> monitor_reachable batch_statement batch_start batch_may b0"

lemma batch_op_set: "batch_op (Set_Batch a) b = Some (r, b') \<Longrightarrow> left_assert a \<and> bi_batch_id b' = ba_id a
    \<and> bi_highest_decoded_seq b' = ba_seq a \<and> bi_decoding_done b' = ba_done a
    \<and> time_left b' = ba_dur a * word_of_int (ba_n a - ba_ind a - 1) \<and> cur_recv_time b' = ba_now a"
  by (auto simp: batch_ops split: if_splits)

lemma batch_op_keeps: "batch_op c b = Some (r, b') \<Longrightarrow> \<not> sets_batch c
    \<Longrightarrow> bi_batch_id b' = bi_batch_id b \<and> bi_highest_decoded_seq b' = bi_highest_decoded_seq b"
  by (cases c) (auto simp: batch_ops split: if_splits sum.splits)

lemma replay_keeps: "replay batch_op log b = Some b' \<Longrightarrow> \<forall>c\<in>set (calls_made log). \<not> sets_batch c
    \<Longrightarrow> bi_batch_id b' = bi_batch_id b \<and> bi_highest_decoded_seq b' = bi_highest_decoded_seq b"
  by (induction batch_op log b rule: replay.induct)
    (auto dest!: batch_op_keeps split: option.splits if_splits)

lemma replay_ids: "replay batch_op log b = Some b' \<Longrightarrow> \<forall>c\<in>set (calls_made log). \<not> sets_batch c
    \<Longrightarrow> (v, Get_ID, Batch_ID i) \<in> set log \<Longrightarrow> i = bi_batch_id b"
proof (induction log arbitrary: b)
  case (Cons e log)
  obtain t c r where e: "e = (t, c, r)" by (cases e) auto
  obtain y where y: "batch_op c b = Some (r, y)" "replay batch_op log y = Some b'"
    using Cons.prems(1) by (auto simp: e split: option.splits if_splits)
  show ?case
  proof (cases "(v, Get_ID, Batch_ID i) = e")
    case True
    then show ?thesis using y(1) by (auto simp: e GetBatchID_def)
  next
    case False
    then show ?thesis using Cons.IH [OF y(2)] Cons.prems(2,3) batch_op_keeps [OF y(1)] by (auto simp: e)
  qed
qed simp

lemma replay_only_id: "replay batch_op log b = Some b' \<Longrightarrow> set (calls_made log) \<subseteq> {Get_ID} \<Longrightarrow> b' = b"
  by (induction batch_op log b rule: replay.induct) (auto split: option.splits if_splits)

section \<open>OriginalSeqContext\<close>

datatype gate_call = Need_Update u32 | Set_Max u32

datatype gate_result = Updates bool | Max_Set

datatype gate_place = Os_Test u32 | Os_Set u32 | Os_Unlock bool | Os_Max u32 | Os_Max_Unlock

fun gate_statement :: "gate_place \<Rightarrow> original_seq_context \<Rightarrow> (gate_place, original_seq_context, gate_result) statement" where
  "gate_statement (Os_Test k) c = (if k > max_seq c then Go (Os_Set k) c else Go (Os_Unlock False) c)"
| "gate_statement (Os_Set k) c = Go (Os_Unlock True) (c\<lparr>max_seq := k\<rparr>)"
| "gate_statement (Os_Unlock u) c = Leave (Updates u)"
| "gate_statement (Os_Max k) c = Go Os_Max_Unlock (c\<lparr>max_seq := k\<rparr>)"
| "gate_statement Os_Max_Unlock c = Leave Max_Set"

fun gate_start :: "gate_call \<Rightarrow> gate_place" where
  "gate_start (Need_Update k) = Os_Test k"
| "gate_start (Set_Max k) = Os_Max k"

fun gate_op :: "gate_call \<Rightarrow> original_seq_context \<Rightarrow> (gate_result \<times> original_seq_context) option" where
  "gate_op (Need_Update k) c = (let (u, c') = need_update k c in Some (Updates u, c'))"
| "gate_op (Set_Max k) c = Some (Max_Set, set_max_seq k c)"

fun gate_at :: "gate_call \<Rightarrow> original_seq_context \<Rightarrow> gate_place \<Rightarrow> original_seq_context \<Rightarrow> bool" where
  "gate_at (Need_Update k) x p y \<longleftrightarrow> p = Os_Test k \<and> y = x \<or> p = Os_Set k \<and> k > max_seq x \<and> y = x
     \<or> (\<exists>u. p = Os_Unlock u \<and> (u, y) = need_update k x)"
| "gate_at (Set_Max k) x p y \<longleftrightarrow> p = Os_Max k \<and> y = x \<or> p = Os_Max_Unlock \<and> y = set_max_seq k x"

text \<open>The writing threads call \<open>need_update\<close>; nothing calls \<open>set_max_seq\<close>.\<close>

fun gate_may :: "nat \<Rightarrow> gate_call \<Rightarrow> bool" where
  "gate_may t (Need_Update k) \<longleftrightarrow> True"
| "gate_may t (Set_Max k) \<longleftrightarrow> False"

interpretation gate: monitor gate_statement gate_start gate_may gate_op gate_at
proof
  show "gate_may t c \<Longrightarrow> gate_at c x (gate_start c) x" for t c x by (cases c) auto
  show "gate_at c x p y \<Longrightarrow> gate_statement p y = Go p' y' \<Longrightarrow> gate_at c x p' y'" for c x p y p' y'
    by (cases c; cases p) (auto simp: need_update_def set_max_seq_def split: if_splits)
  show "gate_at c x p y \<Longrightarrow> gate_statement p y = Signal p' \<Longrightarrow> gate_at c x p' y" for c x p y p'
    by (cases p) (auto split: if_splits)
  show "gate_at c x p y \<Longrightarrow> gate_statement p y = Wait p' \<Longrightarrow> p' = gate_start c \<and> y = x \<and> gate_op c x = None" for c x p y p'
    by (cases p) (auto split: if_splits)
  show "gate_at c x p y \<Longrightarrow> gate_statement p y = Leave r \<Longrightarrow> gate_op c x = Some (r, y)" for c x p y r
    by (cases c; cases p) (auto split: prod.splits if_splits)
qed

text \<open>The sequence numbers that passed, in the order of the unlocks: they increase, so none passes twice.\<close>

fun passed_by :: "nat \<times> gate_call \<times> gate_result \<Rightarrow> u32 list" where
  "passed_by (t, Need_Update k, Updates u) = (if u then [k] else [])"
| "passed_by e = []"

lemma replay_gate:
  assumes "replay gate_op log c = Some c'" "\<forall>e\<in>set log. \<exists>t k r. e = (t, Need_Update k, r)"
  shows "\<exists>keys. fold (gate_step need_update) keys ([], c) = (concat (map passed_by log), c')"
  using assms
proof (induction log arbitrary: c' rule: rev_induct)
  case Nil
  then show ?case by (intro exI [of _ "[]"]) simp
next
  case (snoc e log)
  obtain t k r where e: "e = (t, Need_Update k, r)" using snoc.prems(2) by auto
  obtain y where y: "replay gate_op log c = Some y" "gate_op (Need_Update k) y = Some (r, c')"
    using replay_split [of gate_op log t "Need_Update k" r "[]" c c'] snoc.prems(1) e by auto
  obtain keys where keys: "fold (gate_step need_update) keys ([], c) = (concat (map passed_by log), y)"
    using snoc.IH [OF y(1)] snoc.prems(2) by auto
  obtain u where u: "need_update k y = (u, c')" "r = Updates u" using y(2) by (auto split: prod.splits)
  have "gate_step need_update k (concat (map passed_by log), y) = (concat (map passed_by (log @ [e])), c')"
    using u e by (simp add: gate_step_def)
  then show ?case using keys by (intro exI [of _ "keys @ [k]"]) simp
qed

abbreviation gate_locked :: "(nat, gate_call, gate_place, original_seq_context, gate_result) monitor \<Rightarrow> bool" where
  "gate_locked \<equiv> monitor_reachable gate_statement gate_start gate_may OriginalSeqContext"

lemma gate_locked_passes:
  assumes "gate_locked s" shows "sorted_wrt (<) (concat (map passed_by (completed s)))"
proof -
  have "\<exists>t k r. e = (t, Need_Update k, r)" if "e \<in> set (completed s)" for e
  proof -
    obtain t c r where e: "e = (t, c, r)" by (cases e) auto
    have "gate_may t c" using gate.completed_may [OF assms] that unfolding e by blast
    then show ?thesis unfolding e by (cases c) auto
  qed
  moreover obtain x where "replay gate_op (completed s) OriginalSeqContext = Some x"
    using gate.reachable_atomic [OF assms] by (auto simp: gate.atomic_def)
  ultimately obtain keys where "fold (gate_step need_update) keys ([], OriginalSeqContext) = (concat (map passed_by (completed s)), x)"
    using replay_gate by blast
  then show ?thesis using osc.passed_keys_increase by blast
qed

section \<open>BaseStationContext\<close>

datatype bs_call = Get_Bs | Set_Bs i32

datatype bs_result = Is_Bs i32 | Bs_Set

datatype bs_place = Bs_Read | Bs_Return i32 | Bs_Write i32 | Bs_Unlock

fun bs_statement :: "bs_place \<Rightarrow> base_station_context \<Rightarrow> (bs_place, base_station_context, bs_result) statement" where
  "bs_statement Bs_Read c = Go (Bs_Return (the_bs_id c)) c"
| "bs_statement (Bs_Return i) c = Leave (Is_Bs i)"
| "bs_statement (Bs_Write i) c = Go Bs_Unlock (c\<lparr>the_bs_id := i\<rparr>)"
| "bs_statement Bs_Unlock c = Leave Bs_Set"

fun bs_start :: "bs_call \<Rightarrow> bs_place" where
  "bs_start Get_Bs = Bs_Read"
| "bs_start (Set_Bs i) = Bs_Write i"

fun bs_op :: "bs_call \<Rightarrow> base_station_context \<Rightarrow> (bs_result \<times> base_station_context) option" where
  "bs_op Get_Bs c = Some (Is_Bs (bs_id c), c)"
| "bs_op (Set_Bs i) c = Some (Bs_Set, set_bs_id i c)"

fun bs_at :: "bs_call \<Rightarrow> base_station_context \<Rightarrow> bs_place \<Rightarrow> base_station_context \<Rightarrow> bool" where
  "bs_at Get_Bs x p y \<longleftrightarrow> y = x \<and> (p = Bs_Read \<or> p = Bs_Return (bs_id x))"
| "bs_at (Set_Bs i) x p y \<longleftrightarrow> p = Bs_Write i \<and> y = x \<or> p = Bs_Unlock \<and> y = set_bs_id i x"

interpretation bs: monitor bs_statement bs_start "\<lambda>(t :: nat) c. True" bs_op bs_at
proof
  show "bs_at c x (bs_start c) x" for c x by (cases c) auto
  show "bs_at c x p y \<Longrightarrow> bs_statement p y = Go p' y' \<Longrightarrow> bs_at c x p' y'" for c x p y p' y'
    by (cases c; cases p) (auto simp: bs_id_def set_bs_id_def)
  show "bs_at c x p y \<Longrightarrow> bs_statement p y = Signal p' \<Longrightarrow> bs_at c x p' y" for c x p y p'
    by (cases p) auto
  show "bs_at c x p y \<Longrightarrow> bs_statement p y = Wait p' \<Longrightarrow> p' = bs_start c \<and> y = x \<and> bs_op c x = None" for c x p y p'
    by (cases p) auto
  show "bs_at c x p y \<Longrightarrow> bs_statement p y = Leave r \<Longrightarrow> bs_op c x = Some (r, y)" for c x p y r
    by (cases c; cases p) auto
qed

end
