(* ===== verification/Monitor_Properties.thy ===== *)
theory Monitor_Properties
  imports Raw_Locks Object_Locks
begin

text \<open>
  What the locks of \<open>RxRawBuf\<close> and \<open>BatchInfo\<close> are for: the record of raw packets reports every
  missing number as often as it is set to and wakes its reader, and a snapshot of the batch is never half written.
\<close>

section \<open>The raw packet record\<close>

text \<open>The numbers up to the last one seen that were not pushed as good, and those the collections returned.\<close>

definition lost_numbers :: "(raw_thread, raw_event, raw_place, raw_buf, raw_result) monitor \<Rightarrow> u32 set" where
  "lost_numbers s = {q. 0 < q \<and> q \<le> rb_end_seq (object s)} - {q. (Raw_Rcv, Push_Event q True, Pushed True) \<in> set (completed s)}"

definition reported_numbers :: "(raw_thread, raw_event, raw_place, raw_buf, raw_result) monitor \<Rightarrow> u32 list" where
  "reported_numbers s = concat (map reported_by (completed s))"

text \<open>
  C7: with \<open>RxRcvAth\<close> and \<open>RxCreateRawAck\<close> interleaved statement by statement, a record that does not
  overflow gets every missing raw sequence number reported as often as it is set to. With the count
  \<open>mx\<close> of option -A (1 without the option; 0 stands for 256, because the counter has 8 bits), a
  missing number is still recorded with the number of its reports so far, fewer than \<open>mx\<close>, or it is
  no longer recorded and was reported exactly \<open>mx\<close> times; no other number is recorded or reported,
  and none is recorded twice.
\<close>

theorem raw_locked_reports:
  assumes "raw_locked mx s" "holder s = None" "\<not> overflowed (raw_run mx (calls_made (completed s)))"
  shows "distinct (map rs_seq (nack_deq (object s)))
    \<and> (\<forall>e\<in>set (nack_deq (object s)). rs_seq e \<in> lost_numbers s
        \<and> count_list (reported_numbers s) (rs_seq e) = unat (send_cnt e) \<and> unat (send_cnt e) < max_reports mx)
    \<and> (\<forall>q\<in>lost_numbers s - rs_seq ` set (nack_deq (object s)). count_list (reported_numbers s) q = max_reports mx)
    \<and> set (reported_numbers s) \<subseteq> lost_numbers s"
proof -
  let ?h = "raw_run mx (calls_made (completed s))"
  have h: "counted ?h" "raw_inv (hist_buf ?h)" using hist_inv_run [of mx "calls_made (completed s)"] assms(3) by (simp_all add: hist_inv_def)
  have obj: "hist_buf ?h = object s" "reported ?h = reported_numbers s"
    using raw_locked_run [OF assms(1)] assms(2) by (simp_all add: reported_numbers_def)
  have lost: "missing ?h = lost_numbers s"
    using raw_locked_received [OF assms(1)] obj(1) by (simp add: missing_def lost_numbers_def)
  have "unat (send_cnt e) < max_reports mx" if "e \<in> set (nack_deq (object s))" for e
    using raw_inv_reports [OF h(2)] raw_run_max [of mx "calls_made (completed s)"] that obj(1) by simp
  then show ?thesis using h(1) raw_run_max [of mx "calls_made (completed s)"]
    unfolding counted_def lost pending_def obj by auto
qed

text \<open>A run with one packet pushed; then, with the count 2, its holes are collected twice.\<close>

lemma raw_locked_example:
  "\<exists>s. raw_locked mx s \<and> holder s = None \<and> completed s = [(Raw_Rcv, Push_Event 3 True, Pushed True)]
     \<and> object s = \<lparr>nack_deq = [fresh_status 1, fresh_status 2], rb_end_seq = 3, max_send_cnt = mx, pkt_cnt = 3\<rparr>
     \<and> (\<forall>t. activity s t = Outside)"
proof -
  have op: "raw_op (Push_Event 3 True) (set_max_send_cnt mx RxRawBuf)
      = Some (Pushed True, \<lparr>nack_deq = [fresh_status 1, fresh_status 2], rb_end_seq = 3, max_send_cnt = mx, pkt_cnt = 3\<rparr>)"
    by (simp add: PushPkts_def RxRawBuf_def set_max_send_cnt_def Let_def kMaxBufSize_def gap_def upt_rec)
  show ?thesis
    using raw.call_possible [OF monitor_reachable_init, of "set_max_send_cnt mx RxRawBuf" Raw_Rcv "Push_Event 3 True"] op
    by (simp add: monitor_init_def)
qed

theorem raw_locked_reports_witness:
  "\<exists>s. raw_locked 2 s \<and> completed s = [(Raw_Rcv, Push_Event 3 True, Pushed True),
       (Raw_Ack, Pop_Event 2, Popped [1, 2] 3 3), (Raw_Ack, Pop_Event 0, Popped [1, 2] 3 0)]
     \<and> lost_numbers s = {1, 2} \<and> (\<forall>q\<in>{1, 2}. count_list (reported_numbers s) q = max_reports 2) \<and> max_reports 2 = 2"
proof -
  obtain s where s: "raw_locked 2 s" "holder s = None" "completed s = [(Raw_Rcv, Push_Event 3 True, Pushed True)]"
    "object s = \<lparr>nack_deq = [fresh_status 1, fresh_status 2], rb_end_seq = 3, max_send_cnt = 2, pkt_cnt = 3\<rparr>"
    "\<forall>t. activity s t = Outside"
    using raw_locked_example by blast
  have "raw_op (Pop_Event 2) (object s) = Some (Popped [1, 2] 3 3,
      \<lparr>nack_deq = [\<lparr>rs_seq = 1, send_cnt = 1\<rparr>, \<lparr>rs_seq = 2, send_cnt = 1\<rparr>], rb_end_seq = 3, max_send_cnt = 2, pkt_cnt = 0\<rparr>)"
    by (simp add: s(4) PopPktStatus_def Let_def count_send_def)
  from raw.call_possible [OF s(1,2) _ _ this, of Raw_Ack] s(3,5) obtain s1 where s1: "raw_locked 2 s1" "holder s1 = None"
    "completed s1 = [(Raw_Rcv, Push_Event 3 True, Pushed True), (Raw_Ack, Pop_Event 2, Popped [1, 2] 3 3)]"
    "object s1 = \<lparr>nack_deq = [\<lparr>rs_seq = 1, send_cnt = 1\<rparr>, \<lparr>rs_seq = 2, send_cnt = 1\<rparr>], rb_end_seq = 3, max_send_cnt = 2, pkt_cnt = 0\<rparr>"
    "activity s1 Raw_Ack = Outside" by auto
  have "raw_op (Pop_Event 0) (object s1) = Some (Popped [1, 2] 3 0, \<lparr>nack_deq = [], rb_end_seq = 3, max_send_cnt = 2, pkt_cnt = 0\<rparr>)"
    by (simp add: s1(4) PopPktStatus_def Let_def count_send_def)
  from raw.call_possible [OF s1(1,2,5) _ this] obtain s' where s': "raw_locked 2 s'" "holder s' = None"
    "completed s' = [(Raw_Rcv, Push_Event 3 True, Pushed True), (Raw_Ack, Pop_Event 2, Popped [1, 2] 3 3), (Raw_Ack, Pop_Event 0, Popped [1, 2] 3 0)]"
    "object s' = \<lparr>nack_deq = [], rb_end_seq = 3, max_send_cnt = 2, pkt_cnt = 0\<rparr>"
    using s1(3) by auto
  have "\<not> overflowed (raw_run 2 (calls_made (completed s')))"
    by (simp add: s'(3) raw_run_def raw_begin_def raw_step_def PushPkts_def PopPktStatus_def RxRawBuf_def set_max_send_cnt_def
      Let_def kMaxBufSize_def gap_def count_send_def upt_rec)
  note r = raw_locked_reports [OF s'(1,2) this]
  have "q \<in> {1, 2}" if q: "0 < q" "q \<le> 3" "q \<noteq> 3" for q :: u32
  proof -
    have "unat q = 1 \<or> unat q = 2" using q by (auto simp: word_less_nat_alt word_le_nat_alt word_unat_eq_iff)
    then show ?thesis by (auto simp: word_unat_eq_iff)
  qed
  then have "lost_numbers s' = {1, 2}" by (auto simp: lost_numbers_def s'(3,4))
  then show ?thesis using r s' by (intro exI [of _ s']) (simp add: max_reports_def)
qed

text \<open>
  C15: the acknowledging thread of the raw packets misses no packet: when it is in \<open>PopPktStatus\<close>,
  nobody holds the lock and enough packets are counted, then it is not asleep, and it can take the
  lock and return everything that is recorded.
\<close>

theorem raw_report_not_missed:
  assumes "raw_locked mx s"
    and "activity s Raw_Ack = Entering (Pop_Event m) p \<or> activity s Raw_Ack = Asleep (Pop_Event m) p"
    and "holder s = None" "m \<le> pkt_cnt (object s)"
  shows "activity s Raw_Ack = Entering (Pop_Event m) p
    \<and> (\<exists>s'. raw_step_locked\<^sup>*\<^sup>* s s' \<and> completed s' = completed s @
         [(Raw_Ack, Pop_Event m, Popped (map rs_seq (nack_deq (object s))) (rb_end_seq (object s)) (ucast (pkt_cnt (object s))))])"
proof -
  have entering: "activity s Raw_Ack = Entering (Pop_Event m) p"
    using raw_sleeper [OF assms(1) _ assms(3), of m p] assms(2,4) by auto
  obtain y where "raw_op (Pop_Event m) (object s)
      = Some (Popped (map rs_seq (nack_deq (object s))) (rb_end_seq (object s)) (ucast (pkt_cnt (object s))), y)"
    using assms(4) by (simp add: PopPktStatus_def Let_def not_less [symmetric] del: not_less)
  from raw.call_returns [OF assms(1,3) entering this] show ?thesis using entering by blast
qed

theorem raw_report_not_missed_witness:
  "\<exists>s s'. raw_locked 1 s \<and> activity s Raw_Ack = Entering (Pop_Event 2) (Pop_Test 2) \<and> raw_step_locked\<^sup>*\<^sup>* s s'
     \<and> completed s' = [(Raw_Rcv, Push_Event 3 True, Pushed True), (Raw_Ack, Pop_Event 2, Popped [1, 2] 3 3)]"
proof -
  obtain s where s: "raw_locked 1 s" "holder s = None" "completed s = [(Raw_Rcv, Push_Event 3 True, Pushed True)]"
    "object s = \<lparr>nack_deq = [fresh_status 1, fresh_status 2], rb_end_seq = 3, max_send_cnt = 1, pkt_cnt = 3\<rparr>" "activity s Raw_Ack = Outside"
    using raw_locked_example by blast
  let ?s = "s\<lparr>activity := (activity s)(Raw_Ack := Entering (Pop_Event 2) (raw_start (Pop_Event 2)))\<rparr>"
  have "raw_step_locked s ?s" by (rule monitor_step.call) (simp_all add: s(5))
  with s(1) have "raw_locked 1 ?s" by (rule monitor_reachable_step)
  from raw_report_not_missed [OF this, of 2 "Pop_Test 2"] obtain s' where "raw_step_locked\<^sup>*\<^sup>* ?s s'"
    "completed s' = [(Raw_Rcv, Push_Event 3 True, Pushed True), (Raw_Ack, Pop_Event 2, Popped [1, 2] 3 3)]"
    by (auto simp: s)
  with \<open>raw_locked 1 ?s\<close> show ?thesis by (intro exI [of _ ?s] exI [of _ s']) simp
qed

section \<open>The batch information\<close>

text \<open>
  C16: however the statements of the receiving thread and the acknowledging thread interleave, what
  \<open>GetBatchInfo\<close> returns belongs to the batch that was set last: its highest sequence number, and, if
  only ids were asked for in between, whether it was decoded or its deadline passed; an id asked for
  in between is the one of that batch.
\<close>

theorem batch_snapshot_of_last:
  assumes "batch_locked b0 s"
    and "completed s = es @ (t, Set_Batch a, Batch_Set) # fs @ (u, Get_Batch now, Batch_Answer q d) # gs"
    and "\<forall>c\<in>set (calls_made fs). \<not> sets_batch c"
  shows "q = ba_seq a
    \<and> (set (calls_made fs) \<subseteq> {Get_ID} \<longrightarrow>
         (d \<longleftrightarrow> ba_done a \<or> time_minus now (ba_now a) > uint (ba_dur a * word_of_int (ba_n a - ba_ind a - 1))))
    \<and> (\<forall>v i. (v, Get_ID, Batch_ID i) \<in> set fs \<longrightarrow> i = ba_id a)"
proof -
  obtain x where "replay batch_op (completed s) b0 = Some x"
    using bi.reachable_atomic [OF assms(1)] by (auto simp: bi.atomic_def)
  then obtain y y1 y2 y3 where run: "batch_op (Set_Batch a) y = Some (Batch_Set, y1)" "replay batch_op fs y1 = Some y2"
    "batch_op (Get_Batch now) y2 = Some (Batch_Answer q d, y3)"
    unfolding assms(2) by (blast dest!: replay_split)
  note set = batch_op_set [OF run(1)] and kept = replay_keeps [OF run(2) assms(3)]
  have get: "q = bi_highest_decoded_seq y2" "d \<longleftrightarrow> bi_decoding_done y2 \<or> IsTimeOut now y2"
    using run(3) by (auto simp: GetBatchInfo_def decoding_done_def split: if_splits)
  have "d \<longleftrightarrow> ba_done a \<or> time_minus now (ba_now a) > uint (ba_dur a * word_of_int (ba_n a - ba_ind a - 1))"
    if "set (calls_made fs) \<subseteq> {Get_ID}"
    using get(2) set replay_only_id [OF run(2) that] by (simp add: IsTimeOut_def)
  moreover have "i = ba_id a" if "(v, Get_ID, Batch_ID i) \<in> set fs" for v i
    using replay_ids [OF run(2) assms(3) that] set by simp
  ultimately show ?thesis using get(1) set kept by simp
qed

definition noon :: time where "noon = \<lparr>tv_sec = 43200, tv_usec = 0\<rparr>"

definition sample_batch :: batch_args where
  "sample_batch = \<lparr>ba_now = noon, ba_id = 7, ba_seq = 40, ba_done = False, ba_ind = 0, ba_n = 6, ba_dur = 100\<rparr>"

theorem batch_snapshot_of_last_witness:
  "\<exists>s. batch_locked (BatchInfo noon 0) s
     \<and> completed s = [(Batch_Rcv, Set_Batch sample_batch, Batch_Set), (Batch_Ack, Get_Batch noon, Batch_Answer 40 False)]
     \<and> 40 = ba_seq sample_batch"
proof -
  let ?b = "BatchInfo noon 0"
  let ?b1 = "\<lparr>bi_batch_id = 7, bi_highest_decoded_seq = 40, bi_decoding_done = False, cur_recv_time = noon, time_left = 500\<rparr>"
  have ops: "batch_op (Set_Batch sample_batch) ?b = Some (Batch_Set, ?b1)"
    "batch_op (Get_Batch noon) ?b1 = Some (Batch_Answer 40 False, ?b1)"
    by (simp_all add: sample_batch_def batch_ops BatchInfo_def IsTimeOut_def)
  obtain s where s: "batch_locked ?b s" "holder s = None" "completed s = [(Batch_Rcv, Set_Batch sample_batch, Batch_Set)]"
    "object s = ?b1" "activity s Batch_Ack = Outside"
    using bi.call_possible [OF monitor_reachable_init, of ?b Batch_Rcv "Set_Batch sample_batch"] ops(1)
    by (auto simp: monitor_init_def)
  then obtain s' where s': "batch_locked ?b s'"
    "completed s' = [(Batch_Rcv, Set_Batch sample_batch, Batch_Set), (Batch_Ack, Get_Batch noon, Batch_Answer 40 False)]"
    using bi.call_possible [OF s(1,2,5), of "Get_Batch noon"] ops(2) by auto
  from batch_snapshot_of_last [OF s'(1), of "[]" Batch_Rcv sample_batch "[]"] s' show ?thesis by auto
qed

end
