(* ===== verification/Client_Batch.thy ===== *)
theory Client_Batch
  imports Client_Rx
begin

text \<open>
  A batch through \<open>RxRcvAth\<close>: any \<open>k\<close> of its coded packets, in any order, make the thread enqueue
  every native packet once, unaltered, under its own sequence number. The packets are bytes, with
  the header of \<open>AthCodeHeader\<close>, the lengths and a coded payload.
\<close>

section \<open>A packet on the wire\<close>

definition code_packet :: "ath_code_header \<Rightarrow> u16 list \<Rightarrow> u8 list \<Rightarrow> u8 list" where
  "code_packet h lens payload =
     put_code_header h (put_u16s 36 lens (replicate (36 + 2 * length lens) 0)) @ payload"

lemma load_append: "off + n \<le> length xs \<Longrightarrow> load n (xs @ ys) off = load n xs off"
  by (simp add: load_def)

lemma code_header_at_append: "36 \<le> length xs \<Longrightarrow> code_header_at (xs @ ys) = code_header_at xs"
  by (cases "xs = []") (simp_all add: code_header_at_def load_u32_def load_u16_def load_append nth_append)

lemma load_u16s_append: "off + 2 * k \<le> length xs \<Longrightarrow> load_u16s (xs @ ys) off k = load_u16s xs off k"
  by (simp add: load_u16s_def load_u16_def load_append)

lemma load_u16s_put_other:
  "off' + 2 * k \<le> length pkt \<Longrightarrow> off + length bs \<le> off' \<Longrightarrow> load_u16s (put off bs pkt) off' k = load_u16s pkt off' k"
  by (simp add: load_u16s_def load_u16_def load_put_other)

lemma code_packet_parts:
  assumes k: "unat (ch_k h) = length lens" "ch_k h > 0"
  shows "code_header_at (code_packet h lens payload @ rest) = h"
    "hdr_lens h (code_packet h lens payload @ rest) = ok lens"
    "GetPayloadStart h (code_packet h lens payload @ rest) = payload @ rest"
    "length (code_packet h lens payload) = GetFullHdrLen h + length payload"
proof -
  let ?hd = "put_code_header h (put_u16s 36 lens (replicate (36 + 2 * length lens) 0))"
  have len: "length ?hd = 36 + 2 * length lens" by simp
  show "code_header_at (code_packet h lens payload @ rest) = h"
    unfolding code_packet_def append_assoc
    by (subst code_header_at_append) (simp_all add: code_header_at_put)
  have "load_u16s ?hd 36 (length lens) = load_u16s (put_u16s 36 lens (replicate (36 + 2 * length lens) 0)) 36 (length lens)"
    by (simp add: put_code_header_def load_u16s_put_other)
  then show "hdr_lens h (code_packet h lens payload @ rest) = ok lens"
    using k by (simp add: hdr_lens_def code_packet_def ATH_CODE_HEADER_SIZE_def load_u16s_append load_u16s_put_u16s)
  show "GetPayloadStart h (code_packet h lens payload @ rest) = payload @ rest"
    using k(1) by (simp add: GetPayloadStart_def code_packet_def ATH_CODE_HEADER_SIZE_def)
  show "length (code_packet h lens payload) = GetFullHdrLen h + length payload"
    using k(1) by (simp add: GetFullHdrLen_def code_packet_def ATH_CODE_HEADER_SIZE_def)
qed

section \<open>A coded batch\<close>

text \<open>\<open>coded i\<close> is the \<open>i\<close>-th coded payload, of \<open>sz\<close> bytes, of the batch \<open>ps\<close> with the lengths \<open>lens\<close>.\<close>

definition coded_batch_of :: "nat \<Rightarrow> u8 list list \<Rightarrow> nat \<Rightarrow> u16 list \<Rightarrow> (nat \<Rightarrow> gf list) \<Rightarrow> bool" where
  "coded_batch_of n ps sz lens coded \<longleftrightarrow> lens = map (\<lambda>p. word_of_nat (length p)) ps \<and> 0 < sz \<and> sz < 65536
     \<and> (\<forall>p\<in>set ps. length p \<le> sz)
     \<and> (\<exists>code orig buf. fec_new (length ps) n = ok (Some code)
          \<and> (\<forall>j<length ps. sz \<le> length (orig ! j) \<and> take (length (ps ! j)) (orig ! j) = map GF (ps ! j))
          \<and> (\<forall>i<n. sz \<le> length (buf i) \<and> coded i = take sz (fec_encode code orig (buf i) i sz)))"

lemma coded_batch_of_encoder:
  assumes e: "code_info_inv e" "codec_type e = kEncoder" "ci_pkt_size e < 65536"
    and k: "1 \<le> length ps" "length ps \<le> n" "n \<le> 256" "length ps \<le> max_batch_size e"
    and ps: "\<forall>p\<in>set ps. 0 < length p \<and> length p \<le> ci_pkt_size e"
    and enc: "encode_all n start (map (map GF) ps) e = ok e'"
  shows "coded_batch_of n ps (ci_sz e') (map (\<lambda>p. word_of_nat (length p)) ps) (\<lambda>i. take (ci_sz e') (coded_batch e' ! i))"
    "ci_sz e' \<le> ci_pkt_size e"
proof -
  have ps': "\<forall>p\<in>set (map (map GF) ps). 0 < length p \<and> length p \<le> ci_pkt_size e \<and> length p < 65536"
    using ps e(3) by fastforce
  have k': "1 \<le> length (map (map GF) ps)" "length (map (map GF) ps) \<le> n" "length (map (map GF) ps) \<le> max_batch_size e"
    using k by simp_all
  obtain e1 code orig buf where e1: "encode_all n start (map (map GF) ps) e = ok e1" "code_info_inv e1" "ci_pkt_size e1 = ci_pkt_size e"
    and code: "fec_new (length (map (map GF) ps)) n = ok (Some code)"
    and le: "\<And>p. p \<in> set (map (map GF) ps) \<Longrightarrow> length p \<le> ci_sz e1"
    and orig: "\<And>j. j < length (map (map GF) ps) \<Longrightarrow> ci_sz e1 \<le> length (orig ! j)
      \<and> take (length (map (map GF) ps ! j)) (orig ! j) = map (map GF) ps ! j
       \<and> ci_lens e1 ! j = word_of_nat (length (map (map GF) ps ! j))"
    and coded: "\<And>i. i < n \<Longrightarrow> ci_sz e1 \<le> length (buf i) \<and> coded_batch e1 ! i = fec_encode code orig (buf i) i (ci_sz e1)"
    by (rule encode_all_ok [OF e(1,2) k'(1,2) k(3) k'(3) ps', where start = start], rule that; blast)
  have e': "e' = e1" using e1(1) enc by simp
  show sz: "ci_sz e' \<le> ci_pkt_size e" using e1(2,3) e' by (simp add: code_info_inv_def)
  have len: "\<forall>p\<in>set ps. length p \<le> ci_sz e'" using le e' by fastforce
  have "ps ! 0 \<in> set ps" using k(1) by (intro nth_mem) linarith
  then have "0 < length (ps ! 0)" "length (ps ! 0) \<le> ci_sz e'" using ps len by blast+
  then have "0 < ci_sz e'" "ci_sz e' < 65536" using sz e(3) by linarith+
  moreover have "\<forall>j<length ps. ci_sz e' \<le> length (orig ! j) \<and> take (length (ps ! j)) (orig ! j) = map GF (ps ! j)"
    using orig e' by simp
  moreover have "\<forall>i<n. ci_sz e' \<le> length (buf i) \<and> take (ci_sz e') (coded_batch e' ! i) = take (ci_sz e') (fec_encode code orig (buf i) i (ci_sz e'))"
    using coded e' by simp
  ultimately show "coded_batch_of n ps (ci_sz e') (map (\<lambda>p. word_of_nat (length p)) ps) (\<lambda>i. take (ci_sz e') (coded_batch e' ! i))"
    using code len unfolding coded_batch_of_def by auto
qed

lemma coded_batch_ofE:
  assumes "coded_batch_of n ps sz lens coded"
  obtains code orig buf where "fec_new (length ps) n = ok (Some code)" "length ps \<le> n" "n \<le> 256" "1 \<le> length ps"
    "lens = map (\<lambda>p. word_of_nat (length p)) ps" "0 < sz" "sz < 65536" "\<forall>p\<in>set ps. length p \<le> sz"
    "\<And>j. j < length ps \<Longrightarrow> sz \<le> length (orig ! j) \<and> take (length (ps ! j)) (orig ! j) = map GF (ps ! j)"
    "\<And>i. i < n \<Longrightarrow> sz \<le> length (buf i) \<and> coded i = take sz (fec_encode code orig (buf i) i sz)"
proof -
  obtain code orig buf where c: "fec_new (length ps) n = ok (Some code)"
    "\<forall>j<length ps. sz \<le> length (orig ! j) \<and> take (length (ps ! j)) (orig ! j) = map GF (ps ! j)"
    "\<forall>i<n. sz \<le> length (buf i) \<and> coded i = take sz (fec_encode code orig (buf i) i sz)"
    using assms unfolding coded_batch_of_def by blast
  have "1 \<le> length ps \<and> length ps \<le> n \<and> n \<le> 256" using c(1) by (auto simp: fec_new_def GF_SIZE_def Suc_le_eq split: if_splits)
  moreover have "lens = map (\<lambda>p. word_of_nat (length p)) ps" "0 < sz" "sz < 65536" "\<forall>p\<in>set ps. length p \<le> sz"
    using assms by (simp_all add: coded_batch_of_def)
  ultimately show thesis using that [of code orig buf] c by blast
qed

text \<open>Native payloads are the packets themselves, and any \<open>k\<close> payloads give the batch.\<close>

lemma native_payload:
  assumes "coded_batch_of n ps sz lens coded" "j < length ps"
  shows "take (length (ps ! j)) (coded j) = map GF (ps ! j)" "lens ! j = word_of_nat (length (ps ! j))"
    "unat (lens ! j) = length (ps ! j)" "length (ps ! j) \<le> sz"
proof -
  obtain code orig buf where c: "fec_new (length ps) n = ok (Some code)" "length ps \<le> n"
    and orig: "\<And>j. j < length ps \<Longrightarrow> sz \<le> length (orig ! j) \<and> take (length (ps ! j)) (orig ! j) = map GF (ps ! j)"
    and coded: "\<And>i. i < n \<Longrightarrow> sz \<le> length (buf i) \<and> coded i = take sz (fec_encode code orig (buf i) i sz)"
    and lens: "lens = map (\<lambda>p. word_of_nat (length p)) ps" and sz': "sz < 65536" "\<forall>p\<in>set ps. length p \<le> sz"
    by (rule coded_batch_ofE [OF assms(1)]) (rule that; blast)
  have sz: "length (ps ! j) \<le> sz" "sz < 65536" using sz' assms(2) by simp_all
  have "code_k code = length ps" using c(1) fec_new_valid by blast
  then have "coded j = take sz (orig ! j)" using coded [of j] orig [OF assms(2)] c(2) assms(2) by (simp add: fec_encode_def)
  then show "take (length (ps ! j)) (coded j) = map GF (ps ! j)" using orig [OF assms(2)] sz(1) by (simp add: min_def)
  show "lens ! j = word_of_nat (length (ps ! j))" "length (ps ! j) \<le> sz" using lens sz(1) assms(2) by simp_all
  then show "unat (lens ! j) = length (ps ! j)" using sz by (simp add: unat_of_nat)
qed

lemma length_coded: "coded_batch_of n ps sz lens coded \<Longrightarrow> i < n \<Longrightarrow> length (coded i) = sz"
proof -
  assume a: "coded_batch_of n ps sz lens coded" "i < n"
  obtain code orig buf where c: "fec_new (length ps) n = ok (Some code)"
    and orig: "\<And>j. j < length ps \<Longrightarrow> sz \<le> length (orig ! j) \<and> take (length (ps ! j)) (orig ! j) = map GF (ps ! j)"
    and coded: "\<And>i. i < n \<Longrightarrow> sz \<le> length (buf i) \<and> coded i = take sz (fec_encode code orig (buf i) i sz)"
    by (rule coded_batch_ofE [OF a(1)]) (rule that; blast)
  have "length (fec_encode code orig (buf i) i sz) = length (buf i)"
    using take_fec_encode(1) [OF c a(2)] orig coded [OF a(2)] by blast
  then show ?thesis using coded [OF a(2)] by simp
qed

end
