(* ===== verification/Client_Deliver.thy ===== *)
theory Client_Deliver
  imports Client_Batch
begin

text \<open>
  The states of \<open>RxRcvAth\<close> while it collects a batch, step by step, up to the theorem that a
  complete batch is enqueued.
\<close>

section \<open>The decoder while packets arrive\<close>

text \<open>\<open>xs\<close> are the numbers of the coded packets that came in.\<close>

definition collecting :: "nat \<Rightarrow> nat \<Rightarrow> nat \<Rightarrow> u16 list \<Rightarrow> (nat \<Rightarrow> gf list) \<Rightarrow> nat list \<Rightarrow> code_info \<Rightarrow> bool" where
  "collecting k n sz lens coded xs d \<longleftrightarrow> code_info_inv d \<and> codec_type d = kDecoder
     \<and> max_batch_size d = MAX_BATCH_SIZE \<and> ci_pkt_size d = TUN_PKT_SIZE \<and> ci_k d = k \<and> ci_n d = n
     \<and> take k (ci_lens d) = lens \<and> cur_ind d = length xs \<and> ci_sz d = (if xs = [] then 0 else sz)
     \<and> take (length xs) (ci_inds d) = xs \<and> (\<forall>j<length xs. take sz (coded_batch d ! j) = coded (xs ! j))"

definition idle_decoder :: "code_info \<Rightarrow> bool" where
  "idle_decoder d \<longleftrightarrow> code_info_inv d \<and> codec_type d = kDecoder \<and> max_batch_size d = MAX_BATCH_SIZE \<and> ci_pkt_size d = TUN_PKT_SIZE"

lemma collect_start:
  assumes "idle_decoder d" "length lens = k" "0 < k" "k \<le> MAX_BATCH_SIZE"
  obtains d' where "CopyLens lens (SetCodeInfo k n start (ClearInfo d)) = ok d'" "collecting k n sz lens coded [] d'"
proof -
  let ?c = "SetCodeInfo k n start (ClearInfo d)"
  let ?d = "?c\<lparr>ci_lens := take k lens @ drop k (ci_lens ?c)\<rparr>"
  have c: "codec_type ?c = kDecoder" "max_batch_size ?c = MAX_BATCH_SIZE" "ci_pkt_size ?c = TUN_PKT_SIZE" "ci_k ?c = k" "ci_n ?c = n"
    "length (ci_lens ?c) = MAX_BATCH_SIZE" "cur_ind ?c = 0" "ci_sz ?c = 0"
    using assms(1) by (simp_all add: SetCodeInfo_def ClearInfo_def idle_decoder_def)
  have inv: "code_info_inv ?c" using ClearInfo_inv assms(1) by (simp add: SetCodeInfo_inv idle_decoder_def)
  have cl: "CopyLens lens ?c = ok ?d" using assms(2-4) c(4,6) by (simp add: CopyLens_def)
  have "code_info_inv ?d" by (rule CopyLens_inv [OF inv cl])
  then have "collecting k n sz lens coded [] ?d" using c assms(2) by (simp add: collecting_def)
  then show thesis using that cl by blast
qed

lemma collect_push:
  assumes c: "collecting k n sz lens coded xs d" and room: "length xs < n" "n \<le> 256" and j: "j < n"
    and sz: "0 < sz" "sz \<le> TUN_PKT_SIZE" and p: "sz \<le> length p" "take sz p = coded j"
  obtains d' where "PushPkt (word_of_nat sz) p j d = ok (True, d')" "collecting k n sz lens coded (xs @ [j]) d'"
proof -
  let ?i = "length xs" and ?b = "coded_batch d"
  let ?p = "take sz p @ drop sz (?b ! ?i)"
  let ?d = "count_pkt (word_of_nat sz) (d\<lparr>ci_inds := (ci_inds d)[?i := j], coded_batch := ?b[?i := ?p]\<rparr>)"
  have len: "unat (word_of_nat sz :: u16) = sz" using sz by (simp add: unat_of_nat TUN_PKT_SIZE_def)
  then have nz: "(word_of_nat sz :: u16) \<noteq> 0" using sz(1) by force
  have inv: "length ?b = 256" "\<forall>q\<in>set ?b. length q = TUN_PKT_SIZE" "length (ci_inds d) = 256"
    using c by (simp_all add: collecting_def code_info_inv_def)
  have i: "?i < 256" and lj: "length (coded j) = sz" using room p by (simp, metis length_take min.absorb2)
  have "store_pkt ?b ?i p sz = ok (?b[?i := ?p])" using inv i sz(2) p(1) by (intro store_pkt_ok) simp_all
  then have push: "PushPkt (word_of_nat sz) p j d = ok (True, ?d)"
    using c nz len room j i inv(3) by (simp add: PushPkt_def Let_def collecting_def not_le)
  have inv': "code_info_inv ?d" using PushPkt_inv [OF _ push] c by (simp add: collecting_def)
  have "take sz (?b[?i := ?p] ! m) = coded ((xs @ [j]) ! m)" if "m < Suc ?i" for m
    using that c inv i p lj by (cases "m = ?i") (simp_all add: collecting_def nth_append)
  moreover have "take (Suc ?i) ((ci_inds d)[?i := j]) = xs @ [j]"
    using c inv(3) i by (simp add: collecting_def take_Suc_conv_app_nth)
  ultimately have "collecting k n sz lens coded (xs @ [j]) ?d"
    using c inv' len by (simp add: collecting_def count_pkt_def)
  then show thesis using that push by blast
qed

lemma collect_decode:
  assumes batch: "coded_batch_of n ps sz lens coded" and c: "collecting (length ps) n sz lens coded xs d"
    and xs: "length xs = length ps" "distinct xs" "\<forall>x\<in>set xs. x < n"
  obtains d' where "DecodeBatch d = ok d'" "idle_decoder d'" "cur_ind d' = 0" "ci_k d' = length ps" "ci_lens d' = ci_lens d"
    "\<And>i. i < length ps \<Longrightarrow> take (unat (lens ! i)) (coded_batch d' ! i) = map GF (ps ! i)"
proof -
  obtain code orig buf where code: "fec_new (length ps) n = ok (Some code)" and pos: "1 \<le> length ps"
    and orig: "\<And>j. j < length ps \<Longrightarrow> sz \<le> length (orig ! j) \<and> take (length (ps ! j)) (orig ! j) = map GF (ps ! j)"
    and coded: "\<And>i. i < n \<Longrightarrow> sz \<le> length (buf i) \<and> coded i = take sz (fec_encode code orig (buf i) i sz)"
    by (rule coded_batch_ofE [OF batch]) (rule that; blast)
  have f: "code_info_inv d" "ci_k d = length ps" "ci_n d = n" "ci_sz d = sz" "take (length ps) (ci_inds d) = xs"
    using c xs(1) pos by (auto simp: collecting_def)
  have inds: "ci_inds d ! i = xs ! i" if "i < length ps" for i
    using f(5) that by (metis nth_take)
  have rcv: "take (ci_sz d) (coded_batch d ! i)
      = take (ci_sz d) (fec_encode code orig (buf (ci_inds d ! i)) (ci_inds d ! i) (ci_sz d))" if i: "i < ci_k d" for i
  proof -
    have "xs ! i < n" using xs(1,3) i f(2) by simp
    then show ?thesis using c coded inds [of i] i f(2,4) xs(1) by (simp add: collecting_def)
  qed
  have "\<exists>pkts inds. DecodeBatch d = ok (d\<lparr>coded_batch := pkts, ci_inds := inds, cur_ind := 0\<rparr>)
    \<and> (\<forall>i<ci_k d. take (ci_sz d) (pkts ! i) = take (ci_sz d) (orig ! i))"
    using code orig coded inds xs f rcv
    by (intro DecodeBatch_recovers [where code = code and buf = buf]) simp_all
  then obtain pkts inds' where dec: "DecodeBatch d = ok (d\<lparr>coded_batch := pkts, ci_inds := inds', cur_ind := 0\<rparr>)"
    and rec: "\<And>i. i < length ps \<Longrightarrow> take sz (pkts ! i) = take sz (orig ! i)" using f(2,4) by auto
  let ?d = "d\<lparr>coded_batch := pkts, ci_inds := inds', cur_ind := 0\<rparr>"
  have "take (unat (lens ! i)) (pkts ! i) = map GF (ps ! i)" if i: "i < length ps" for i
  proof -
    have l: "unat (lens ! i) = length (ps ! i)" "length (ps ! i) \<le> sz" using native_payload [OF batch i] by simp_all
    then have "take (length (ps ! i)) (pkts ! i) = take (length (ps ! i)) (take sz (pkts ! i))" by (simp add: min_def)
    also have "\<dots> = take (length (ps ! i)) (orig ! i)" using rec [OF i] l(2) by (simp add: min_def)
    finally show ?thesis using orig [OF i] l(1) by simp
  qed
  moreover have "idle_decoder ?d" using DecodeBatch_inv [OF f(1) dec] c by (simp add: idle_decoder_def collecting_def)
  ultimately show thesis using that [of ?d] dec f(2) by simp
qed

section \<open>The loop over the decoded batch\<close>

lemma late_loop:
  assumes "idle_decoder d" "cur_ind d = 0" "m \<le> ci_k d" "ci_k d \<le> MAX_BATCH_SIZE"
  shows "for_range 0 m (late_step inds cnt start) (ok ([], d))
    = ok (map (\<lambda>i. (start + word_of_nat i, ci_lens d ! i, map gf_byte (coded_batch d ! i)))
            (filter (\<lambda>i. i \<notin> set (take cnt inds)) [0..<m]), d\<lparr>cur_ind := m\<rparr>)"
  using assms(3)
proof (induction m)
  case 0
  have "d\<lparr>cur_ind := 0\<rparr> = d" using assms(2) by simp
  then show ?case by simp
next
  case (Suc m)
  let ?d = "d\<lparr>cur_ind := m\<rparr>"
  have d: "codec_type d = kDecoder" "length (coded_batch d) = 256" "length (ci_lens d) = MAX_BATCH_SIZE"
    using assms(1) by (simp_all add: idle_decoder_def code_info_inv_def)
  have pop: "PopPkt ?d = ok (Some (coded_batch d ! m, ci_lens d ! m), d\<lparr>cur_ind := Suc m\<rparr>)"
    using d Suc.prems assms(4) by (simp add: PopPkt_def MAX_BATCH_SIZE_def)
  show ?case
    using Suc pop by (simp add: late_step_def IsIndExist_def MoveToNextPkt_def)
qed

section \<open>The thread while it collects a batch\<close>

definition in_batch :: "nat \<Rightarrow> nat \<Rightarrow> nat \<Rightarrow> u16 list \<Rightarrow> (nat \<Rightarrow> gf list) \<Rightarrow> u32 \<Rightarrow> nat list \<Rightarrow> rcv_ath \<Rightarrow> bool" where
  "in_batch k n sz lens coded bid xs s \<longleftrightarrow> batch_id s = bid \<and> \<not> batch_done s
     \<and> collecting k n sz lens coded xs (decoder s) \<and> length (early_inds s) = MAX_BATCH_SIZE
     \<and> early_cnt s = length (filter (\<lambda>i. i < k) xs)
     \<and> take (length (filter (\<lambda>i. i < k) xs)) (early_inds s) = filter (\<lambda>i. i < k) xs
     \<and> length (pkt_mem s) = TUN_PKT_SIZE"

definition before_batch :: "u32 \<Rightarrow> rcv_ath \<Rightarrow> bool" where
  "before_batch bid s \<longleftrightarrow> batch_id s < bid \<and> idle_decoder (decoder s) \<and> length (pkt_mem s) = TUN_PKT_SIZE"

definition after_batch :: "u32 \<Rightarrow> rcv_ath \<Rightarrow> bool" where
  "after_batch bid s \<longleftrightarrow> batch_id s = bid \<and> batch_done s \<and> idle_decoder (decoder s) \<and> length (pkt_mem s) = TUN_PKT_SIZE"

lemma after_before: "after_batch bid s \<Longrightarrow> bid < bid' \<Longrightarrow> before_batch bid' s"
  by (simp add: after_batch_def before_batch_def)

text \<open>The two ways to go on with a batch.\<close>

lemma join_new_batch:
  assumes "before_batch (p_batch_id p) s" "hdr_lens hdr pkt = ok lens" "length lens = p_k p" "0 < p_k p" "p_k p \<le> MAX_BATCH_SIZE" "p_ind p < p_n p"
  obtains s' where "join_batch now hdr pkt p dur s = ok (True, s')"
    "in_batch (p_k p) (p_n p) sz lens coded (p_batch_id p) [] s'" "pkt_mem s' = pkt_mem s"
proof -
  have b: "batch_id s < p_batch_id p" "idle_decoder (decoder s)" "length (pkt_mem s) = TUN_PKT_SIZE"
    using assms(1) by (simp_all add: before_batch_def)
  obtain d where d: "CopyLens lens (SetCodeInfo (p_k p) (p_n p) (p_start_seq p) (ClearInfo (decoder s))) = ok d"
    "collecting (p_k p) (p_n p) sz lens coded [] d"
    by (rule collect_start [OF b(2) assms(3-5)])
  have "\<exists>s'. join_batch now hdr pkt p dur s = ok (True, s')
      \<and> in_batch (p_k p) (p_n p) sz lens coded (p_batch_id p) [] s' \<and> pkt_mem s' = pkt_mem s"
    using d assms(2,4,6) b
    by (simp add: join_batch_def new_batch_def SetBatchInfo_def UpdateTimeLeft_def in_batch_def Let_def not_less)
  then show thesis using that by blast
qed

lemma join_current_batch:
  assumes s: "in_batch (p_k p) (p_n p) sz lens coded (p_batch_id p) xs s" and p: "p_ind p < p_n p" "p_ind p \<notin> set xs"
  obtains s' where "join_batch now hdr pkt p dur s = ok (True, s')"
    "in_batch (p_k p) (p_n p) sz lens coded (p_batch_id p) xs s'" "pkt_mem s' = pkt_mem s"
proof -
  have "\<not> IsIndExist (ci_inds (decoder s)) (cur_ind (decoder s)) (p_ind p)"
    using s p(2) by (simp add: in_batch_def collecting_def IsIndExist_def)
  then have "\<exists>s'. join_batch now hdr pkt p dur s = ok (True, s')
      \<and> in_batch (p_k p) (p_n p) sz lens coded (p_batch_id p) xs s' \<and> pkt_mem s' = pkt_mem s"
    using s p(1) by (simp add: join_batch_def current_batch_def UpdateTimeLeft_def in_batch_def Let_def)
  then show thesis using that by blast
qed

text \<open>What a call gives to the buffer.\<close>

definition call_of :: "enqueue_call \<Rightarrow> enqueue_call" where
  "call_of c = (case c of (seq, len, pkt) \<Rightarrow> (seq, len, take (unat len) pkt))"

definition native_call :: "u32 \<Rightarrow> u8 list list \<Rightarrow> nat \<Rightarrow> enqueue_call" where
  "native_call start ps i = (start + word_of_nat i, word_of_nat (length (ps ! i)), ps ! i)"

text \<open>The packet is pushed and, when native, enqueued.\<close>

lemma filter_room: "distinct xs \<Longrightarrow> j \<notin> set xs \<Longrightarrow> j < k \<Longrightarrow> length (filter (\<lambda>i. i < k) xs) < k"
proof -
  assume a: "distinct xs" "j \<notin> set xs" "j < k"
  let ?f = "filter (\<lambda>i. i < k) xs"
  have "set ?f \<subset> {..<k}" using a(2,3) by auto
  then have "card (set ?f) < card {..<k}" by (intro psubset_card_mono) simp_all
  moreover have "card (set ?f) = length ?f" using a(1) by (intro distinct_card distinct_filter)
  ultimately show ?thesis by simp
qed

lemma early_step:
  assumes batch: "coded_batch_of n ps sz lens coded" and k: "length ps \<le> MAX_BATCH_SIZE"
    and s: "in_batch (length ps) n sz lens coded bid xs s" "distinct xs" "p_ind p \<notin> set xs"
    and p: "p_k p = length ps" "p_ind p < n" and d: "collecting (length ps) n sz lens coded (xs @ [p_ind p]) d"
    and payload: "payload = map gf_byte (coded (p_ind p)) @ rest"
  obtains calls s' where "early_enqueue payload p (s\<lparr>decoder := d\<rparr>) = ok (calls, s')"
    "map call_of calls = map (native_call (p_start_seq p) ps) (filter (\<lambda>i. i < length ps) [p_ind p])"
    "in_batch (length ps) n sz lens coded bid (xs @ [p_ind p]) s'"
proof -
  let ?j = "p_ind p" and ?f = "filter (\<lambda>i. i < length ps) xs"
  show thesis
  proof (cases "?j < length ps")
    case False
    then show ?thesis using that [of "[]" "s\<lparr>decoder := d\<rparr>"] s(1) d p(1) by (simp add: early_enqueue_def in_batch_def)
  next
    case True
    have room: "length ?f < length (early_inds s)"
      using filter_room [OF s(2,3) True] s(1) k by (simp add: in_batch_def)
    have lens: "take (length ps) (ci_lens d) = lens" "length (ci_lens d) = MAX_BATCH_SIZE"
      using d by (simp_all add: collecting_def code_info_inv_def)
    have len: "GetLen ?j d = ok (lens ! ?j)" using True k lens by (auto simp: GetLen_def)
    note nat = native_payload [OF batch True]
    have "take (unat (lens ! ?j)) payload = map gf_byte (take (length (ps ! ?j)) (coded ?j))"
      using nat(3,4) payload length_coded [OF batch p(2)] by (simp add: take_map)
    then have "take (unat (lens ! ?j)) payload = ps ! ?j" using nat(1) by (simp add: comp_def)
    moreover have "take (Suc (length ?f)) ((early_inds s)[length ?f := ?j]) = ?f @ [?j]"
      using room s(1) by (simp add: take_Suc_conv_app_nth in_batch_def)
    ultimately show ?thesis
      using that [of "[(p_start_seq p + word_of_nat ?j, lens ! ?j, payload)]"
          "s\<lparr>decoder := d, early_inds := (early_inds s)[length ?f := ?j], early_cnt := Suc (length ?f)\<rparr>"]
        s(1) d p(1) True len room nat(2)
      by (simp add: early_enqueue_def in_batch_def call_of_def native_call_def not_le)
  qed
qed

text \<open>The batch is finished by its last packet.\<close>

lemma finish_step:
  assumes batch: "coded_batch_of n ps sz lens coded" and k: "length ps \<le> MAX_BATCH_SIZE"
    and s: "in_batch (length ps) n sz lens coded bid xs s" and xs: "length xs = length ps" "distinct xs" "\<forall>x\<in>set xs. x < n"
    and p: "p_k p = length ps"
  obtains calls s' where "finish_batch p s = ok (calls, s')" "after_batch bid s'"
    "map call_of calls = map (native_call (p_start_seq p) ps) (filter (\<lambda>i. i \<notin> set xs) [0..<length ps])"
proof -
  let ?k = "length ps" and ?f = "filter (\<lambda>i. i < length ps) xs" and ?d = "decoder s"
  have c: "collecting ?k n sz lens coded xs ?d" and f: "early_cnt s = length ?f" "take (length ?f) (early_inds s) = ?f"
    using s by (simp_all add: in_batch_def)
  have idle: "idle_decoder ?d" "length (pkt_mem s) = TUN_PKT_SIZE" "batch_id s = bid"
    using s by (simp_all add: in_batch_def collecting_def idle_decoder_def)
  have full: "cur_ind ?d \<ge> ?k" using c xs(1) by (simp add: collecting_def)
  show thesis
  proof (cases "length ?f = ?k")
    case True
    then have sub: "set xs \<subseteq> {..<?k}"
      using length_filter_less [of _ xs "\<lambda>i. i < ?k"] xs(1) by fastforce
    moreover have "card (set xs) = ?k" using xs(1,2) by (simp add: distinct_card)
    ultimately have "set xs = {..<?k}" by (intro card_subset_eq) simp_all
    then have "filter (\<lambda>i. i \<notin> set xs) [0..<?k] = []" by simp
    then show ?thesis
      using that full True f(1) p idle by (simp add: finish_batch_def after_batch_def)
  next
    case False
    obtain d' where d': "DecodeBatch ?d = ok d'" "idle_decoder d'" "cur_ind d' = 0" "ci_k d' = ?k" "ci_lens d' = ci_lens ?d"
      and rec: "\<And>i. i < ?k \<Longrightarrow> take (unat (lens ! i)) (coded_batch d' ! i) = map GF (ps ! i)"
      by (rule collect_decode [OF batch c xs]) blast
    let ?calls = "map (\<lambda>i. (p_start_seq p + word_of_nat i, ci_lens d' ! i, map gf_byte (coded_batch d' ! i)))
      (filter (\<lambda>i. i \<notin> set (take (early_cnt s) (early_inds s))) [0..<?k])"
    have loop: "for_range 0 ?k (late_step (early_inds s) (early_cnt s) (p_start_seq p)) (ok ([], d')) = ok (?calls, d'\<lparr>cur_ind := ?k\<rparr>)"
      using late_loop [OF d'(2,3), of ?k] d'(4) k by simp
    have same: "filter (\<lambda>i. i \<notin> set (take (early_cnt s) (early_inds s))) [0..<?k] = filter (\<lambda>i. i \<notin> set xs) [0..<?k]"
      using f by (intro filter_cong) auto
    have "call_of (p_start_seq p + word_of_nat i, ci_lens d' ! i, map gf_byte (coded_batch d' ! i)) = native_call (p_start_seq p) ps i"
      if i: "i < ?k" for i
    proof -
      have "ci_lens d' ! i = lens ! i" using c d'(5) i by (simp add: collecting_def) (metis nth_take)
      then show ?thesis
        using rec [OF i] native_payload(2) [OF batch i] by (simp add: call_of_def native_call_def take_map comp_def)
    qed
    then have "map call_of ?calls = map (native_call (p_start_seq p) ps) (filter (\<lambda>i. i \<notin> set xs) [0..<?k])"
      unfolding same by (auto intro: map_cong)
    moreover have "idle_decoder (d'\<lparr>cur_ind := ?k\<rparr>)" using d'(2) by (simp add: idle_decoder_def code_info_inv_def)
    ultimately show ?thesis
      using that [of ?calls "s\<lparr>decoder := d'\<lparr>cur_ind := ?k\<rparr>, batch_done := True, the_batch_info := set_decoding_done True (the_batch_info s)\<rparr>"]
        full False f(1) p idle(2,3) d'(1) loop by (simp add: finish_batch_def after_batch_def)
  qed
qed

end
