(* ===== verification/Client_Downlink.thy ===== *)
theory Client_Downlink
  imports Client_Deliver Rx_Progress
begin

text \<open>
  The downlink from the coded packets of a batch to the packets the writing thread gets:
  \<open>RxRcvAth\<close> on the datagrams, its calls on the receive buffer, and \<open>DequeuePkt\<close>.
\<close>

section \<open>The datagrams of a batch\<close>

definition valid_rate :: "u16 \<Rightarrow> bool" where
  "valid_rate r \<longleftrightarrow> r \<in> {0x1B, 0x1A, 0x19, 0x18, 0x0B, 0x0F, 0x0A, 0x0E, 0x09, 0x0D, 0x08, 0x0C}"

lemma GetRate_valid: "valid_rate (ah_rate h) \<Longrightarrow> \<exists>r. GetRate h = ok r"
  by (auto simp: valid_rate_def GetRate_def)

record batch =
  b_id :: u32
  b_start :: u32
  b_n :: nat
  b_radio :: i32
  b_client :: i32
  b_rate :: u16
  b_pkts :: "u8 list list"
  b_size :: nat
  b_coded :: "nat \<Rightarrow> gf list"

abbreviation b_k :: "batch \<Rightarrow> nat" where "b_k B \<equiv> length (b_pkts B)"

definition b_lens :: "batch \<Rightarrow> u16 list" where
  "b_lens B = map (\<lambda>p. word_of_nat (length p)) (b_pkts B)"

definition batch_header :: "batch \<Rightarrow> u32 \<Rightarrow> nat \<Rightarrow> ath_code_header" where
  "batch_header B raw j =
     \<lparr>ah_type = ATH_CODE, raw_seq = raw, ah_rate = b_rate B, ah_bs_id = b_radio B, ah_client_id = b_client B, is_good = True,
      ch_batch_id = b_id B, ch_start_seq = b_start B, ch_ind = word_of_nat j, ch_k = word_of_nat (b_k B), ch_n = word_of_nat (b_n B)\<rparr>"

definition datagram :: "batch \<Rightarrow> u32 \<Rightarrow> nat \<Rightarrow> u8 list" where
  "datagram B raw j = code_packet (batch_header B raw j) (b_lens B) (map gf_byte (b_coded B j))"

text \<open>What a base station may send: the header's fields are in range and the packet fits the
  client's buffer.\<close>

definition sendable :: "batch \<Rightarrow> bool" where
  "sendable B \<longleftrightarrow> b_id B > 0 \<and> b_start B > 0 \<and> b_k B \<le> MAX_BATCH_SIZE \<and> b_n B \<le> 255 \<and> valid_rate (b_rate B)
     \<and> 36 + 2 * b_k B + b_size B \<le> TUN_PKT_SIZE
     \<and> coded_batch_of (b_n B) (b_pkts B) (b_size B) (b_lens B) (b_coded B)"

definition parsed_of :: "batch \<Rightarrow> nat \<Rightarrow> parsed_code" where
  "parsed_of B j = \<lparr>p_batch_id = b_id B, p_start_seq = b_start B, p_ind = j, p_k = b_k B, p_n = b_n B,
     p_bs_id = b_radio B, p_client_id = b_client B\<rparr>"

lemma sendable_bounds:
  assumes "sendable B"
  shows "1 \<le> b_k B" "b_k B \<le> b_n B" "b_n B \<le> 255" "b_k B \<le> MAX_BATCH_SIZE" "0 < b_size B" "b_size B \<le> TUN_PKT_SIZE"
  using coded_batch_ofE [of "b_n B" "b_pkts B" "b_size B" "b_lens B" "b_coded B"] assms
  by (auto simp: sendable_def)

lemma unat_byte: "m \<le> 255 \<Longrightarrow> unat (word_of_nat m :: u8) = m"
  by (simp add: unat_of_nat)

lemma parse_batch_header:
  assumes B: "sendable B" and j: "j < b_n B"
  shows "ParseHeader (batch_header B raw j) = ok (parsed_of B j)"
    "unat (ch_k (batch_header B raw j)) = length (b_lens B)" "ch_k (batch_header B raw j) > 0"
proof -
  note b = sendable_bounds [OF B]
  have u: "unat (word_of_nat j :: u8) = j" "unat (word_of_nat (b_k B) :: u8) = b_k B" "unat (word_of_nat (b_n B) :: u8) = b_n B"
    using b j by (simp_all add: unat_byte)
  show k: "unat (ch_k (batch_header B raw j)) = length (b_lens B)" using u by (simp add: batch_header_def b_lens_def)
  show "ch_k (batch_header B raw j) > 0" using u(2) b(1) by (auto simp: batch_header_def word_less_nat_alt)
  then show "ParseHeader (batch_header B raw j) = ok (parsed_of B j)"
    using u b j B by (simp add: ParseHeader_def batch_header_def parsed_of_def sendable_def word_less_nat_alt word_le_nat_alt)
qed

section \<open>One datagram\<close>

definition joined :: "batch \<Rightarrow> nat list \<Rightarrow> rcv_ath \<Rightarrow> bool" where
  "joined B xs s \<longleftrightarrow> xs = [] \<and> before_batch (b_id B) s
     \<or> in_batch (b_k B) (b_n B) (b_size B) (b_lens B) (b_coded B) (b_id B) xs s"

lemma decode_datagram:
  assumes B: "sendable B" and j: "j < b_n B" "j \<notin> set xs" and xs: "length xs < b_k B" "distinct xs" "\<forall>x\<in>set xs. x < b_n B"
    and s: "joined B xs s" and mem: "pkt_mem s = datagram B raw j @ rest"
    and nread: "nread = word_of_nat (length (datagram B raw j))"
  obtains calls s' where "decode_pkt now (batch_header B raw j) nread (parsed_of B j) dur s = ok (calls, s')"
    "Suc (length xs) < b_k B \<Longrightarrow> joined B (xs @ [j]) s' \<and> map call_of calls
      = map (native_call (b_start B) (b_pkts B)) (filter (\<lambda>i. i < b_k B) [j])"
    "Suc (length xs) = b_k B \<Longrightarrow> after_batch (b_id B) s' \<and> map call_of calls
      = map (native_call (b_start B) (b_pkts B)) (filter (\<lambda>i. i < b_k B) [j] @ filter (\<lambda>i. i \<notin> set (xs @ [j])) [0..<b_k B])"
proof -
  let ?h = "batch_header B raw j" and ?p = "parsed_of B j" and ?k = "b_k B" and ?n = "b_n B" and ?sz = "b_size B"
    and ?lens = "b_lens B" and ?c = "b_coded B"
  note b = sendable_bounds [OF B] and ph = parse_batch_header [OF B j(1)]
  have ne: "b_pkts B \<noteq> []" using b(1) by auto
  have batch: "coded_batch_of ?n (b_pkts B) ?sz ?lens ?c" using B by (simp add: sendable_def)
  have lc: "length (?c j) = ?sz" using length_coded [OF batch j(1)] .
  have parts: "hdr_lens ?h (datagram B raw j @ rest) = ok ?lens" "GetPayloadStart ?h (datagram B raw j @ rest) = map gf_byte (?c j) @ rest"
    "length (datagram B raw j) = GetFullHdrLen ?h + length (map gf_byte (?c j))"
    unfolding datagram_def by (rule code_packet_parts [OF ph(2,3)])+
  have p: "p_k ?p = ?k" "p_n ?p = ?n" "p_ind ?p = j" "p_batch_id ?p = b_id B" "p_start_seq ?p = b_start B"
    by (simp_all add: parsed_of_def)
  have ll: "length ?lens = ?k" by (simp add: b_lens_def)
  have "\<exists>s1. join_batch now ?h (pkt_mem s) ?p dur s = ok (True, s1) \<and> in_batch ?k ?n ?sz ?lens ?c (b_id B) xs s1 \<and> pkt_mem s1 = pkt_mem s"
    using s unfolding joined_def
  proof
    assume a: "xs = [] \<and> before_batch (b_id B) s"
    then have pre: "before_batch (p_batch_id ?p) s" "hdr_lens ?h (pkt_mem s) = ok ?lens" "length ?lens = p_k ?p" "0 < p_k ?p"
      "p_k ?p \<le> MAX_BATCH_SIZE" "p_ind ?p < p_n ?p"
      using parts(1) mem p ll b ne j(1) by simp_all
    show ?thesis
      by (rule join_new_batch [OF pre, where now = now and dur = dur and sz = ?sz and coded = ?c]) (use a p in auto)
  next
    assume a: "in_batch ?k ?n ?sz ?lens ?c (b_id B) xs s"
    then have pre: "in_batch (p_k ?p) (p_n ?p) ?sz ?lens ?c (p_batch_id ?p) xs s" "p_ind ?p < p_n ?p" "p_ind ?p \<notin> set xs"
      using p j by simp_all
    show ?thesis
      by (rule join_current_batch [OF pre, where now = now and dur = dur and hdr = ?h and pkt = "pkt_mem s"]) (use p in auto)
  qed
  then obtain s1 where join: "join_batch now ?h (pkt_mem s) ?p dur s = ok (True, s1)"
    and s1: "in_batch ?k ?n ?sz ?lens ?c (b_id B) xs s1" and mem1: "pkt_mem s1 = pkt_mem s" by blast
  have payload: "GetPayloadStart ?h (pkt_mem s1) = map gf_byte (?c j) @ rest" using parts(2) mem mem1 by simp
  have "length (datagram B raw j) = GetFullHdrLen ?h + ?sz" using parts(3) lc by simp
  then have len: "nread - word_of_nat (GetFullHdrLen ?h) = word_of_nat ?sz" using nread by simp
  let ?src = "map GF (map gf_byte (?c j) @ rest)"
  have src: "?sz \<le> length ?src" "take ?sz ?src = ?c j" using lc by (simp_all add: comp_def)
  have coll: "collecting ?k ?n ?sz ?lens ?c xs (decoder s1)" and room: "length xs < ?n" "?n \<le> 256"
    using s1 b xs(1) by (simp_all add: in_batch_def)
  obtain d where d: "PushPkt (word_of_nat ?sz) ?src j (decoder s1) = ok (True, d)"
    "collecting ?k ?n ?sz ?lens ?c (xs @ [j]) d"
    by (rule collect_push [OF coll room j(1) b(5,6) src])
  obtain early s2 where e: "early_enqueue (map gf_byte (?c j) @ rest) ?p (s1\<lparr>decoder := d\<rparr>) = ok (early, s2)"
    "map call_of early = map (native_call (p_start_seq ?p) (b_pkts B)) (filter (\<lambda>i. i < ?k) [p_ind ?p])"
    "in_batch ?k ?n ?sz ?lens ?c (b_id B) (xs @ [p_ind ?p]) s2"
    by (rule early_step [OF batch b(4) s1 xs(2), where p = ?p and d = d and rest = rest]) (use p j d in auto)
  have dec: "decode_pkt now ?h nread ?p dur s = and_then (finish_batch ?p s2) (\<lambda>(late, s). ok (early @ late, s))"
    using join payload len d(1) e(1) p by (simp add: decode_pkt_def Let_def)
  show thesis
  proof (cases "Suc (length xs) < ?k")
    case True
    then have "cur_ind (decoder s2) < ?k" using e(3) by (simp add: in_batch_def collecting_def)
    then have "decode_pkt now ?h nread ?p dur s = ok (early, s2)" using dec p by (simp add: finish_batch_def)
    then show ?thesis using that True e p by (simp add: joined_def)
  next
    case False
    then have full: "length (xs @ [j]) = ?k" using xs(1) by simp
    obtain late s3 where l: "finish_batch ?p s2 = ok (late, s3)" "after_batch (b_id B) s3"
      "map call_of late = map (native_call (p_start_seq ?p) (b_pkts B)) (filter (\<lambda>i. i \<notin> set (xs @ [j])) [0..<?k])"
      by (rule finish_step [OF batch b(4), where xs = "xs @ [j]" and s = s2 and p = ?p and bid = "b_id B"])
        (use e(3) p full xs j in auto)
    have "decode_pkt now ?h nread ?p dur s = ok (early @ late, s3)" using dec l(1) by simp
    then show ?thesis using that [of "early @ late" s3] False l e(2) p by simp
  qed
qed

lemma length_datagram: "sendable B \<Longrightarrow> j < b_n B \<Longrightarrow> length (datagram B raw j) \<le> TUN_PKT_SIZE"
  unfolding datagram_def
  using parse_batch_header(2,3) [of B j raw] length_coded [of "b_n B" "b_pkts B" "b_size B" "b_lens B" "b_coded B" j]
  by (simp add: code_packet_parts(4) GetFullHdrLen_def ATH_CODE_HEADER_SIZE_def b_lens_def sendable_def)

text \<open>A datagram of an earlier batch, or of the decoded one.\<close>

lemma RxRcvAth_late:
  assumes B: "sendable B" and j: "j < b_n B" and late: "b_id B < batch_id s \<or> b_id B = batch_id s \<and> batch_done s"
  shows "RxRcvAth (b_client B) (b_radio B) now (datagram B raw j) (word_of_nat (length (datagram B raw j))) s bs
    = ok ([], s\<lparr>pkt_mem := datagram B raw j @ drop (length (datagram B raw j)) (pkt_mem s),
                raw_pkt_buf := snd (PushPkts raw True (raw_pkt_buf s))\<rparr>, set_bs_id (b_radio B) bs)"
proof -
  let ?h = "batch_header B raw j" and ?data = "datagram B raw j"
  note ph = parse_batch_header [OF B j, of raw]
  have hdr: "code_header_at (?data @ drop (length ?data) (pkt_mem s)) = ?h"
    unfolding datagram_def by (rule code_packet_parts(1) [OF ph(2,3)])
  obtain rate where rate: "GetRate ?h = ok rate" using GetRate_valid [of ?h] B by (auto simp: sendable_def batch_header_def)
  have p: "p_client_id (parsed_of B j) = b_client B" "p_bs_id (parsed_of B j) = b_radio B" "p_batch_id (parsed_of B j) = b_id B"
    by (simp_all add: parsed_of_def)
  have good: "is_good ?h" "raw_seq ?h = raw" by (simp_all add: batch_header_def)
  have dec: "decode_pkt now ?h nread (parsed_of B j) dur r = ok ([], r)"
    if "b_id B < batch_id r \<or> b_id B = batch_id r \<and> batch_done r" for nread dur and r :: rcv_ath
    using that p(3) by (auto simp: decode_pkt_def join_batch_def current_batch_def)
  show ?thesis using late hdr good ph(1) p rate by (simp add: RxRcvAth_def Let_def dec)
qed

section \<open>A run of datagrams\<close>

lemma RxRcvAth_datagram:
  assumes B: "sendable B" and j: "j < b_n B" "j \<notin> set xs" and xs: "length xs < b_k B" "distinct xs" "\<forall>x\<in>set xs. x < b_n B"
    and s: "joined B xs s"
  obtains calls s' where "RxRcvAth (b_client B) (b_radio B) now (datagram B raw j) (word_of_nat (length (datagram B raw j))) s bs
      = ok (calls, s', set_bs_id (b_radio B) bs)"
    "Suc (length xs) < b_k B \<Longrightarrow> joined B (xs @ [j]) s' \<and> map call_of calls
      = map (native_call (b_start B) (b_pkts B)) (filter (\<lambda>i. i < b_k B) [j])"
    "Suc (length xs) = b_k B \<Longrightarrow> after_batch (b_id B) s' \<and> map call_of calls
      = map (native_call (b_start B) (b_pkts B)) (filter (\<lambda>i. i < b_k B) [j] @ filter (\<lambda>i. i \<notin> set (xs @ [j])) [0..<b_k B])"
proof -
  let ?h = "batch_header B raw j" and ?data = "datagram B raw j"
  let ?mem = "?data @ drop (length ?data) (pkt_mem s)"
  let ?s = "s\<lparr>pkt_mem := ?mem, raw_pkt_buf := snd (PushPkts raw True (raw_pkt_buf s))\<rparr>"
  note b = sendable_bounds [OF B] and ph = parse_batch_header [OF B j(1)]
  have batch: "coded_batch_of (b_n B) (b_pkts B) (b_size B) (b_lens B) (b_coded B)" using B by (simp add: sendable_def)
  have hdr: "code_header_at ?mem = ?h" "length ?data = GetFullHdrLen ?h + length (map gf_byte (b_coded B j))"
    unfolding datagram_def by (rule code_packet_parts [OF ph(2,3)])+
  have "length ?data \<le> TUN_PKT_SIZE" by (rule length_datagram [OF B j(1)])
  moreover have "length (pkt_mem s) = TUN_PKT_SIZE" using s by (auto simp: joined_def before_batch_def in_batch_def)
  ultimately have s': "joined B xs ?s" using s by (auto simp: joined_def before_batch_def in_batch_def)
  have mem: "pkt_mem ?s = datagram B raw j @ drop (length ?data) (pkt_mem s)" by simp
  obtain rate where rate: "GetRate ?h = ok rate" using GetRate_valid [of ?h] B by (auto simp: sendable_def batch_header_def)
  obtain calls s2 where d: "decode_pkt now ?h (word_of_nat (length ?data)) (parsed_of B j)
      (per_pkt_duration (word_of_nat (length ?data)) rate) ?s = ok (calls, s2)"
    "Suc (length xs) < b_k B \<Longrightarrow> joined B (xs @ [j]) s2 \<and> map call_of calls
      = map (native_call (b_start B) (b_pkts B)) (filter (\<lambda>i. i < b_k B) [j])"
    "Suc (length xs) = b_k B \<Longrightarrow> after_batch (b_id B) s2 \<and> map call_of calls
      = map (native_call (b_start B) (b_pkts B)) (filter (\<lambda>i. i < b_k B) [j] @ filter (\<lambda>i. i \<notin> set (xs @ [j])) [0..<b_k B])"
    by (rule decode_datagram [OF B j xs s' mem refl, where now = now and dur = "per_pkt_duration (word_of_nat (length ?data)) rate"])
      blast
  have good: "is_good ?h" "raw_seq ?h = raw" by (simp_all add: batch_header_def)
  have p: "p_client_id (parsed_of B j) = b_client B" "p_bs_id (parsed_of B j) = b_radio B" by (simp_all add: parsed_of_def)
  have "RxRcvAth (b_client B) (b_radio B) now ?data (word_of_nat (length ?data)) s bs = ok (calls, s2, set_bs_id (b_radio B) bs)"
    using hdr(1) good ph(1) p rate d(1) by (simp add: RxRcvAth_def Let_def)
  then show thesis using that d(2,3) by blast
qed

text \<open>The datagrams that arrive: clock, raw sequence number and index of the coded packet.\<close>

fun rcv_run :: "batch \<Rightarrow> (time \<times> u32 \<times> nat) list \<Rightarrow> rcv_ath \<Rightarrow> base_station_context
    \<Rightarrow> (enqueue_call list \<times> rcv_ath \<times> base_station_context) outcome" where
  "rcv_run B [] s bs = ok ([], s, bs)"
| "rcv_run B ((now, raw, j) # as) s bs =
     and_then (RxRcvAth (b_client B) (b_radio B) now (datagram B raw j) (word_of_nat (length (datagram B raw j))) s bs)
       (\<lambda>(calls, s, bs). and_then (rcv_run B as s bs) (\<lambda>(calls', s, bs). ok (calls @ calls', s, bs)))"

abbreviation inds_of :: "(time \<times> u32 \<times> nat) list \<Rightarrow> nat list" where
  "inds_of as \<equiv> map (\<lambda>(now, raw, j). j) as"

lemma rcv_run_batch:
  assumes B: "sendable B" and js: "distinct (xs @ inds_of as)" "length xs + length as = b_k B" "\<forall>x\<in>set (xs @ inds_of as). x < b_n B"
    and ne: "as \<noteq> []" and s: "joined B xs s"
  shows "\<exists>calls s' bs'. rcv_run B as s bs = ok (calls, s', bs') \<and> after_batch (b_id B) s' \<and> map call_of calls
    = map (native_call (b_start B) (b_pkts B))
        (filter (\<lambda>i. i < b_k B) (inds_of as) @ filter (\<lambda>i. i \<notin> set (xs @ inds_of as)) [0..<b_k B])"
  using js ne s
proof (induction as arbitrary: xs s bs)
  case (Cons a as)
  obtain now raw j where a: "a = (now, raw, j)" by (cases a)
  have c: "j < b_n B" "j \<notin> set xs" "length xs < b_k B" "distinct xs" "\<forall>x\<in>set xs. x < b_n B"
    using Cons.prems a by auto
  obtain calls s1 where s1: "RxRcvAth (b_client B) (b_radio B) now (datagram B raw j) (word_of_nat (length (datagram B raw j))) s bs
      = ok (calls, s1, set_bs_id (b_radio B) bs)"
    and more: "Suc (length xs) < b_k B \<Longrightarrow> joined B (xs @ [j]) s1 \<and> map call_of calls
      = map (native_call (b_start B) (b_pkts B)) (filter (\<lambda>i. i < b_k B) [j])"
    and last: "Suc (length xs) = b_k B \<Longrightarrow> after_batch (b_id B) s1 \<and> map call_of calls
      = map (native_call (b_start B) (b_pkts B)) (filter (\<lambda>i. i < b_k B) [j] @ filter (\<lambda>i. i \<notin> set (xs @ [j])) [0..<b_k B])"
    by (rule RxRcvAth_datagram [OF B c Cons.prems(5), where now = now and raw = raw and bs = bs]) blast
  show ?case
  proof (cases "as = []")
    case True
    then show ?thesis using s1 last a Cons.prems(2) by simp
  next
    case False
    have lt: "Suc (length xs) < b_k B" using Cons.prems(2) False by (cases as) auto
    have m: "joined B (xs @ [j]) s1" "map call_of calls = map (native_call (b_start B) (b_pkts B)) (filter (\<lambda>i. i < b_k B) [j])"
      using more [OF lt] by simp_all
    have pre: "distinct ((xs @ [j]) @ inds_of as)" "length (xs @ [j]) + length as = b_k B" "\<forall>x\<in>set ((xs @ [j]) @ inds_of as). x < b_n B"
      using Cons.prems(1-3) a by auto
    obtain calls' s2 bs' where "rcv_run B as s1 (set_bs_id (b_radio B) bs) = ok (calls', s2, bs')" "after_batch (b_id B) s2"
      "map call_of calls' = map (native_call (b_start B) (b_pkts B))
        (filter (\<lambda>i. i < b_k B) (inds_of as) @ filter (\<lambda>i. i \<notin> set ((xs @ [j]) @ inds_of as)) [0..<b_k B])"
      using Cons.IH [OF pre False m(1), of "set_bs_id (b_radio B) bs"] by blast
    then show ?thesis using s1 m(2) a by simp
  qed
qed simp

text \<open>Every native packet is enqueued once.\<close>

lemma native_calls_permute:
  assumes "distinct js" "k = length js"
  shows "mset (filter (\<lambda>i. i < k) js @ filter (\<lambda>i. i \<notin> set js) [0..<k]) = mset [0..<k]"
proof -
  have "distinct (filter (\<lambda>i. i < k) js @ filter (\<lambda>i. i \<notin> set js) [0..<k])" using assms(1) by auto
  moreover have "set (filter (\<lambda>i. i < k) js @ filter (\<lambda>i. i \<notin> set js) [0..<k]) = set [0..<k]" by auto
  ultimately show ?thesis using set_eq_iff_mset_eq_distinct distinct_upt by blast
qed

section \<open>The calls on the receive buffer\<close>

lemma EnqueuePkt_take:
  assumes "unat len \<le> length pkt"
  shows "EnqueuePkt seq len pkt b = EnqueuePkt seq len (take (unat len) pkt) b"
  using assms by (simp add: EnqueuePkt_def enqueue_def store_in_slot_def StorePkt_def Let_def)

lemma run_calls_put_list:
  assumes fit: "\<forall>s. length (sent s) \<le> PKT_SIZE"
    and calls: "\<forall>c\<in>set calls. call_of c = (fst c, word_of_nat (length (sent (fst c))), sent (fst c))"
    and put: "put_list (rx_put sent) (map (\<lambda>c. unat (fst c)) calls) b = ok (True, b')"
  shows "run_calls calls b = ok ([], b')"
  using calls put
proof (induction calls arbitrary: b)
  case (Cons c calls)
  obtain seq len pkt where c: "c = (seq, len, pkt)" by (cases c)
  have "call_of (seq, len, pkt) = (seq, word_of_nat (length (sent seq)), sent seq)" using Cons.prems(1) c by fastforce
  then have l: "len = word_of_nat (length (sent seq))" "take (unat len) pkt = sent seq" unfolding call_of_def by auto
  have u: "unat len = length (sent seq)" using l(1) fit by (simp add: unat_of_nat PKT_SIZE_def le_less_trans [of _ 1472])
  have "unat len \<le> length pkt" using u l(2) by (metis length_take min.cobounded2 min.commute)
  then have enq: "EnqueuePkt seq len pkt b = rx_put sent (unat seq) b"
    using EnqueuePkt_take [of len pkt seq b] l by (simp add: rx_put_def)
  obtain b1 where "EnqueuePkt seq len pkt b = ok (True, b1)" "put_list (rx_put sent) (map (\<lambda>c. unat (fst c)) calls) b1 = ok (True, b')"
    using Cons.prems(2) c enq by (auto simp: and_then_eq_ok split: if_splits)
  then show ?case using Cons.IH [of b1] Cons.prems(1) c by simp
qed simp

text \<open>From the datagrams of a batch to the packets of \<open>DequeuePkt\<close>.\<close>

lemma batch_positions:
  assumes "unat start + k < 2 ^ 32" "i < k"
  shows "unat (start + word_of_nat i :: u32) = unat start + i"
proof -
  have "unat (word_of_nat i :: u32) = i" using assms by (simp add: unat_of_nat)
  then show ?thesis using unat_add_lem [of start "word_of_nat i"] assms by simp
qed

lemma downlink_run:
  assumes B: "sendable B" and as: "distinct (inds_of as)" "length as = b_k B" "\<forall>x\<in>set (inds_of as). x < b_n B"
    and s: "before_batch (b_id B) s" and b: "rx_ready sent b" "b_start B = head_pt b + 1" "unat (head_pt b) + b_k B \<le> rx_last"
    and sent: "\<forall>i<b_k B. sent (b_start B + word_of_nat i) = b_pkts B ! i"
  shows "\<exists>calls s' bs' b1 b2. rcv_run B as s bs = ok (calls, s', bs')
    \<and> mset (map call_of calls) = mset (map (native_call (b_start B) (b_pkts B)) [0..<b_k B])
    \<and> run_calls calls b = ok ([], b1) \<and> get_list (rx_get now) (b_k B) b1 = ok (map Some (b_pkts B), b2)
    \<and> after_batch (b_id B) s' \<and> rx_ready sent b2 \<and> unat (head_pt b2) = unat (head_pt b) + b_k B"
proof -
  let ?k = "b_k B" and ?start = "b_start B"
  note bd = sendable_bounds [OF B]
  have ne: "as \<noteq> []" using as(2) bd(1) by auto
  obtain calls s' bs' where run: "rcv_run B as s bs = ok (calls, s', bs')" and after: "after_batch (b_id B) s'"
    and calls: "map call_of calls = map (native_call ?start (b_pkts B))
        (filter (\<lambda>i. i < ?k) (inds_of as) @ filter (\<lambda>i. i \<notin> set (inds_of as)) [0..<?k])"
    using rcv_run_batch [of B "[]" as s bs] B as ne s by (auto simp: joined_def)
  have perm: "mset (map call_of calls) = mset (map (native_call ?start (b_pkts B)) [0..<?k])"
    unfolding calls mset_map using native_calls_permute [OF as(1), of ?k] as(2) by simp
  have pos: "unat ?start = unat (head_pt b) + 1" "unat ?start + ?k < 2 ^ 32"
  proof -
    have "unat (head_pt b) + 1 < 2 ^ 32" using b(3) bd(1) by (simp add: rx_last_def BUF_SIZE_def)
    then show "unat ?start = unat (head_pt b) + 1" using b(2) unat_add_lem [of "head_pt b" 1] by simp
    then show "unat ?start + ?k < 2 ^ 32" using b(3) by (simp add: rx_last_def BUF_SIZE_def)
  qed
  have sets: "set (map call_of calls) = native_call ?start (b_pkts B) ` {0..<?k}"
    using perm by (metis atLeastLessThan_upt list.set_map set_mset_mset)
  have each: "\<forall>c\<in>set calls. call_of c = (fst c, word_of_nat (length (sent (fst c))), sent (fst c))"
  proof
    fix c assume "c \<in> set calls"
    then have "call_of c \<in> native_call ?start (b_pkts B) ` {0..<?k}" using sets by auto
    then obtain i where i: "i < ?k" "call_of c = native_call ?start (b_pkts B) i" by auto
    then have "fst c = ?start + word_of_nat i" by (cases c) (simp add: call_of_def native_call_def)
    then show "call_of c = (fst c, word_of_nat (length (sent (fst c))), sent (fst c))"
      using i sent by (simp add: native_call_def)
  qed
  have "(\<lambda>c. unat (fst c)) ` set calls = (\<lambda>c. unat (fst c)) ` set (map call_of calls)"
    by (force simp: call_of_def image_iff)
  also have "\<dots> = (\<lambda>i. unat ?start + i) ` {0..<?k}"
    unfolding sets image_image using batch_positions [OF pos(2)] by (intro image_cong) (simp_all add: native_call_def)
  also have "\<dots> = {unat (head_pt b)<..unat (head_pt b) + ?k}"
  proof (intro set_eqI iffI)
    fix p assume "p \<in> {unat (head_pt b)<..unat (head_pt b) + ?k}"
    then have "p = unat ?start + (p - unat ?start)" "p - unat ?start \<in> {0..<?k}" using pos(1) by auto
    then show "p \<in> (\<lambda>i. unat ?start + i) ` {0..<?k}" by (rule image_eqI)
  qed (use pos(1) in auto)
  finally have positions: "set (map (\<lambda>c. unat (fst c)) calls) = {unat (head_pt b)<..unat (head_pt b) + ?k}" by simp
  have cap: "?k \<le> BUF_SIZE - 1" using bd(4) by (simp add: MAX_BATCH_SIZE_def BUF_SIZE_def)
  obtain b1 b2 where put: "put_list (rx_put sent) (map (\<lambda>c. unat (fst c)) calls) b = ok (True, b1)"
    and get: "get_list (rx_get now) ?k b1 = ok (map (\<lambda>i. Some (sent (word_of_nat (unat (head_pt b) + 1 + i)))) [0..<?k], b2)"
    and b2: "rx_ready sent b2" "unat (head_pt b2) = unat (head_pt b) + ?k"
    using rx.reorders [OF b(1) positions cap b(3), where now = now] by blast
  have "run_calls calls b = ok ([], b1)" using run_calls_put_list [OF _ each put] b(1) by (simp add: rx_ready_def)
  moreover have "map (\<lambda>i. Some (sent (word_of_nat (unat (head_pt b) + 1 + i)))) [0..<?k] = map Some (b_pkts B)"
  proof (rule nth_equalityI)
    fix i assume "i < length (map (\<lambda>i. Some (sent (word_of_nat (unat (head_pt b) + 1 + i)))) [0..<?k])"
    then have i: "i < ?k" by simp
    have "(word_of_nat (unat (head_pt b) + 1 + i) :: u32) = ?start + word_of_nat i" using b(2) by simp
    then show "map (\<lambda>i. Some (sent (word_of_nat (unat (head_pt b) + 1 + i)))) [0..<?k] ! i = map Some (b_pkts B) ! i"
      using i sent by (simp del: of_nat_add of_nat_Suc)
  qed simp
  ultimately show ?thesis using run perm get after b2 by metis
qed

end
