(* ===== verification/Client_Stream.thy ===== *)
theory Client_Stream
  imports Client_Downlink
begin

text \<open>
  A stream of batches through one radio: the datagrams of each batch, with coded packets that come
  after the batch is decoded, the calls of \<open>EnqueuePkt\<close> and those of \<open>DequeuePkt\<close>.
\<close>

section \<open>Datagrams behind a decoded batch\<close>

lemma RxRcvAth_after:
  assumes "sendable B" "j < b_n B" "after_batch (b_id B) s"
  obtains s' where "RxRcvAth (b_client B) (b_radio B) now (datagram B raw j) (word_of_nat (length (datagram B raw j))) s bs
      = ok ([], s', set_bs_id (b_radio B) bs)" "after_batch (b_id B) s'"
proof -
  have "b_id B < batch_id s \<or> b_id B = batch_id s \<and> batch_done s" using assms(3) by (simp add: after_batch_def)
  note late = RxRcvAth_late [OF assms(1,2) this, of now raw bs]
  show thesis by (rule that [OF late]) (use assms length_datagram [OF assms(1,2), of raw] in \<open>simp add: after_batch_def\<close>)
qed

lemma rcv_run_after:
  "sendable B \<Longrightarrow> \<forall>j\<in>set (inds_of as). j < b_n B \<Longrightarrow> after_batch (b_id B) s
    \<Longrightarrow> \<exists>s' bs'. rcv_run B as s bs = ok ([], s', bs') \<and> after_batch (b_id B) s'"
proof (induction as arbitrary: s bs)
  case (Cons a as)
  obtain now raw j where a: "a = (now, raw, j)" by (cases a)
  have j: "j < b_n B" using Cons.prems(2) a by simp
  obtain s1 where s1: "RxRcvAth (b_client B) (b_radio B) now (datagram B raw j) (word_of_nat (length (datagram B raw j))) s bs
      = ok ([], s1, set_bs_id (b_radio B) bs)" "after_batch (b_id B) s1"
    by (rule RxRcvAth_after [OF Cons.prems(1) j Cons.prems(3), where now = now and raw = raw and bs = bs])
  have "\<forall>j\<in>set (inds_of as). j < b_n B" using Cons.prems(2) by simp
  from Cons.IH [OF Cons.prems(1) this s1(2), of "set_bs_id (b_radio B) bs"] show ?case using s1(1) a by auto
qed simp

lemma rcv_run_append:
  "rcv_run B (xs @ ys) s bs = and_then (rcv_run B xs s bs) (\<lambda>(calls, s, bs).
     and_then (rcv_run B ys s bs) (\<lambda>(calls', s, bs). ok (calls @ calls', s, bs)))"
proof (induction xs arbitrary: s bs)
  case Nil
  show ?case by (cases "rcv_run B ys s bs") auto
next
  case (Cons a xs)
  obtain now raw j where a: "a = (now, raw, j)" by (cases a)
  show ?case using Cons.IH by (simp add: a and_then_assoc case_prod_beta' split_def)
qed

section \<open>The stream\<close>

type_synonym arrivals = "(time \<times> u32 \<times> nat) list"

text \<open>
  The packets the writing thread gets; \<open>None\<close> when a call of \<open>EnqueuePkt\<close> has to wait. The writing
  thread catches up after each batch.
\<close>

fun downlink_stream ::
  "time \<Rightarrow> (batch \<times> arrivals) list \<Rightarrow> rcv_ath \<Rightarrow> base_station_context \<Rightarrow> rx_data_buf
     \<Rightarrow> (u8 list option list option \<times> rx_data_buf) outcome" where
  "downlink_stream now [] s bs b = ok (Some [], b)"
| "downlink_stream now ((B, as) # rest) s bs b =
     and_then (rcv_run B as s bs) (\<lambda>(calls, s, bs).
     and_then (run_calls calls b) (\<lambda>(left, b).
       if left \<noteq> [] then ok (None, b)
       else and_then (get_list (rx_get now) (b_k B) b) (\<lambda>(ps, b).
            and_then (downlink_stream now rest s bs b) (\<lambda>(r, b). ok (map_option (append ps) r, b)))))"

text \<open>
  Batches one behind the other in numbers, in the order of their identifiers; of each one, \<open>k\<close>
  different coded packets arrive, and then any others.
\<close>

definition arrives :: "batch \<Rightarrow> arrivals \<Rightarrow> bool" where
  "arrives B as \<longleftrightarrow> (\<forall>j\<in>set (inds_of as). j < b_n B) \<and> b_k B \<le> length as \<and> distinct (take (b_k B) (inds_of as))"

fun consecutive :: "nat \<Rightarrow> u32 \<Rightarrow> batch list \<Rightarrow> bool" where
  "consecutive pos bid [] \<longleftrightarrow> True"
| "consecutive pos bid (B # Bs) \<longleftrightarrow> b_start B = word_of_nat (pos + 1) \<and> bid < b_id B \<and> consecutive (pos + b_k B) (b_id B) Bs"

definition carries :: "(u32 \<Rightarrow> u8 list) \<Rightarrow> batch \<Rightarrow> bool" where
  "carries sent B \<longleftrightarrow> (\<forall>i<b_k B. sent (b_start B + word_of_nat i) = b_pkts B ! i)"

lemma stream_batch:
  assumes B: "sendable B" and as: "arrives B as" and s: "before_batch (b_id B) s" and b: "rx_ready sent b" "b_start B = head_pt b + 1"
    "unat (head_pt b) + b_k B \<le> rx_last" and sent: "carries sent B"
  shows "\<exists>calls s' bs' b1 b2. rcv_run B as s bs = ok (calls, s', bs') \<and> run_calls calls b = ok ([], b1)
    \<and> get_list (rx_get now) (b_k B) b1 = ok (map Some (b_pkts B), b2)
    \<and> after_batch (b_id B) s' \<and> rx_ready sent b2 \<and> unat (head_pt b2) = unat (head_pt b) + b_k B"
proof -
  let ?xs = "take (b_k B) as" and ?ys = "drop (b_k B) as"
  have xs: "distinct (inds_of ?xs)" "length ?xs = b_k B" "\<forall>x\<in>set (inds_of ?xs). x < b_n B"
    using as set_take_subset [of "b_k B" as] by (auto simp: arrives_def take_map)
  have ys: "\<forall>x\<in>set (inds_of ?ys). x < b_n B" using as set_drop_subset [of "b_k B" as] by (auto simp: arrives_def)
  obtain calls s1 bs1 b1 b2 where r: "rcv_run B ?xs s bs = ok (calls, s1, bs1)" "run_calls calls b = ok ([], b1)"
    "get_list (rx_get now) (b_k B) b1 = ok (map Some (b_pkts B), b2)" "after_batch (b_id B) s1" "rx_ready sent b2"
    "unat (head_pt b2) = unat (head_pt b) + b_k B"
    using downlink_run [OF B xs s b, of bs now] sent unfolding carries_def by blast
  obtain s2 bs2 where "rcv_run B ?ys s1 bs1 = ok ([], s2, bs2)" "after_batch (b_id B) s2"
    using rcv_run_after [OF B ys r(4)] by blast
  then show ?thesis using r rcv_run_append [of B ?xs ?ys s bs] by simp
qed

lemma stream_run:
  assumes "\<forall>(B, as)\<in>set stream. sendable B \<and> arrives B as \<and> carries sent B"
    and "consecutive (unat (head_pt b)) bid (map fst stream)" "\<And>bid'. bid < bid' \<Longrightarrow> before_batch bid' s"
    and "rx_ready sent b" "unat (head_pt b) + sum_list (map (b_k \<circ> fst) stream) \<le> rx_last"
  shows "\<exists>b'. downlink_stream now stream s bs b = ok (Some (map Some (concat (map (b_pkts \<circ> fst) stream))), b') \<and> rx_ready sent b'"
  using assms
proof (induction stream arbitrary: s bs b bid)
  case (Cons a stream)
  obtain B as where a: "a = (B, as)" by (cases a)
  have B: "sendable B" "arrives B as" "carries sent B" using Cons.prems(1) a by auto
  have start: "b_start B = head_pt b + 1" "bid < b_id B" "consecutive (unat (head_pt b) + b_k B) (b_id B) (map fst stream)"
    using Cons.prems(2) a by (simp_all add: add.commute)
  have room: "unat (head_pt b) + b_k B \<le> rx_last" using Cons.prems(5) a by simp
  obtain calls s1 bs1 b1 b2 where r: "rcv_run B as s bs = ok (calls, s1, bs1)" "run_calls calls b = ok ([], b1)"
    "get_list (rx_get now) (b_k B) b1 = ok (map Some (b_pkts B), b2)" "after_batch (b_id B) s1" "rx_ready sent b2"
    and head: "unat (head_pt b2) = unat (head_pt b) + b_k B"
    using stream_batch [OF B(1,2) Cons.prems(3) [OF start(2)] Cons.prems(4) start(1) room B(3), of bs now] by blast
  obtain b' where "downlink_stream now stream s1 bs1 b2 = ok (Some (map Some (concat (map (b_pkts \<circ> fst) stream))), b')" "rx_ready sent b'"
  proof -
    have "\<forall>(B, as)\<in>set stream. sendable B \<and> arrives B as \<and> carries sent B" using Cons.prems(1) by simp
    moreover have "consecutive (unat (head_pt b2)) (b_id B) (map fst stream)" using start(3) head by simp
    moreover have "unat (head_pt b2) + sum_list (map (b_k \<circ> fst) stream) \<le> rx_last" using Cons.prems(5) head a by (simp add: comp_def)
    ultimately show thesis using Cons.IH [OF _ _ after_before [OF r(4)] r(5)] that by blast
  qed
  then show ?case using r a by (simp add: comp_def)
qed simp

end
