(* ===== verification/Client_Acks.thy ===== *)
theory Client_Acks
  imports Client_Threads
begin

text \<open>
  The acknowledgements on the wire: what a receiver of the datagrams of \<open>RxCreateDataAck\<close> and
  \<open>RxCreateRawAck\<close> reads is what the client's buffers hold.
\<close>

section \<open>The datagram\<close>

definition ACK_PKT_SIZE :: nat where "ACK_PKT_SIZE = 1028"

definition ack_datagram :: "u8 list \<Rightarrow> ack_pkt \<Rightarrow> u8 list" where
  "ack_datagram mem a = take (28 + 2 * unat (num_nacks (ack_hdr a))) (ack_bytes mem a)"

lemma load_take: "off + n \<le> m \<Longrightarrow> load n (take m xs) off = load n xs off"
  by (simp add: load_def drop_take min_def)

lemma load_word_take:
  "off + 2 \<le> m \<Longrightarrow> load_u16 (take m xs) off = load_u16 xs off" "off + 4 \<le> m \<Longrightarrow> load_u32 (take m xs) off = load_u32 xs off"
  by (simp_all add: load_u16_def load_u32_def load_take)

lemma load_word_put_u16s:
  "off' + 2 \<le> length pkt \<Longrightarrow> off' + 2 \<le> off \<Longrightarrow> load_u16 (put_u16s off xs pkt) off' = load_u16 pkt off'"
  "off' + 4 \<le> length pkt \<Longrightarrow> off' + 4 \<le> off \<Longrightarrow> load_u32 (put_u16s off xs pkt) off' = load_u32 pkt off'"
  by (simp_all add: load_u16_def load_u32_def load_put_u16s_other)

lemma ack_hdr_bytes:
  assumes "length (rel_seq_arr a) = ACK_WINDOW" "length mem = ACK_PKT_SIZE" "28 \<le> m"
  shows "ack_hdr (ack_at (take m (ack_bytes mem a))) = ack_hdr a"
proof -
  obtain h r where a: "a = \<lparr>ack_hdr = h, rel_seq_arr = r\<rparr>" by (cases a)
  show ?thesis
    using assms unfolding a
    by (cases h) (simp add: ack_at_def ack_bytes_def load_word_take load_word_put_u16s put_u16s_other put_load ACK_PKT_SIZE_def)
qed

lemma ack_nacks_bytes:
  assumes "ack_inv a" "length mem = ACK_PKT_SIZE"
  shows "ack_hdr (ack_at (ack_datagram mem a)) = ack_hdr a" "nack_seqs (ack_at (ack_datagram mem a)) = nack_seqs a"
proof -
  let ?n = "unat (num_nacks (ack_hdr a))"
  have len: "length (rel_seq_arr a) = ACK_WINDOW" "?n \<le> 500" using assms(1) by (simp_all add: ack_inv_def ACK_WINDOW_def)
  show h: "ack_hdr (ack_at (ack_datagram mem a)) = ack_hdr a"
    unfolding ack_datagram_def by (rule ack_hdr_bytes [OF len(1) assms(2)]) simp
  have "rel_seq_arr (ack_at (ack_datagram mem a)) ! i = rel_seq_arr a ! i" if i: "i < ?n" for i
  proof -
    have "load_u16 (ack_bytes mem a) (28 + 2 * i) = rel_seq_arr a ! i"
      unfolding ack_bytes_def Let_def
      using load_put_u16s [of 28 "rel_seq_arr a" _ i] len i assms(2) by (simp add: ACK_PKT_SIZE_def ACK_WINDOW_def)
    then show ?thesis
      using i len by (simp add: ack_at_def load_u16s_def ACK_WINDOW_def ack_datagram_def load_u16_def load_take)
  qed
  then show "nack_seqs (ack_at (ack_datagram mem a)) = nack_seqs a" by (simp add: nack_seqs_def h)
qed

text \<open>What the other side parses.\<close>

definition parsed_ack :: "u8 list \<Rightarrow> parsed_nack outcome" where
  "parsed_ack data = ParseNack (ack_at data)"

lemma parsed_ack_datagram:
  assumes "ack_inv a" "length mem = ACK_PKT_SIZE"
  shows "parsed_ack (ack_datagram mem a) = ok \<lparr>pn_type = ak_type (ack_hdr a), pn_ack_seq = ack_seq (ack_hdr a),
    pn_num_nacks = num_nacks (ack_hdr a), pn_end_seq = ak_end_seq (ack_hdr a), pn_client_id = ak_client_id (ack_hdr a),
    pn_bs_id = ak_bs_id (ack_hdr a), pn_num_pkts = num_pkts (ack_hdr a), pn_seqs = nack_seqs a\<rparr>"
proof -
  have "unat (num_nacks (ack_hdr a)) \<le> length (rel_seq_arr (ack_at (ack_datagram mem a)))"
    using assms(1) by (simp add: ack_at_def load_u16s_def ack_inv_def)
  then show ?thesis using ack_nacks_bytes [OF assms] by (simp add: parsed_ack_def ParseNack_def)
qed

lemma send_ack_ok:
  assumes "ack_inv a" "length mem = ACK_PKT_SIZE" "send_sane sys"
  obtains n where "send_ack sys mem a t = ok (n, t\<lparr>outbox := outbox t @ [(kController, ack_datagram mem a)]\<rparr>)"
proof -
  let ?n = "num_nacks (ack_hdr a)" and ?len = "word_of_nat ACK_HEADER_SIZE + 2 * num_nacks (ack_hdr a) :: u16"
  have n: "unat ?n \<le> 500" using assms(1) by (simp add: ack_inv_def ACK_WINDOW_def)
  then have "unat (2 * ?n) = 2 * unat ?n" using unat_mult_lem [of 2 ?n] by simp
  then have len: "unat ?len = 28 + 2 * unat ?n"
    using unat_add_lem [of "28 :: u16" "2 * ?n"] n by (simp add: ACK_HEADER_SIZE_def)
  then have "?len > 0" by (simp add: word_less_nat_alt)
  moreover have "unat ?len \<le> PKT_SIZE" "unat ?len \<le> length (ack_bytes mem a)"
    using len n assms(2) by (simp_all add: PKT_SIZE_def ack_bytes_def Let_def ACK_PKT_SIZE_def)
  ultimately have "send_ack sys mem a t = ok (?len, t\<lparr>outbox := outbox t @ [(kController, ack_datagram mem a)]\<rparr>)"
    using Tun_Write_sent [OF assms(3), of kController ?len "ack_bytes mem a" 0 t] len
    by (simp add: send_ack_def GetLen_ack_def Let_def ack_datagram_def)
  then show thesis by (rule that)
qed

text \<open>\<open>PushNack\<close> and the setters change only their fields.\<close>

definition same_head :: "ack_pkt \<Rightarrow> ack_pkt \<Rightarrow> bool" where
  "same_head a a' \<longleftrightarrow> ak_type (ack_hdr a') = ak_type (ack_hdr a) \<and> ack_seq (ack_hdr a') = ack_seq (ack_hdr a)
     \<and> num_pkts (ack_hdr a') = num_pkts (ack_hdr a)"

lemma PushNack_head: "PushNack s a = ok a' \<Longrightarrow> same_head a a'"
  by (auto simp: PushNack_def and_then_eq_ok same_head_def split: if_splits)

lemma push_list_head:
  "(\<And>s a a'. push s a = ok a' \<Longrightarrow> same_head a a') \<Longrightarrow> push_list push ss a = ok a' \<Longrightarrow> same_head a a'"
proof (induction ss arbitrary: a)
  case (Cons s ss)
  obtain a1 where "push s a = ok a1" "push_list push ss a1 = ok a'" using Cons.prems(2) by (auto simp: and_then_eq_ok)
  then show ?case using Cons.IH [OF Cons.prems(1)] Cons.prems(1) by (fastforce simp: same_head_def)
qed (simp add: same_head_def)

section \<open>The raw acknowledgement\<close>

interpretation raw_ack: nack_codec PushRawNack nack_seqs ack_inv within_u16 "ACK_WINDOW - 1"
proof
  fix a s
  assume a: "ack_inv a" "length (nack_seqs a) < ACK_WINDOW - 1" and near: "nack_seqs a \<noteq> [] \<Longrightarrow> within_u16 (hd (nack_seqs a)) s"
  have room: "length (nack_seqs a) < ACK_WINDOW" using a(2) by simp
  obtain a' where a': "PushNack s a = ok a'" "ack_inv a'" "nack_seqs a' = nack_seqs a @ [s]"
    using ack.push_ok [OF a(1) room near] by blast
  have "\<not> ack_IsFull a'" using length_nack_seqs [of a'] a'(3) a(2) by (simp add: ack_IsFull_def)
  then show "\<exists>a'. PushRawNack s a = ok a' \<and> ack_inv a' \<and> nack_seqs a' = nack_seqs a @ [s]"
    using a' by (simp add: PushRawNack_def)
qed

lemma PushRawNack_head: "PushRawNack s a = ok a' \<Longrightarrow> same_head a a'"
  using PushNack_head by (auto simp: PushRawNack_def and_then_eq_ok split: if_splits)

lemma within_u16_sorted:
  fixes xs :: "u32 list"
  assumes "sorted_wrt (<) xs" "\<forall>x\<in>set xs. unat m < unat x + 65536 \<and> x \<le> m" "s \<in> set xs"
  shows "within_u16 (hd xs) s"
proof -
  have h: "hd xs \<in> set xs" using assms(3) by (cases xs) auto
  have "hd xs \<le> s" using assms(1,3) by (cases xs) auto
  then have "unat (s - hd xs) = unat s - unat (hd xs)" by (simp add: unat_sub)
  moreover have "unat s \<le> unat m" "unat m < unat (hd xs) + 65536" using assms(2,3) h by (auto simp: word_le_nat_alt)
  ultimately show ?thesis by (simp add: within_u16_def)
qed

text \<open>
  The numbers pending after good packets only, for a count of at most 131, lie close enough for the
  16-bit differences.
\<close>

lemma pending_near:
  assumes b: "raw_good b" "raw_span b" and mx: "max_reports (max_send_cnt b) \<le> 131" and "s \<in> set (map rs_seq (nack_deq b))"
  shows "within_u16 (hd (map rs_seq (nack_deq b))) s"
proof (rule within_u16_sorted [where m = "rb_end_seq b"])
  have inv: "raw_inv b" using b(1) by (simp add: raw_good_def)
  show "sorted_wrt (<) (map rs_seq (nack_deq b))" using b(2) by (simp add: raw_span_def)
  have "unat (rb_end_seq b) < unat (rs_seq x) + 65536" if "x \<in> set (nack_deq b)" for x
    using raw_span_near [OF inv b(2) that] mult_le_mono2 [OF mx, of 500] by linarith
  then show "\<forall>x\<in>set (map rs_seq (nack_deq b)). unat (rb_end_seq b) < unat x + 65536 \<and> x \<le> rb_end_seq b"
    using inv by (auto simp: raw_inv_def)
qed (use assms(4) in simp)

lemma pop_ready:
  "m \<le> pkt_cnt b \<Longrightarrow> \<exists>b'. PopPktStatus m b = Some ((map rs_seq (nack_deq b), rb_end_seq b, ucast (pkt_cnt b)), b')"
  by (simp add: PopPktStatus_def Let_def not_less [symmetric] del: not_less)

lemma raw_ack_run:
  fixes r :: radio_context
  assumes b: "raw_good (raw_pkt_buf r)" "raw_span (raw_pkt_buf r)" and mx: "max_reports (max_send_cnt (raw_pkt_buf r)) \<le> 131"
    and few: "length (nack_deq (raw_pkt_buf r)) < ACK_WINDOW" and a: "ack_inv a" "length mem = ACK_PKT_SIZE" "send_sane sys"
    and pop: "PopPktStatus m (raw_pkt_buf r) = Some ((seqs, e, n), b')"
  shows "\<exists>a' t' dg k. RxCreateRawAck sys m mem r a t = ok (Some (a', r\<lparr>raw_pkt_buf := b'\<rparr>, t'))
    \<and> outbox t' = outbox t @ [(kController, dg)]
    \<and> parsed_ack dg = ok \<lparr>pn_type = RAW_ACK, pn_ack_seq = ack_seq (ack_hdr a) + 1, pn_num_nacks = k, pn_end_seq = e,
         pn_client_id = tun_client_id t, pn_bs_id = ctx_bs_id r, pn_num_pkts = n, pn_seqs = seqs\<rparr>"
proof -
  have seqs: "seqs = map rs_seq (nack_deq (raw_pkt_buf r))" using pop by (auto simp: PopPktStatus_def Let_def split: if_splits)
  have cap: "length seqs \<le> ACK_WINDOW - 1" using few seqs by simp
  let ?a = "ack_Init RAW_ACK a"
  have i: "ack_inv ?a" "nack_seqs ?a = []" using a(1) by (simp_all add: ack_Init_inv nack_seqs_ack_Init)
  obtain a1 where a1: "push_list PushRawNack seqs ?a = ok a1" "ack_inv a1" "nack_seqs a1 = seqs"
    using raw_ack.push_list_appends [OF i(1), of seqs] i(2) cap pending_near [OF b mx] seqs by auto
  let ?a2 = "set_ids (tun_client_id t) (radio_bs_id r) (set_num_pkts n (set_end_seq e a1))"
  have head: "same_head ?a a1" using push_list_head [OF PushRawNack_head a1(1)] .
  have a2: "ack_inv ?a2" "nack_seqs ?a2 = seqs" using a1 by simp_all
  obtain l where "send_ack sys mem ?a2 t = ok (l, t\<lparr>outbox := outbox t @ [(kController, ack_datagram mem ?a2)]\<rparr>)"
    by (rule send_ack_ok [OF a2(1) a(2,3)])
  then have "RxCreateRawAck sys m mem r a t
      = ok (Some (?a2, r\<lparr>raw_pkt_buf := b'\<rparr>, t\<lparr>outbox := outbox t @ [(kController, ack_datagram mem ?a2)]\<rparr>))"
    using pop a1(1) by (simp add: RxCreateRawAck_def Let_def)
  moreover have "ak_type (ack_hdr ?a2) = RAW_ACK" "ack_seq (ack_hdr ?a2) = ack_seq (ack_hdr a) + 1" "ak_end_seq (ack_hdr ?a2) = e"
    "ak_client_id (ack_hdr ?a2) = tun_client_id t" "ak_bs_id (ack_hdr ?a2) = ctx_bs_id r" "num_pkts (ack_hdr ?a2) = n"
    using head by (simp_all add: same_head_def set_ids_def set_num_pkts_def set_end_seq_def ack_Init_def AckHeader_Init_def radio_bs_id_def)
  ultimately show ?thesis
    using parsed_ack_datagram [OF a2(1) a(2)] a2(2) by (intro exI conjI) (assumption, simp_all)
qed

text \<open>With 500 pending numbers the last \<open>PushNack\<close> fills the acknowledgement, and the process exits.\<close>

lemma push_list_append: "push_list push (xs @ ys) a = and_then (push_list push xs a) (push_list push ys)"
  by (induction xs arbitrary: a) (simp_all add: and_then_def split: sum.splits)

lemma raw_ack_exits:
  fixes r :: radio_context
  assumes b: "raw_good (raw_pkt_buf r)" "raw_span (raw_pkt_buf r)" and mx: "max_reports (max_send_cnt (raw_pkt_buf r)) \<le> 131"
    and many: "ACK_WINDOW \<le> length (nack_deq (raw_pkt_buf r))" and a: "ack_inv a" and ready: "m \<le> pkt_cnt (raw_pkt_buf r)"
  shows "RxCreateRawAck sys m mem r a t = abort Perror_Exit"
proof -
  let ?seqs = "map rs_seq (nack_deq (raw_pkt_buf r))" and ?a = "ack_Init RAW_ACK a" and ?n = "ACK_WINDOW - 1"
  have split: "?seqs = take ?n ?seqs @ ?seqs ! ?n # drop (Suc ?n) ?seqs"
    by (rule id_take_nth_drop) (use many in \<open>simp add: ACK_WINDOW_def\<close>)
  have hd: "hd (take ?n ?seqs) = hd ?seqs" "take ?n ?seqs \<noteq> []" using many by (auto simp: ACK_WINDOW_def hd_take)
  have near: "within_u16 (hd ?seqs) s" if "s \<in> set ?seqs" for s using pending_near [OF b mx that] .
  have i: "ack_inv ?a" "nack_seqs ?a = []" using a by (simp_all add: ack_Init_inv nack_seqs_ack_Init)
  have near': "within_u16 (hd (nack_seqs ?a @ take ?n ?seqs)) s" if "s \<in> set (take ?n ?seqs)" for s
    using near [OF in_set_takeD [OF that]] i(2) hd(1) by simp
  obtain a1 where a1: "push_list PushRawNack (take ?n ?seqs) ?a = ok a1" "ack_inv a1" "nack_seqs a1 = take ?n ?seqs"
    using raw_ack.push_list_appends [OF i(1) _ near'] i(2) by auto
  have len: "length (nack_seqs a1) = ?n" using a1(3) many by simp
  have last: "?seqs ! ?n \<in> set ?seqs" by (rule nth_mem) (use many in \<open>simp add: ACK_WINDOW_def\<close>)
  obtain a2 where a2: "PushNack (?seqs ! ?n) a1 = ok a2" "nack_seqs a2 = nack_seqs a1 @ [?seqs ! ?n]"
    using ack.push_ok [OF a1(2), of "?seqs ! ?n"] near [OF last] len a1(3) hd(1) by (auto simp: ACK_WINDOW_def)
  have "ack_IsFull a2" using length_nack_seqs [of a2] a2(2) len by (simp add: ack_IsFull_def ACK_WINDOW_def)
  then have "push_list PushRawNack (?seqs ! ?n # drop (Suc ?n) ?seqs) a1 = abort Perror_Exit"
    using a2(1) by (simp add: PushRawNack_def)
  then have "push_list PushRawNack ?seqs ?a = abort Perror_Exit"
    using a1(1) arg_cong [OF split, of "\<lambda>xs. push_list PushRawNack xs ?a"] by (simp add: push_list_append)
  then show ?thesis using pop_ready [OF ready] by (auto simp: RxCreateRawAck_def)
qed

section \<open>The data acknowledgement\<close>

lemma hole_numbers_span:
  assumes inv: "rx_ok stale sent b" and tail: "tail_pt b \<noteq> 0" "unat (tail_pt b) + 1 < 2 ^ 32"
    and scans: "scans (head_pt b) (tail_pt b) highest d" and few: "length (hole_numbers bt now b highest d) < ACK_WINDOW"
    and p: "p \<in> set (hole_numbers bt now b highest d)"
  defines "m \<equiv> max (tail_pt b) (scan_end (tail_pt b) highest d)"
  shows "unat m < p + 65536" "p \<le> unat m" "p < 2 ^ 32"
proof -
  let ?fin = "scan_end (tail_pt b) highest d"
  note h = hole_numbers_positions [OF inv tail scans]
  have lt: "unat (scan_last (tail_pt b) highest d - 1) < unat (tail_pt b)" using h(2) by (simp add: word_less_nat_alt)
  note bounds = nack_positions_bounds [OF lt tail(2) p [unfolded h(1)]]
  then show "p < 2 ^ 32" by blast
  have "unat ?fin + 1 - (unat (tail_pt b) + 1) \<le> length (hole_numbers bt now b highest d)"
    using scans unfolding hole_numbers_def by (simp only: if_True length_append length_upt)
  then have behind: "unat ?fin < unat (tail_pt b) + 500" using few by (simp add: ACK_WINDOW_def)
  have mm: "unat m = max (unat (tail_pt b)) (unat ?fin)" by (simp add: m_def max_def word_le_nat_alt)
  have "unat (tail_pt b) \<le> unat (head_pt b) + 5000" using inv by (simp add: rx_ok_def BUF_SIZE_def)
  then show "unat m < p + 65536" "p \<le> unat m"
    using bounds(1) behind mm by (auto simp: max_def)
qed

lemma hole_numbers_words:
  assumes inv: "rx_ok stale sent b" and tail: "scans (head_pt b) (tail_pt b) highest d \<Longrightarrow> tail_pt b \<noteq> 0" "unat (tail_pt b) + 1 < 2 ^ 32"
    and few: "length (hole_numbers bt now b highest d) < ACK_WINDOW"
  defines "seqs \<equiv> map word_of_nat (hole_numbers bt now b highest d) :: u32 list"
  shows "sorted_wrt (<) seqs" "\<And>s. s \<in> set seqs \<Longrightarrow> within_u16 (hd seqs) s" "\<And>s. s \<in> set seqs \<Longrightarrow> \<not> holds b s"
proof -
  have "sorted_wrt (<) seqs \<and> (\<forall>s\<in>set seqs. within_u16 (hd seqs) s \<and> \<not> holds b s)"
  proof (cases "scans (head_pt b) (tail_pt b) highest d")
    case True
    note t = tail(1) [OF True] tail(2)
    note h = hole_numbers_positions [OF inv t True] and span = hole_numbers_span [OF inv t True few]
    have lt: "unat (scan_last (tail_pt b) highest d - 1) < unat (tail_pt b)" using h(2) by (simp add: word_less_nat_alt)
    have sorted: "sorted_wrt (<) seqs"
      unfolding seqs_def using sorted_words sorted_nack_positions [OF lt tail(2)] span(3) h(1) by metis
    let ?m = "max (tail_pt b) (scan_end (tail_pt b) highest d)"
    have "\<forall>x\<in>set seqs. unat ?m < unat x + 65536 \<and> x \<le> ?m"
    proof
      fix x assume "x \<in> set seqs"
      then obtain p where p: "p \<in> set (hole_numbers bt now b highest d)" "x = word_of_nat p" by (auto simp: seqs_def)
      then have "unat x = p" using span(3) by (simp add: unat_of_nat)
      then show "unat ?m < unat x + 65536 \<and> x \<le> ?m" using span(1,2) [OF p(1)] by (simp add: word_le_nat_alt)
    qed
    then show ?thesis
      using sorted within_u16_sorted [OF sorted] nack_not_held [OF inv lt tail(2)] h(1) by (auto simp: seqs_def)
  next
    case False
    then show ?thesis by (simp add: seqs_def hole_numbers_def)
  qed
  then show "sorted_wrt (<) seqs" "\<And>s. s \<in> set seqs \<Longrightarrow> within_u16 (hd seqs) s" "\<And>s. s \<in> set seqs \<Longrightarrow> \<not> holds b s" by blast+
qed

text \<open>The search, from the snapshot of the pointers on.\<close>

lemma search_reports:
  assumes inv: "rx_ok stale sent b" and tail: "scans (head_pt b) (tail_pt b) highest d \<Longrightarrow> tail_pt b \<noteq> 0" "unat (tail_pt b) + 1 < 2 ^ 32"
    and bi: "GetBatchInfo now bi = ((highest, d), bi')" and few: "length (hole_numbers bt end_time b highest d) < ACK_WINDOW"
  shows "\<exists>prev' b' e. FindNackSeqNum_wake bt ACK_WINDOW now end_time bi prev b
      = ok (Nacks (map word_of_nat (hole_numbers bt end_time b highest d)) e, bi', prev', b')
    \<and> e = (if d \<and> highest < tail_pt b then tail_pt b else highest) \<and> loses b b' \<and> (\<forall>s. holds b s \<longrightarrow> holds b' s)"
proof (cases "scans (head_pt b) (tail_pt b) highest d")
  case True
  let ?p = "scan_last (tail_pt b) highest d - 1" and ?fin = "scan_end (tail_pt b) highest d"
  note h = hole_numbers_positions [OF inv tail(1) [OF True] tail(2) True]
  have few': "length (nack_positions bt end_time b ?p ?fin) < ACK_WINDOW" using few h(1) by simp
  obtain b' where f: "find_nacks bt ACK_WINDOW end_time (Scan_To ?p ?fin) (head_pt b) (tail_pt b) b
      = ok ((map word_of_nat (hole_numbers bt end_time b highest d), ?fin), b')"
    "\<And>s. holds b s \<Longrightarrow> holds b' s" "loses b b'"
    by (rule find_nacks_report [OF inv h(2,3) tail(2) few', folded h(1)]) blast
  have "nack_range (head_pt b) (tail_pt b) highest d = Scan_To ?p ?fin" using True by (simp add: nack_range_scans)
  then show ?thesis using bi f by (simp add: FindNackSeqNum_wake_def Let_def scan_end_def)
next
  case False
  then have "nack_range (head_pt b) (tail_pt b) highest d = Only_End highest" "\<not> d" by (simp_all add: nack_range_scans scans_def)
  then show ?thesis using bi False by (simp add: FindNackSeqNum_wake_def Let_def find_nacks_def hole_numbers_def)
qed

text \<open>The numbers of a report fit one datagram.\<close>

lemma send_data_ack_ok:
  assumes few: "length seqs < ACK_WINDOW" "\<And>s. s \<in> set seqs \<Longrightarrow> within_u16 (hd seqs) s"
    and a: "ack_inv a" "length mem = ACK_PKT_SIZE" "send_sane sys"
  shows "\<exists>a' t' dg k. send_data_ack sys mem r seqs e a t = ok (a', t') \<and> outbox t' = outbox t @ [(kController, dg)]
    \<and> parsed_ack dg = ok \<lparr>pn_type = DATA_ACK, pn_ack_seq = ack_seq (ack_hdr a) + 1, pn_num_nacks = k, pn_end_seq = e,
         pn_client_id = tun_client_id t, pn_bs_id = ctx_bs_id r, pn_num_pkts = 0, pn_seqs = seqs\<rparr>"
proof -
  let ?a = "ack_Init DATA_ACK a"
  have i: "ack_inv ?a" "nack_seqs ?a = []" using a(1) by (simp_all add: ack_Init_inv nack_seqs_ack_Init)
  obtain a1 where a1: "push_list PushNack seqs ?a = ok a1" "ack_inv a1" "nack_seqs a1 = seqs"
    using ack.push_list_appends [OF i(1), of seqs] i(2) few by auto
  let ?a2 = "set_ids (tun_client_id t) (radio_bs_id r) (set_end_seq e a1)"
  have head: "same_head ?a a1" using push_list_head [OF PushNack_head a1(1)] .
  have a2: "ack_inv ?a2" "nack_seqs ?a2 = seqs" using a1 by simp_all
  obtain l where "send_ack sys mem ?a2 t = ok (l, t\<lparr>outbox := outbox t @ [(kController, ack_datagram mem ?a2)]\<rparr>)"
    by (rule send_ack_ok [OF a2(1) a(2,3)])
  then have "send_data_ack sys mem r seqs e a t = ok (?a2, t\<lparr>outbox := outbox t @ [(kController, ack_datagram mem ?a2)]\<rparr>)"
    using a1(1) by (simp add: send_data_ack_def Let_def)
  moreover have "ak_type (ack_hdr ?a2) = DATA_ACK" "ack_seq (ack_hdr ?a2) = ack_seq (ack_hdr a) + 1" "ak_end_seq (ack_hdr ?a2) = e"
    "ak_client_id (ack_hdr ?a2) = tun_client_id t" "ak_bs_id (ack_hdr ?a2) = ctx_bs_id r" "num_pkts (ack_hdr ?a2) = 0"
    using head by (simp_all add: same_head_def set_ids_def set_end_seq_def ack_Init_def AckHeader_Init_def radio_bs_id_def)
  ultimately show ?thesis
    using parsed_ack_datagram [OF a2(1) a(2)] a2(2) by (intro exI conjI) (assumption, simp_all)
qed

lemma data_ack_run:
  assumes inv: "rx_ok stale sent b" and tail: "scans (head_pt b) (tail_pt b) highest d \<Longrightarrow> tail_pt b \<noteq> 0" "unat (tail_pt b) + 1 < 2 ^ 32"
    and bi: "GetBatchInfo now (the_batch_info r) = ((highest, d), bi')"
    and few: "length (hole_numbers bt end_time b highest d) < ACK_WINDOW"
    and a: "ack_inv a" "length mem = ACK_PKT_SIZE" "send_sane sys"
  shows "\<exists>a' prev' b' t' dg k. RxCreateDataAck_wake sys bt mem now end_time r prev b a t
      = ok (Some (a', r\<lparr>the_batch_info := bi'\<rparr>, prev', b', t'))
    \<and> outbox t' = outbox t @ [(kController, dg)] \<and> (\<forall>s. holds b s \<longrightarrow> holds b' s)
    \<and> parsed_ack dg = ok \<lparr>pn_type = DATA_ACK, pn_ack_seq = ack_seq (ack_hdr a) + 1, pn_num_nacks = k,
         pn_end_seq = (if d \<and> highest < tail_pt b then tail_pt b else highest),
         pn_client_id = tun_client_id t, pn_bs_id = ctx_bs_id r, pn_num_pkts = 0,
         pn_seqs = map word_of_nat (hole_numbers bt end_time b highest d)\<rparr>"
proof -
  let ?seqs = "map word_of_nat (hole_numbers bt end_time b highest d) :: u32 list"
  let ?e = "if d \<and> highest < tail_pt b then tail_pt b else highest"
  obtain prev' b' where f: "FindNackSeqNum_wake bt ACK_WINDOW now end_time (the_batch_info r) prev b = ok (Nacks ?seqs ?e, bi', prev', b')"
    "\<forall>s. holds b s \<longrightarrow> holds b' s" using search_reports [OF inv tail bi few] by blast
  have "length ?seqs < ACK_WINDOW" using few by simp
  from send_data_ack_ok [OF this hole_numbers_words(2) [OF inv tail few] a] obtain a' t' dg k where
    g: "send_data_ack sys mem r ?seqs ?e a t = ok (a', t')" "outbox t' = outbox t @ [(kController, dg)]"
    "parsed_ack dg = ok \<lparr>pn_type = DATA_ACK, pn_ack_seq = ack_seq (ack_hdr a) + 1, pn_num_nacks = k, pn_end_seq = ?e,
         pn_client_id = tun_client_id t, pn_bs_id = ctx_bs_id r, pn_num_pkts = 0, pn_seqs = ?seqs\<rparr>" by blast
  have "RxCreateDataAck_wake sys bt mem now end_time r prev b a t = ok (Some (a', r\<lparr>the_batch_info := bi'\<rparr>, prev', b', t'))"
    using f(1) g(1) by (simp add: RxCreateDataAck_wake_def after_search_def)
  then show ?thesis using f(2) g(2,3) by blast
qed

end
