(* ===== verification/Gps.thy ===== *)
theory Gps
  imports Byte_Layout
begin

text \<open>
  Class \<open>GPSParser\<close> of \<open>src/gps_parser.h\<close> and \<open>src/gps_parser.cc\<close>, which reads lines of
  \<open>gpspipe -w\<close>, and \<open>GPSHeader\<close> of \<open>src/wspace_asym_util.h\<close>. The type \<open>'d\<close> stands for
  \<open>double\<close>, and \<open>atof\<close>, the test of the sign and the results of the system calls are parameters.
\<close>

section \<open>Strings\<close>

text \<open>\<open>find_first_of\<close> and \<open>find\<close> of \<open>std::string\<close>; \<open>None\<close> is \<open>npos\<close>.\<close>

definition find_first_of :: "string \<Rightarrow> string \<Rightarrow> nat \<Rightarrow> nat option" where
  "find_first_of line seps start = List.find (\<lambda>i. line ! i \<in> set seps) [start..<length line]"

definition find_sub :: "string \<Rightarrow> string \<Rightarrow> nat option" where
  "find_sub s key = List.find (\<lambda>i. take (length key) (drop i s) = key) [0..<Suc (length s)]"

lemma find_first_of_bounds: "find_first_of line seps start = Some e \<Longrightarrow> start \<le> e \<and> e < length line \<and> line ! e \<in> set seps"
  by (auto simp: find_first_of_def find_Some_iff)

lemma find_first_of_before:
  "find_first_of line seps start = Some e \<Longrightarrow> start \<le> i \<Longrightarrow> i < e \<Longrightarrow> line ! i \<notin> set seps"
proof -
  assume f: "find_first_of line seps start = Some e" and i: "start \<le> i" "i < e"
  then obtain n where n: "n < length [start..<length line]" "e = [start..<length line] ! n"
    "\<forall>j<n. line ! ([start..<length line] ! j) \<notin> set seps"
    by (auto simp: find_first_of_def find_Some_iff)
  have "i - start < n" "[start..<length line] ! (i - start) = i" using n(1,2) i by auto
  then show ?thesis using n(3) by metis
qed

lemma find_first_of_None: "find_first_of line seps start = None \<longleftrightarrow> (\<forall>i. start \<le> i \<and> i < length line \<longrightarrow> line ! i \<notin> set seps)"
  by (auto simp: find_first_of_def find_None_iff)

section \<open>State\<close>

record 'd gps_parser =
  gps_time :: 'd
  latitude :: 'd
  longitude :: 'd
  gps_speed :: 'd
  is_fixed_speed :: bool
  gps_open :: bool
  phrases :: "string list"

text \<open>The constructor sets everything but \<open>is_fixed_speed_\<close>.\<close>

definition GPSParser :: "'d \<Rightarrow> bool \<Rightarrow> 'd gps_parser" where
  "GPSParser minus_one junk =
     \<lparr>gps_time = minus_one, latitude = minus_one, longitude = minus_one, gps_speed = minus_one,
      is_fixed_speed = junk, gps_open = False, phrases = []\<rparr>"

definition ConfigSpeed :: "bool \<Rightarrow> int \<Rightarrow> bool \<Rightarrow> 'd \<Rightarrow> 'd gps_parser \<Rightarrow> 'd gps_parser outcome" where
  "ConfigSpeed popen_ok fileno_result fixed speed p =
     (let p = p\<lparr>is_fixed_speed := fixed\<rparr> in
      if fixed then ok (p\<lparr>gps_speed := speed\<rparr>)
      else if \<not> popen_ok then abort Assert_Failed
      else if \<not> fileno_result > 0 then abort Assert_Failed
      else ok (p\<lparr>gps_open := True\<rparr>))"

section \<open>Splitting a line\<close>

text \<open>The loop ends when the separator found is the first character of the line.\<close>

function split_from :: "string \<Rightarrow> string \<Rightarrow> nat \<Rightarrow> string list" where
  "split_from line seps start =
     (case find_first_of line seps start of
        None \<Rightarrow> [drop start line]
      | Some e \<Rightarrow> if e = 0 then [] else take (e - start) (drop start line) # split_from line seps (e + 1))"
  by pat_completeness auto
termination
  by (relation "measure (\<lambda>(line, seps, start). Suc (length line) - start)") (auto dest: find_first_of_bounds)

declare split_from.simps [simp del]

definition SplitLine :: "string \<Rightarrow> string \<Rightarrow> 'd gps_parser \<Rightarrow> 'd gps_parser" where
  "SplitLine line seps p = p\<lparr>phrases := split_from line seps 0\<rparr>"

text \<open>The fields between separators.\<close>

fun split_fields :: "string \<Rightarrow> string \<Rightarrow> string list" where
  "split_fields seps [] = [[]]"
| "split_fields seps (c # cs) =
     (if c \<in> set seps then [] # split_fields seps cs
      else case split_fields seps cs of f # fs \<Rightarrow> (c # f) # fs | [] \<Rightarrow> [[c]])"

lemma fields_ne [simp]: "split_fields seps cs \<noteq> []"
  by (induction cs) (auto split: list.splits)

lemma fields_none: "\<forall>c\<in>set cs. c \<notin> set seps \<Longrightarrow> split_fields seps cs = [cs]"
  by (induction cs) auto

lemma fields_first: "\<forall>c\<in>set f. c \<notin> set seps \<Longrightarrow> s \<in> set seps \<Longrightarrow> split_fields seps (f @ s # rest) = f # split_fields seps rest"
  by (induction f) auto

lemma split_from_fields:
  assumes "start \<le> length line" "0 < start \<or> (\<forall>c cs. line = c # cs \<longrightarrow> c \<notin> set seps)"
  shows "split_from line seps start = split_fields seps (drop start line)"
  using assms
proof (induction line seps start rule: split_from.induct)
  case (1 line seps start)
  show ?case
  proof (cases "find_first_of line seps start")
    case None
    have "c \<notin> set seps" if c: "c \<in> set (drop start line)" for c
    proof -
      obtain i where "i < length line - start" "c = line ! (start + i)" using c by (auto simp: in_set_conv_nth)
      then show ?thesis using None [unfolded find_first_of_None, rule_format, of "start + i"] by simp
    qed
    then show ?thesis using None by (simp add: split_from.simps fields_none)
  next
    case (Some e)
    note b = find_first_of_bounds [OF Some]
    have e0: "e \<noteq> 0" using b "1.prems"(2) by (cases line; cases e) auto
    let ?f = "take (e - start) (drop start line)"
    have "\<forall>c\<in>set ?f. c \<notin> set seps"
    proof
      fix c assume "c \<in> set ?f"
      then obtain i where "i < e - start" "c = line ! (start + i)" by (auto simp: in_set_conv_nth)
      then show "c \<notin> set seps" using find_first_of_before [OF Some, of "start + i"] by simp
    qed
    moreover have "drop start line = ?f @ line ! e # drop (e + 1) line"
    proof -
      have "drop start line = ?f @ drop (e - start) (drop start line)" by (simp only: append_take_drop_id)
      also have "drop (e - start) (drop start line) = drop e line" using b by simp
      also have "drop e line = line ! e # drop (e + 1) line" using b by (simp add: Cons_nth_drop_Suc)
      finally show ?thesis .
    qed
    ultimately have "split_fields seps (drop start line) = ?f # split_fields seps (drop (e + 1) line)"
      using fields_first [of ?f seps "line ! e" "drop (e + 1) line"] b by metis
    moreover have "split_from line seps (e + 1) = split_fields seps (drop (e + 1) line)"
      using "1.IH" [OF Some e0] b by simp
    ultimately show ?thesis using Some e0 by (simp add: split_from.simps)
  qed
qed

lemma split_leading_separator: "c \<in> set seps \<Longrightarrow> split_from (c # cs) seps 0 = []"
proof -
  assume c: "c \<in> set seps"
  have "find_first_of (c # cs) seps 0 = Some 0"
    using c by (simp add: find_first_of_def upt_conv_Cons del: upt_Suc)
  then show ?thesis by (simp add: split_from.simps)
qed

section \<open>Parsing a line\<close>

definition quote :: char where "quote = CHR 0x22"

definition kStartPhrase :: string where
  "kStartPhrase = quote # ''class'' @ [quote] @ '':'' @ [quote] @ ''TPV'' @ [quote]"

definition GetValue :: "(string \<Rightarrow> 'd) \<Rightarrow> string \<Rightarrow> string \<Rightarrow> 'd option" where
  "GetValue atof phrase key =
     (let search_key = key @ [quote] @ '':'' in
      case find_sub phrase search_key of None \<Rightarrow> None | Some pos \<Rightarrow> Some (atof (drop (pos + length search_key) phrase)))"

definition IsValidLine :: "'d gps_parser \<Rightarrow> bool" where
  "IsValidLine p \<longleftrightarrow> (case phrases p of [] \<Rightarrow> False | f # _ \<Rightarrow> find_sub f kStartPhrase \<noteq> None)"

text \<open>The four values found so far; a value that was found is not searched again.\<close>

record 'd gps_found =
  f_time :: "'d option"
  f_lat :: "'d option"
  f_lon :: "'d option"
  f_speed :: "'d option"

definition or_else :: "'a option \<Rightarrow> 'a option \<Rightarrow> 'a option" where
  "or_else x y = (case x of None \<Rightarrow> y | Some _ \<Rightarrow> x)"

definition scan_phrase :: "(string \<Rightarrow> 'd) \<Rightarrow> string \<Rightarrow> 'd gps_found \<Rightarrow> 'd gps_found" where
  "scan_phrase atof ph f =
     \<lparr>f_time = or_else (f_time f) (GetValue atof ph ''time''), f_lat = or_else (f_lat f) (GetValue atof ph ''lat''),
      f_lon = or_else (f_lon f) (GetValue atof ph ''lon''), f_speed = or_else (f_speed f) (GetValue atof ph ''speed'')\<rparr>"

definition ParseLine :: "(string \<Rightarrow> 'd) \<Rightarrow> string \<Rightarrow> 'd gps_parser \<Rightarrow> bool \<times> 'd gps_parser" where
  "ParseLine atof line p =
     (let p = SplitLine line '','' p in
      if \<not> IsValidLine p then (False, p)
      else
        let f = fold (scan_phrase atof) (phrases p) \<lparr>f_time = None, f_lat = None, f_lon = None, f_speed = None\<rparr>
        in case (f_time f, f_lat f, f_lon f, f_speed f) of
             (Some t, Some a, Some l, Some s) \<Rightarrow> (True, p\<lparr>gps_time := t, latitude := a, longitude := l, gps_speed := s\<rparr>)
           | _ \<Rightarrow> (False, p))"

text \<open>
  \<open>GetGPSReadings\<close>: \<open>select_result\<close> and \<open>read_bytes\<close> are the results of the system calls. The text
  ends at the first NUL.
\<close>

definition GetGPSReadings ::
  "('d \<Rightarrow> bool) \<Rightarrow> (string \<Rightarrow> 'd) \<Rightarrow> int \<Rightarrow> int \<Rightarrow> string \<Rightarrow> 'd gps_parser \<Rightarrow> (bool \<times> 'd gps_parser) outcome" where
  "GetGPSReadings nonneg atof select_result nread read_bytes p =
     (if is_fixed_speed p then (if \<not> nonneg (gps_speed p) then abort Assert_Failed else ok (True, p))
      else if \<not> select_result > 0 then abort Assert_Failed
      else if \<not> nread > 0 then abort Assert_Failed
      else ok (ParseLine atof (takeWhile (\<lambda>c. c \<noteq> CHR 0x00) (take (nat nread) read_bytes)) p))"

section \<open>GPSHeader\<close>

record 'd gps_header =
  gh_type :: u8
  gh_seq :: u32
  gh_time :: 'd
  gh_latitude :: 'd
  gh_longitude :: 'd
  gh_speed :: 'd
  gh_client_id :: i32
  gh_bs_id :: i32

text \<open>The constructor; the time and the place keep what the memory held.\<close>

definition GPSHeader :: "'d \<Rightarrow> 'd \<Rightarrow> 'd \<Rightarrow> 'd \<Rightarrow> 'd gps_header" where
  "GPSHeader minus_one junk_time junk_lat junk_lon =
     \<lparr>gh_type = 7, gh_seq = 0, gh_time = junk_time, gh_latitude = junk_lat, gh_longitude = junk_lon, gh_speed = minus_one,
      gh_client_id = 0, gh_bs_id = 0\<rparr>"

definition GPSHeader_Init ::
  "('d \<Rightarrow> bool) \<Rightarrow> 'd \<Rightarrow> 'd \<Rightarrow> 'd \<Rightarrow> 'd \<Rightarrow> i32 \<Rightarrow> i32 \<Rightarrow> 'd gps_header \<Rightarrow> 'd gps_header outcome" where
  "GPSHeader_Init nonneg t lat lon speed client bs h =
     (if \<not> nonneg speed then abort Assert_Failed
      else ok \<lparr>gh_type = 7, gh_seq = gh_seq h + 1, gh_time = t, gh_latitude = lat, gh_longitude = lon,
             gh_speed = speed, gh_client_id = client, gh_bs_id = bs\<rparr>)"

section \<open>The log\<close>

text \<open>
  Class \<open>GPSLogger\<close>: where it writes and what it wrote. The line of a header, which \<open>fprintf\<close> formats
  from \<open>double\<close>s, is a parameter; so is the success of \<open>fopen\<close>.
\<close>

datatype gps_file = No_File | Std_Out | Log_File

record gps_logger =
  filename :: string
  gps_fp :: gps_file
  written :: "string list"

definition GPSLogger :: gps_logger where
  "GPSLogger = \<lparr>filename = '''', gps_fp = No_File, written = []\<rparr>"

definition log_title :: string where
  "log_title = (let tab = [CHR 0x09] in
     ''###Seq'' @ tab @ ''Time'' @ tab @ ''Latitude'' @ tab @ ''Longitude'' @ tab @ ''Speed'' @ tab @ ''ClientID'' @ [CHR 0x0A])"

definition ConfigFile :: "bool \<Rightarrow> string option \<Rightarrow> gps_logger \<Rightarrow> gps_logger outcome" where
  "ConfigFile fopen_ok name l =
     (case name of
        Some f \<Rightarrow> if fopen_ok then ok (l\<lparr>filename := f, gps_fp := Log_File, written := [log_title]\<rparr>) else abort Assert_Failed
      | None \<Rightarrow> ok (l\<lparr>gps_fp := Std_Out\<rparr>))"

definition LogGPSInfo :: "('d gps_header \<Rightarrow> string) \<Rightarrow> 'd gps_header \<Rightarrow> gps_logger \<Rightarrow> gps_logger outcome" where
  "LogGPSInfo line hdr l =
     (case gps_fp l of
        No_File \<Rightarrow> abort Null_Deref
      | Std_Out \<Rightarrow> ok (l\<lparr>written := written l @ [''GPS pkt: '', line hdr]\<rparr>)
      | Log_File \<Rightarrow> ok (l\<lparr>written := written l @ [line hdr]\<rparr>))"

section \<open>RxParseGPS\<close>

text \<open>The start of \<open>RxParseGPS\<close> (\<open>None\<close>: no device, the thread ends), and one pass of its loop.\<close>

definition RxParseGPS_start :: "bool \<Rightarrow> string \<Rightarrow> gps_logger option outcome" where
  "RxParseGPS_start fopen_ok f_gps =
     (if f_gps = '''' then ok None else and_then (ConfigFile fopen_ok (Some f_gps) GPSLogger) (\<lambda>l. ok (Some l)))"

definition RxParseGPS ::
  "('d \<Rightarrow> bool) \<Rightarrow> (string \<Rightarrow> 'd) \<Rightarrow> ('d gps_header \<Rightarrow> string) \<Rightarrow> i32 \<Rightarrow> i32 \<Rightarrow> int \<Rightarrow> int \<Rightarrow> string
     \<Rightarrow> 'd gps_parser \<times> 'd gps_header \<times> gps_logger
     \<Rightarrow> ('d gps_parser \<times> 'd gps_header \<times> gps_logger) outcome" where
  "RxParseGPS nonneg atof line client bs select_result nread read_bytes s =
     (let (p, h, log) = s in
      and_then (GetGPSReadings nonneg atof select_result nread read_bytes p) (\<lambda>(available, p).
        if available
        then and_then (GPSHeader_Init nonneg (gps_time p) (latitude p) (longitude p) (gps_speed p) client bs h) (\<lambda>h.
               and_then (LogGPSInfo line h log) (\<lambda>log. ok (p, h, log)))
        else ok (p, h, log)))"

text \<open>Once started the log has its file; a pass adds one line, with the next sequence number, or nothing.\<close>

lemma RxParseGPS_logs:
  assumes "RxParseGPS_start fopen_ok f_gps = ok (Some l0)" "gps_fp l = gps_fp l0"
    and "RxParseGPS nonneg atof line client bs sel n bytes (p, h, l) = ok (p', h', l')"
  shows "gps_fp l' = gps_fp l0 \<and> (h' = h \<and> l' = l \<or> gh_seq h' = gh_seq h + 1 \<and> written l' = written l @ [line h'])"
proof -
  have "gps_fp l = Log_File" using assms(1,2) by (auto simp: RxParseGPS_start_def ConfigFile_def and_then_eq_ok split: if_splits)
  then show ?thesis
    using assms(2,3) by (auto simp: RxParseGPS_def LogGPSInfo_def GPSHeader_Init_def and_then_eq_ok split: if_splits)
qed

section \<open>The first value of a key\<close>

definition first_value :: "(string \<Rightarrow> 'd) \<Rightarrow> string \<Rightarrow> string list \<Rightarrow> 'd option" where
  "first_value atof key ps = (case List.find (\<lambda>ph. GetValue atof ph key \<noteq> None) ps of None \<Rightarrow> None | Some ph \<Rightarrow> GetValue atof ph key)"

lemma first_value_Cons: "first_value atof key (ph # ps) = or_else (GetValue atof ph key) (first_value atof key ps)"
  by (cases "GetValue atof ph key") (simp_all add: first_value_def or_else_def)

lemma or_else_assoc: "or_else (or_else x y) z = or_else x (or_else y z)"
  by (simp add: or_else_def split: option.splits)

lemma scan_phrases:
  "fold (scan_phrase atof) ps f =
     \<lparr>f_time = or_else (f_time f) (first_value atof ''time'' ps), f_lat = or_else (f_lat f) (first_value atof ''lat'' ps),
      f_lon = or_else (f_lon f) (first_value atof ''lon'' ps), f_speed = or_else (f_speed f) (first_value atof ''speed'' ps)\<rparr>"
proof (induction ps arbitrary: f)
  case Nil
  have "or_else x None = x" for x :: "'a option" by (simp add: or_else_def split: option.splits)
  then show ?case by (simp add: first_value_def)
next
  case (Cons ph ps)
  then show ?case by (simp add: scan_phrase_def first_value_Cons or_else_assoc)
qed

end
