(* ===== verification/Client_Options.thy ===== *)
theory Client_Options
  imports Client_Rx Gps
begin

text \<open>
  The constructor of \<open>WspaceClient\<close> in \<open>src/wspace_client_scout.cc\<close>: the options, the tables of
  radios and of base-station addresses, and \<open>ParseIP\<close>. The list of options is what \<open>getopt\<close>
  delivers; the result of \<open>popen\<close> for the GPS device and the construction of a \<open>RadioContext\<close> are
  parameters.
\<close>

section \<open>Numbers and lists in arguments\<close>

definition is_digit :: "char \<Rightarrow> bool" where
  "is_digit c \<longleftrightarrow> c \<in> set ''0123456789''"

definition digit_value :: "char \<Rightarrow> int" where
  "digit_value c = int (length (takeWhile (\<lambda>d. d \<noteq> c) ''0123456789''))"

text \<open>\<open>atoi\<close>; the value of a number outside \<open>int\<close> is undefined in C.\<close>

definition atoi :: "string \<Rightarrow> int" where
  "atoi s =
     (let s = dropWhile (\<lambda>c. c \<in> {CHR 0x20, CHR 0x09, CHR 0x0A, CHR 0x0B, CHR 0x0C, CHR 0x0D}) s;
          neg = (case s of c # _ \<Rightarrow> c = CHR 0x2D | [] \<Rightarrow> False);
          s = (case s of c # cs \<Rightarrow> if c = CHR 0x2D \<or> c = CHR 0x2B then cs else s | [] \<Rightarrow> s);
          v = fold (\<lambda>c v. 10 * v + digit_value c) (takeWhile is_digit s) 0
      in if neg then - v else v)"

text \<open>What \<open>while (getline(ss, s, ','))\<close> delivers: no field behind a last comma.\<close>

definition getline_fields :: "string \<Rightarrow> string list" where
  "getline_fields s = (let fs = split_fields '','' s in if last fs = [] then butlast fs else fs)"

section \<open>State\<close>

record client_conf =
  ack_time_out :: int
  block_time :: int
  max_ack_cnt :: u8
  min_pkt_cnt :: int
  bs_ids :: "i32 list"
  radio_context_tbl :: "i32 \<rightharpoonup> radio_context"
  f_gps :: string
  the_tun :: tun

definition client_start :: "int \<Rightarrow> int \<Rightarrow> u8 \<Rightarrow> tun \<Rightarrow> client_conf" where
  "client_start junk_ack junk_block junk_cnt t =
     \<lparr>ack_time_out = junk_ack, block_time = junk_block, max_ack_cnt = junk_cnt, min_pkt_cnt = 30, bs_ids = [],
      radio_context_tbl = Map.empty, f_gps = '''', the_tun = t\<rparr>"

section \<open>Options\<close>

text \<open>\<open>ParseIP\<close>: one address for each id, in order; there may be fewer.\<close>

fun parse_ip :: "(string \<Rightarrow> u32) \<Rightarrow> i32 list \<Rightarrow> string list \<Rightarrow> tun \<Rightarrow> tun outcome" where
  "parse_ip inet_addr ids [] t = ok t"
| "parse_ip inet_addr [] (addr # addrs) t = abort Perror_Exit"
| "parse_ip inet_addr (i # ids) (addr # addrs) t =
     parse_ip inet_addr ids addrs (t\<lparr>bs_ip_tbl := (bs_ip_tbl t)(i \<mapsto> addr),
       bs_addr_tbl := (bs_addr_tbl t)(i \<mapsto> CreateAddr_ip inet_addr addr (port_eth t))\<rparr>)"

definition ParseIP :: "(string \<Rightarrow> u32) \<Rightarrow> i32 list \<Rightarrow> string \<Rightarrow> tun \<Rightarrow> tun outcome" where
  "ParseIP inet_addr ids arg t = (if ids = [] then abort Perror_Exit else parse_ip inet_addr ids (getline_fields arg) t)"

text \<open>The loop of option \<open>-s\<close>.\<close>

fun add_radios :: "(i32 \<Rightarrow> radio_context outcome) \<Rightarrow> string list \<Rightarrow> client_conf \<Rightarrow> client_conf outcome" where
  "add_radios new_radio [] c = ok c"
| "add_radios new_radio (s # ss) c =
     (let i = atoi s; the_id = word_of_int i in
      if i = 1 then abort Perror_Exit
      else and_then (new_radio the_id) (\<lambda>r.
        add_radios new_radio ss (c\<lparr>bs_ids := bs_ids c @ [the_id],
          the_tun := (the_tun c)\<lparr>radio_ids := radio_ids (the_tun c) @ [the_id]\<rparr>,
          radio_context_tbl := (radio_context_tbl c)(the_id \<mapsto> r)\<rparr>)))"

definition set_ack_cnt :: "u8 \<Rightarrow> client_conf \<Rightarrow> client_conf" where
  "set_ack_cnt n c = c\<lparr>max_ack_cnt := n,
     radio_context_tbl := (\<lambda>i. map_option (\<lambda>r. r\<lparr>raw_pkt_buf := set_max_send_cnt n (raw_pkt_buf r)\<rparr>) (radio_context_tbl c i))\<rparr>"

definition apply_option ::
  "os \<Rightarrow> bool \<Rightarrow> (i32 \<Rightarrow> radio_context outcome) \<Rightarrow> char \<times> string \<Rightarrow> client_conf \<Rightarrow> client_conf outcome" where
  "apply_option sys popen_ok new_radio opt c =
     (let (o_char, arg) = opt; t = the_tun c in
      if o_char = CHR ''T'' then ok (c\<lparr>ack_time_out := atoi arg\<rparr>)
      else if o_char = CHR ''B'' then ok (c\<lparr>block_time := atoi arg\<rparr>)
      else if o_char = CHR ''i'' then ok (c\<lparr>the_tun := t\<lparr>if_name := take 15 arg, tun_type := IFF_TUN\<rparr>\<rparr>)
      else if o_char = CHR ''I'' then ok (c\<lparr>the_tun := t\<lparr>tun_client_id := word_of_int (atoi arg)\<rparr>\<rparr>)
      else if o_char = CHR ''C'' then ok (c\<lparr>the_tun := t\<lparr>controller_ip_eth := take 16 arg\<rparr>\<rparr>)
      else if o_char = CHR ''A'' then
        (if radio_ids t = [] then abort Perror_Exit else ok (set_ack_cnt (word_of_int (atoi arg)) c))
      else if o_char = CHR ''p'' then (if popen_ok then ok (c\<lparr>f_gps := arg\<rparr>) else abort Assert_Failed)
      else if o_char = CHR ''n'' then
        (if \<not> atoi arg > 0 then abort Assert_Failed else ok (c\<lparr>min_pkt_cnt := atoi arg\<rparr>))
      else if o_char = CHR ''s'' then add_radios new_radio (getline_fields arg) c
      else if o_char = CHR ''S'' then
        and_then (ParseIP (os_inet_addr sys) (bs_ids c) arg t) (\<lambda>t. ok (c\<lparr>the_tun := t\<rparr>))
      else abort Perror_Exit)"

fun apply_options ::
  "os \<Rightarrow> bool \<Rightarrow> (i32 \<Rightarrow> radio_context outcome) \<Rightarrow> (char \<times> string) list \<Rightarrow> client_conf \<Rightarrow> client_conf outcome" where
  "apply_options sys popen_ok new_radio [] c = ok c"
| "apply_options sys popen_ok new_radio (opt # opts) c =
     and_then (apply_option sys popen_ok new_radio opt c) (apply_options sys popen_ok new_radio opts)"

text \<open>The checks behind the loop. The keys of the address table are among \<open>bs_ids_\<close>.\<close>

definition check_conf :: "client_conf \<Rightarrow> client_conf outcome" where
  "check_conf c =
     (let t = the_tun c in
      if \<not> (if_name t \<noteq> [] \<and> controller_ip_eth t \<noteq> [] \<and> tun_client_id t \<noteq> 0
        \<and> (\<exists>i\<in>set (bs_ids c). bs_ip_tbl t i \<noteq> None) \<and> radio_ids t \<noteq> []) then abort Assert_Failed
      else if \<not> (\<forall>i\<in>set (bs_ids c). bs_ip_tbl t i \<noteq> Some []) then abort Assert_Failed
      else if length (radio_ids t) > MAX_RADIO then abort Perror_Exit
      else ok c)"

definition WspaceClient ::
  "os \<Rightarrow> bool \<Rightarrow> (i32 \<Rightarrow> radio_context outcome) \<Rightarrow> (char \<times> string) list \<Rightarrow> client_conf \<Rightarrow> client_conf outcome" where
  "WspaceClient sys popen_ok new_radio opts c = and_then (apply_options sys popen_ok new_radio opts c) check_conf"

text \<open>\<open>Init\<close> sets up the sockets.\<close>

definition client_Init :: "os \<Rightarrow> client_conf \<Rightarrow> client_conf outcome" where
  "client_Init sys c = and_then (InitSock sys (the_tun c)) (\<lambda>t. ok (c\<lparr>the_tun := t\<rparr>))"

section \<open>The tables\<close>

text \<open>Every radio has a context, the radios are the base stations, and none has the controller's id 1.\<close>

definition conf_inv :: "client_conf \<Rightarrow> bool" where
  "conf_inv c \<longleftrightarrow> radio_ids (the_tun c) = bs_ids c \<and> dom (radio_context_tbl c) = set (bs_ids c)
     \<and> dom (bs_ip_tbl (the_tun c)) \<subseteq> set (bs_ids c) \<and> dom (bs_addr_tbl (the_tun c)) = dom (bs_ip_tbl (the_tun c))"

lemma parse_ip_tables:
  "parse_ip ia ids addrs t = ok t' \<Longrightarrow> radio_ids t' = radio_ids t
    \<and> dom (bs_ip_tbl t') = dom (bs_ip_tbl t) \<union> set (take (length addrs) ids)
    \<and> dom (bs_addr_tbl t') = dom (bs_addr_tbl t) \<union> set (take (length addrs) ids)"
  by (induction ia ids addrs t rule: parse_ip.induct) auto

lemma add_radios_inv: "conf_inv c \<Longrightarrow> add_radios new_radio ss c = ok c' \<Longrightarrow> conf_inv c'"
proof (induction ss arbitrary: c)
  case (Cons s ss)
  let ?i = "word_of_int (atoi s) :: i32"
  obtain r where r: "add_radios new_radio ss (c\<lparr>bs_ids := bs_ids c @ [?i],
          the_tun := (the_tun c)\<lparr>radio_ids := radio_ids (the_tun c) @ [?i]\<rparr>,
          radio_context_tbl := (radio_context_tbl c)(?i \<mapsto> r)\<rparr>) = ok c'"
    using Cons.prems(2) by (auto simp: Let_def and_then_eq_ok split: if_splits)
  show ?case by (rule Cons.IH [OF _ r]) (use Cons.prems(1) in \<open>auto simp: conf_inv_def\<close>)
qed simp

lemma set_ack_cnt_inv: "conf_inv (set_ack_cnt n c) = conf_inv c"
proof -
  have "dom (radio_context_tbl (set_ack_cnt n c)) = dom (radio_context_tbl c)" by (simp add: set_ack_cnt_def dom_def)
  then show ?thesis unfolding conf_inv_def by (simp add: set_ack_cnt_def)
qed

lemma apply_option_inv:
  assumes inv: "conf_inv c" and opt: "apply_option sys popen_ok new_radio opt c = ok c'"
  shows "conf_inv c'"
proof -
  obtain ch arg where o: "opt = (ch, arg)" by (cases opt)
  consider (s) "ch = CHR ''s''" | (S) "ch = CHR ''S''" | (A) "ch = CHR ''A''"
    | (rest) "ch \<noteq> CHR ''s''" "ch \<noteq> CHR ''S''" "ch \<noteq> CHR ''A''" by blast
  then show ?thesis
  proof cases
    case s
    then show ?thesis using add_radios_inv [OF inv] opt o by (simp add: apply_option_def)
  next
    case S
    obtain t where t: "ParseIP (os_inet_addr sys) (bs_ids c) arg (the_tun c) = ok t" "c' = c\<lparr>the_tun := t\<rparr>"
      using opt o S by (auto simp: apply_option_def and_then_eq_ok)
    have "set (take (length (getline_fields arg)) (bs_ids c)) \<subseteq> set (bs_ids c)" by (rule set_take_subset)
    moreover have "parse_ip (os_inet_addr sys) (bs_ids c) (getline_fields arg) (the_tun c) = ok t"
      using t(1) by (simp add: ParseIP_def split: if_splits)
    ultimately show ?thesis using parse_ip_tables [of _ _ _ _ t] t(2) inv by (fastforce simp: conf_inv_def)
  next
    case A
    then show ?thesis using opt o inv by (auto simp: apply_option_def set_ack_cnt_inv split: if_splits)
  next
    case rest
    then have "bs_ids c' = bs_ids c \<and> radio_context_tbl c' = radio_context_tbl c \<and> radio_ids (the_tun c') = radio_ids (the_tun c)
        \<and> bs_ip_tbl (the_tun c') = bs_ip_tbl (the_tun c) \<and> bs_addr_tbl (the_tun c') = bs_addr_tbl (the_tun c)"
      using opt o by (auto simp: apply_option_def Let_def split: if_splits)
    then show ?thesis using inv by (simp add: conf_inv_def)
  qed
qed

lemma apply_options_inv: "conf_inv c \<Longrightarrow> apply_options sys popen_ok new_radio opts c = ok c' \<Longrightarrow> conf_inv c'"
  by (induction opts arbitrary: c) (auto simp: and_then_eq_ok dest: apply_option_inv)

lemma client_start_inv:
  "conf_inv (client_start a b n (Tun fd s x y))"
  by (simp add: conf_inv_def client_start_def Tun_def)

end
