(* ===== verification/Client_Main.thy ===== *)
theory Client_Main
  imports Client_Options
begin

text \<open>
  \<open>main\<close> of \<open>src/wspace_client_scout.cc\<close>: it builds the client from its options, opens the devices and
  starts the threads, three for the client and four for every entry of \<open>radio_ids_\<close>, and then joins
  them. The threads run for ever, so that \<open>main\<close> stays at the first join; the output is left out.
\<close>

section \<open>The threads\<close>

datatype client_thread =
    LaunchRxSendCell
  | LaunchRxRcvCell
  | LaunchRxParseGPS
  | LaunchRxRcvAth i32
  | LaunchRxWriteTun i32
  | LaunchRxCreateRawAck i32
  | LaunchRxCreateDataAck i32

definition radio_threads :: "i32 \<Rightarrow> client_thread list" where
  "radio_threads i = [LaunchRxRcvAth i, LaunchRxWriteTun i, LaunchRxCreateRawAck i, LaunchRxCreateDataAck i]"

text \<open>The loop over the radios; the context of a radio is looked up to store the thread's handle.\<close>

fun start_radios :: "client_conf \<Rightarrow> i32 list \<Rightarrow> client_thread list outcome" where
  "start_radios c [] = ok []"
| "start_radios c (i # is) =
     (case radio_context_tbl c i of
        None \<Rightarrow> abort Null_Deref
      | Some r \<Rightarrow> and_then (start_radios c is) (\<lambda>ts. ok (radio_threads i @ ts)))"

definition main ::
  "os \<Rightarrow> bool \<Rightarrow> (i32 \<Rightarrow> radio_context outcome) \<Rightarrow> (char \<times> string) list \<Rightarrow> client_conf \<Rightarrow> (client_conf \<times> client_thread list) outcome" where
  "main sys popen_ok new_radio opts c =
     and_then (WspaceClient sys popen_ok new_radio opts c) (\<lambda>c.
       and_then (client_Init sys c) (\<lambda>c.
         and_then (start_radios c (radio_ids (the_tun c))) (\<lambda>ts.
           ok (c, [LaunchRxSendCell, LaunchRxRcvCell, LaunchRxParseGPS] @ ts))))"

text \<open>The joins, in the order of the code.\<close>

definition join_radio :: "i32 \<Rightarrow> client_thread list" where
  "join_radio i = [LaunchRxRcvAth i, LaunchRxWriteTun i, LaunchRxCreateRawAck i, LaunchRxCreateDataAck i]"

definition main_joins :: "client_conf \<Rightarrow> client_thread list" where
  "main_joins c = [LaunchRxSendCell, LaunchRxRcvCell, LaunchRxParseGPS] @ concat (map join_radio (radio_ids (the_tun c)))"

section \<open>What runs\<close>

lemma init_radios_ids: "init_radios sys i rs t = ok t' \<Longrightarrow> radio_ids t' = radio_ids t"
  by (induction sys i rs t rule: init_radios.induct) (auto simp: BindSocket_def Let_def and_then_eq_ok)

lemma client_Init_ids: "client_Init sys c = ok c' \<Longrightarrow> radio_ids (the_tun c') = radio_ids (the_tun c) \<and> radio_context_tbl c' = radio_context_tbl c"
  by (auto simp: client_Init_def InitSock_def and_then_eq_ok Let_def BindSocket_def dest!: init_radios_ids split: prod.splits)

lemma start_radios_all:
  "set is \<subseteq> dom (radio_context_tbl c) \<Longrightarrow> start_radios c is = ok (concat (map radio_threads is))"
  by (induction "is") auto

text \<open>
  When \<open>main\<close> gets to the threads, every radio has its context, and each entry of \<open>radio_ids_\<close> gets its
  four threads. The ids are not compared: a radio named twice gets two writing threads on one buffer.
\<close>

lemma main_threads:
  assumes "main sys popen_ok new_radio opts (client_start i j n (Tun fd sock a1 a2)) = ok (c, ts)"
  shows "ts = [LaunchRxSendCell, LaunchRxRcvCell, LaunchRxParseGPS] @ concat (map radio_threads (radio_ids (the_tun c)))"
    "set (radio_ids (the_tun c)) = dom (radio_context_tbl c)"
proof -
  obtain c1 c2 rs where m: "WspaceClient sys popen_ok new_radio opts (client_start i j n (Tun fd sock a1 a2)) = ok c1"
    "client_Init sys c1 = ok c2" "start_radios c2 (radio_ids (the_tun c2)) = ok rs"
    "c = c2" "ts = [LaunchRxSendCell, LaunchRxRcvCell, LaunchRxParseGPS] @ rs"
    using assms by (auto simp: main_def and_then_eq_ok)
  have "apply_options sys popen_ok new_radio opts (client_start i j n (Tun fd sock a1 a2)) = ok c1"
    using m(1) by (auto simp: WspaceClient_def and_then_eq_ok check_conf_def Let_def split: if_splits)
  then have "conf_inv c1" by (rule apply_options_inv [OF client_start_inv])
  then have dom: "set (radio_ids (the_tun c)) = dom (radio_context_tbl c)"
    using client_Init_ids [OF m(2)] m(4) by (simp add: conf_inv_def)
  then show "set (radio_ids (the_tun c)) = dom (radio_context_tbl c)" .
  show "ts = [LaunchRxSendCell, LaunchRxRcvCell, LaunchRxParseGPS] @ concat (map radio_threads (radio_ids (the_tun c)))"
    using start_radios_all [of "radio_ids (the_tun c2)" c2] dom m(3-5) by simp
qed

text \<open>Every thread that was started is joined, as often as it was started.\<close>

lemma main_joins_all:
  assumes "main sys popen_ok new_radio opts (client_start i j n (Tun fd sock a1 a2)) = ok (c, ts)"
  shows "main_joins c = ts"
proof -
  have "join_radio = radio_threads" by (rule ext) (simp add: join_radio_def radio_threads_def)
  then show ?thesis using main_threads(1) [OF assms] by (simp add: main_joins_def)
qed

lemma count_writers:
  "count_list (concat (map radio_threads is)) (LaunchRxWriteTun i) = count_list is i"
  by (induction "is") (auto simp: radio_threads_def)

lemma main_writers:
  assumes "main sys popen_ok new_radio opts (client_start i j n (Tun fd sock a1 a2)) = ok (c, ts)"
  shows "count_list ts (LaunchRxWriteTun r) = count_list (radio_ids (the_tun c)) r"
  using main_threads(1) [OF assms] count_writers [of "radio_ids (the_tun c)" r] by simp

end
