(* ===== verification/Client_Properties.thy ===== *)
theory Client_Properties
  imports Client_Stream Client_Acks Client_Main
begin

text \<open>
  The properties of the client's threads: the downlink from coded datagrams to ordered packets, the
  acknowledgements as they arrive, the writing threads, the uplink, the GPS reader and the
  configuration. A property with hypotheses is followed by its use on a concrete input.
\<close>

section \<open>Sample systems\<close>

definition start_time :: time where "start_time = \<lparr>tv_sec = 0, tv_usec = 0\<rparr>"

text \<open>A system whose reads return \<open>result\<close> and whose sends take everything.\<close>

definition sample_os :: "int \<times> u8 list \<Rightarrow> os" where
  "sample_os result = \<lparr>open_clone = 3, ioctl_tunsetiff = 0, ioctl_name = ''tun0'', socket_fd = (\<lambda>i. int i + 4),
     recv_result = (\<lambda>_ _. result), send_result = (\<lambda>_ _ data. int (length data)), os_inet_addr = (\<lambda>_. 0)\<rparr>"

lemma sample_os_sends: "send_sane (sample_os result)"
  by (simp add: send_sane_def sample_os_def)

definition sample_tun :: tun where
  "sample_tun = Tun 3 0 no_addr no_addr"

section \<open>The downlink\<close>

text \<open>A batch as an encoder \<open>e\<close> leaves it.\<close>

definition batch_of_encoder ::
  "u32 \<Rightarrow> u32 \<Rightarrow> nat \<Rightarrow> i32 \<Rightarrow> i32 \<Rightarrow> u16 \<Rightarrow> u8 list list \<Rightarrow> code_info \<Rightarrow> batch" where
  "batch_of_encoder bid start n radio client rate ps e =
     \<lparr>b_id = bid, b_start = start, b_n = n, b_radio = radio, b_client = client, b_rate = rate, b_pkts = ps,
      b_size = ci_sz e, b_coded = (\<lambda>i. take (ci_sz e) (coded_batch e ! i))\<rparr>"

lemma sendable_of_encoder:
  assumes e: "code_info_inv e" "codec_type e = kEncoder" "36 + 2 * length ps + ci_pkt_size e \<le> TUN_PKT_SIZE"
    and k: "1 \<le> length ps" "length ps \<le> n" "n \<le> 255" "length ps \<le> max_batch_size e" "length ps \<le> MAX_BATCH_SIZE"
    and ps: "\<forall>p\<in>set ps. 0 < length p \<and> length p \<le> ci_pkt_size e"
    and enc: "encode_all n start (map (map GF) ps) e = ok e'" and hdr: "bid > 0" "start > 0" "valid_rate rate"
  shows "sendable (batch_of_encoder bid start n radio client rate ps e')"
proof -
  have sz: "ci_pkt_size e < 65536" "n \<le> 256" using e(3) k(3) by (simp_all add: TUN_PKT_SIZE_def)
  note c = coded_batch_of_encoder [OF e(1,2) sz(1) k(1,2) sz(2) k(4) ps enc]
  show ?thesis
    using c k e(3) hdr by (simp add: sendable_def batch_of_encoder_def b_lens_def)
qed

text \<open>
  C2: the downlink. When a base station encodes a batch of k packets into n coded packets, any k of
  the datagrams, in any order, make RxRcvAth call EnqueuePkt once for each of the k packets with
  its own number, length and contents; no call waits, and the writing thread then gets the k
  packets from DequeuePkt in the order of the batch.
\<close>

theorem downlink_in_order:
  assumes "code_info_inv e" "codec_type e = kEncoder" "36 + 2 * length ps + ci_pkt_size e \<le> TUN_PKT_SIZE"
    and "1 \<le> length ps" "length ps \<le> n" "n \<le> 255" "length ps \<le> max_batch_size e" "length ps \<le> MAX_BATCH_SIZE"
    and "\<forall>p\<in>set ps. 0 < length p \<and> length p \<le> ci_pkt_size e"
    and "encode_all n start (map (map GF) ps) e = ok e'" "bid > 0" "start > 0" "valid_rate rate"
    and "B = batch_of_encoder bid start n radio client rate ps e'"
    and "distinct (inds_of as)" "length as = length ps" "\<forall>j\<in>set (inds_of as). j < n" "before_batch bid s"
    and "rx_ready sent b" "start = head_pt b + 1" "unat (head_pt b) + length ps \<le> rx_last"
    and "\<forall>i<length ps. sent (start + word_of_nat i) = ps ! i"
  shows "\<exists>calls s' bs' b1 b2. rcv_run B as s bs = ok (calls, s', bs')
    \<and> mset (map call_of calls) = mset (map (native_call start ps) [0..<length ps])
    \<and> run_calls calls b = ok ([], b1) \<and> get_list (rx_get now) (length ps) b1 = ok (map Some ps, b2)"
proof -
  have B: "sendable B" unfolding assms(14) by (rule sendable_of_encoder [OF assms(1-13)])
  have f: "b_pkts B = ps" "b_n B = n" "b_id B = bid" "b_start B = start" by (simp_all add: assms(14) batch_of_encoder_def)
  show ?thesis
    using downlink_run [OF B, of as s sent b bs now] assms(15-22) unfolding f by blast
qed

text \<open>A base station with a batch of two packets, coded into four.\<close>

definition two_pkts :: "u8 list list" where "two_pkts = [[7], [1, 2]]"

definition two_sent :: "u32 \<Rightarrow> u8 list" where
  "two_sent s = (if s = 1 then [7] else if s = 2 then [1, 2] else [])"

definition fresh_rcv :: "code_info \<Rightarrow> rcv_ath" where
  "fresh_rcv d = rcv_ath_start (replicate TUN_PKT_SIZE 0) (replicate 10 0)
     \<lparr>raw_pkt_buf = RxRawBuf, decoder = d, the_batch_info = BatchInfo start_time 0, ctx_bs_id = 2\<rparr>"

lemma two_encoder:
  obtains e e' where "code_info_inv e" "codec_type e = kEncoder" "max_batch_size e = 10" "ci_pkt_size e = 1472"
    "encode_all 4 1 (map (map GF) two_pkts) e = ok e'"
proof -
  obtain e where e: "CodeInfo zero_memory kEncoder 10 1472 = ok e" "code_info_inv e" "codec_type e = kEncoder"
    "max_batch_size e = 10" "ci_pkt_size e = 1472" by (rule CodeInfo_ok [of 1472 10 zero_memory kEncoder]) simp_all
  have pre: "1 \<le> length (map (map GF) two_pkts)" "length (map (map GF) two_pkts) \<le> 4" "(4 :: nat) \<le> 256"
    "length (map (map GF) two_pkts) \<le> max_batch_size e"
    "\<forall>p\<in>set (map (map GF) two_pkts). 0 < length p \<and> length p \<le> ci_pkt_size e \<and> length p < 65536"
    by (simp_all add: two_pkts_def e)
  obtain e' where "encode_all 4 1 (map (map GF) two_pkts) e = ok e'"
    by (rule encode_all_ok [OF e(2,3) pre, where start = 1]) (rule that)
  then show thesis using that e by blast
qed

lemma fresh_receiver:
  obtains d where "CodeInfo zero_memory kDecoder MAX_BATCH_SIZE TUN_PKT_SIZE = ok d" "before_batch 1 (fresh_rcv d)"
proof -
  obtain d where d: "CodeInfo zero_memory kDecoder MAX_BATCH_SIZE TUN_PKT_SIZE = ok d" "code_info_inv d" "codec_type d = kDecoder"
    "max_batch_size d = MAX_BATCH_SIZE" "ci_pkt_size d = TUN_PKT_SIZE"
    by (rule CodeInfo_ok [of TUN_PKT_SIZE MAX_BATCH_SIZE zero_memory kDecoder]) (simp_all add: TUN_PKT_SIZE_def MAX_BATCH_SIZE_def)
  then have "before_batch 1 (fresh_rcv d)"
    by (simp add: before_batch_def fresh_rcv_def rcv_ath_start_def radio_context.defs idle_decoder_def)
  then show thesis using that d(1) by blast
qed

lemma two_ready: "rx_ready two_sent (RxDataBuf start_time)"
  by (simp add: rx_ready_def RxDataBuf_inv two_sent_def PKT_SIZE_def)
    (simp add: RxDataBuf_def BasicBuf_def basic_buf.defs BUF_SIZE_def)

lemma two_points [simp]: "head_pt (RxDataBuf start_time) = 0" "tail_pt (RxDataBuf start_time) = 0"
  by (simp_all add: RxDataBuf_def BasicBuf_def basic_buf.defs)

theorem downlink_in_order_witness:
  "\<exists>e' d calls s' bs' b1 b2. rcv_run (batch_of_encoder 1 1 4 2 9 0x0B two_pkts e')
      [(start_time, 1, 3), (start_time, 2, 1)] (fresh_rcv d) BaseStationContext = ok (calls, s', bs')
    \<and> mset (map call_of calls) = {#(1, 1, [7]), (2, 2, [1, 2])#}
    \<and> run_calls calls (RxDataBuf start_time) = ok ([], b1)
    \<and> get_list (rx_get start_time) 2 b1 = ok ([Some [7], Some [1, 2]], b2)"
proof -
  obtain e e' where e: "code_info_inv e" "codec_type e = kEncoder" "max_batch_size e = 10" "ci_pkt_size e = 1472"
    "encode_all 4 1 (map (map GF) two_pkts) e = ok e'" by (rule two_encoder)
  obtain d where d: "before_batch 1 (fresh_rcv d)" by (rule fresh_receiver) blast
  let ?as = "[(start_time, 1, 3), (start_time, 2, 1)] :: (time \<times> u32 \<times> nat) list"
  have len: "length two_pkts = 2" by (simp add: two_pkts_def)
  have "\<exists>calls s' bs' b1 b2. rcv_run (batch_of_encoder 1 1 4 2 9 0x0B two_pkts e') ?as (fresh_rcv d) BaseStationContext = ok (calls, s', bs')
    \<and> mset (map call_of calls) = mset (map (native_call 1 two_pkts) [0..<length two_pkts])
    \<and> run_calls calls (RxDataBuf start_time) = ok ([], b1) \<and> get_list (rx_get start_time) (length two_pkts) b1 = ok (map Some two_pkts, b2)"
  proof (rule downlink_in_order [OF e(1,2) _ _ _ _ _ _ _ e(5) _ _ _ refl _ _ _ d two_ready])
    show "\<forall>p\<in>set two_pkts. 0 < length p \<and> length p \<le> ci_pkt_size e" by (simp add: two_pkts_def e(4))
    show "\<forall>i<length two_pkts. two_sent (1 + word_of_nat i) = two_pkts ! i"
      by (auto simp: two_pkts_def two_sent_def less_Suc_eq)
  qed (simp_all add: len e(3,4) TUN_PKT_SIZE_def MAX_BATCH_SIZE_def valid_rate_def rx_last_def BUF_SIZE_def)
  moreover have "mset (map (native_call 1 two_pkts) [0..<length two_pkts]) = {#(1, 1, [7]), (2, 2, [1, 2])#}"
    by (simp add: two_pkts_def native_call_def upt_rec)
  ultimately show ?thesis unfolding len by (simp add: two_pkts_def) blast
qed

lemma two_batch:
  obtains B where "sendable B" "b_n B = 4" "b_id B = 1" "b_k B = 2" "b_client B = 9" "b_radio B = 2" "b_start B = 1" "b_pkts B = two_pkts"
proof -
  obtain e e' where e: "code_info_inv e" "codec_type e = kEncoder" "max_batch_size e = 10" "ci_pkt_size e = 1472"
    "encode_all 4 1 (map (map GF) two_pkts) e = ok e'" by (rule two_encoder)
  have "sendable (batch_of_encoder 1 1 4 2 9 0x0B two_pkts e')"
    by (rule sendable_of_encoder [OF e(1,2) _ _ _ _ _ _ _ e(5)])
      (simp_all add: e(3,4) two_pkts_def TUN_PKT_SIZE_def MAX_BATCH_SIZE_def valid_rate_def)
  then show thesis by (rule that) (simp_all add: batch_of_encoder_def two_pkts_def)
qed

text \<open>
  C1: the downlink over time. For any sequence of consecutive batches on a radio, of each of which k
  different coded packets arrive in any order, followed by any further ones, the writing thread
  gets all packets of all batches, complete, unaltered and in order, and no call of EnqueuePkt waits.
\<close>

theorem downlink_stream_in_order:
  assumes "\<forall>(B, as)\<in>set stream. sendable B \<and> arrives B as \<and> carries sent B"
    and "consecutive (unat (head_pt b)) bid (map fst stream)" "after_batch bid s \<or> bid = 0 \<and> before_batch 1 s"
    and "rx_ready sent b" "unat (head_pt b) + sum_list (map (b_k \<circ> fst) stream) \<le> rx_last"
  shows "\<exists>b'. downlink_stream now stream s bs b = ok (Some (map Some (concat (map (b_pkts \<circ> fst) stream))), b') \<and> rx_ready sent b'"
proof -
  have "before_batch bid' s" if "bid < bid'" for bid'
    using assms(3)
  proof
    assume "after_batch bid s"
    then show ?thesis using that after_before by blast
  next
    assume "bid = 0 \<and> before_batch 1 s"
    then have "batch_id s = 0" "before_batch 1 s" by (auto simp: before_batch_def word_less_nat_alt unat_eq_0)
    moreover have "0 < bid'" using that by (meson word_zero_le le_less_trans)
    ultimately show ?thesis by (simp add: before_batch_def)
  qed
  then show ?thesis by (intro stream_run [OF assms(1,2) _ assms(4,5)])
qed

text \<open>Two batches: packets 3 and 1 of the first, then its packet 0 again; packets 0 and 2 of the second.\<close>

definition four_sent :: "u32 \<Rightarrow> u8 list" where
  "four_sent s = (if s = 1 \<or> s = 3 then [7] else if s = 2 \<or> s = 4 then [1, 2] else [])"

lemma encoded_pair:
  assumes "bid > 0" "start > 0"
  obtains B where "sendable B" "b_n B = 4" "b_id B = bid" "b_start B = start" "b_pkts B = two_pkts"
proof -
  obtain e e' where e: "code_info_inv e" "codec_type e = kEncoder" "max_batch_size e = 10" "ci_pkt_size e = 1472"
    "encode_all 4 1 (map (map GF) two_pkts) e = ok e'" by (rule two_encoder)
  have ps: "\<forall>p\<in>set two_pkts. 0 < length p \<and> length p \<le> ci_pkt_size e" by (simp add: two_pkts_def e)
  obtain e2 where e2: "encode_all 4 start (map (map GF) two_pkts) e = ok e2"
    by (rule encode_all_ok [OF e(1,2), of "map (map GF) two_pkts" 4, where start = start]) (simp_all add: two_pkts_def e)
  have "sendable (batch_of_encoder bid start 4 2 9 0x0B two_pkts e2)"
    by (rule sendable_of_encoder [OF e(1,2) _ _ _ _ _ _ ps e2 assms])
      (simp_all add: e(3,4) two_pkts_def TUN_PKT_SIZE_def MAX_BATCH_SIZE_def valid_rate_def)
  then show thesis by (rule that) (simp_all add: batch_of_encoder_def)
qed

theorem downlink_stream_in_order_witness:
  "\<exists>B1 B2 d b'. b_pkts B1 = two_pkts \<and> b_pkts B2 = two_pkts
    \<and> downlink_stream start_time [(B1, [(start_time, 1, 3), (start_time, 2, 1), (start_time, 3, 0)]), (B2, [(start_time, 4, 0), (start_time, 5, 2)])]
        (fresh_rcv d) BaseStationContext (RxDataBuf start_time)
      = ok (Some [Some [7], Some [1, 2], Some [7], Some [1, 2]], b')"
proof -
  obtain B1 where B1: "sendable B1" "b_n B1 = 4" "b_id B1 = 1" "b_start B1 = 1" "b_pkts B1 = two_pkts" by (rule encoded_pair [of 1 1]) simp_all
  obtain B2 where B2: "sendable B2" "b_n B2 = 4" "b_id B2 = 2" "b_start B2 = 3" "b_pkts B2 = two_pkts" by (rule encoded_pair [of 2 3]) simp_all
  obtain d where d: "before_batch 1 (fresh_rcv d)" by (rule fresh_receiver) blast
  let ?as = "[(start_time, 1, 3), (start_time, 2, 1), (start_time, 3, 0)] :: arrivals" and ?as' = "[(start_time, 4, 0), (start_time, 5, 2)] :: arrivals"
  have less_2: "(\<forall>i<2. P i) \<longleftrightarrow> P 0 \<and> P (1 :: nat)" for P by (auto simp: less_2_cases_iff)
  have len: "b_k B1 = 2" "b_k B2 = 2" using B1(5) B2(5) by (simp_all add: two_pkts_def)
  have "\<forall>(B, as)\<in>set [(B1, ?as), (B2, ?as')]. sendable B \<and> arrives B as \<and> carries four_sent B"
    using B1 B2 len by (simp add: arrives_def carries_def less_2) (simp add: four_sent_def two_pkts_def)
  moreover have "consecutive (unat (head_pt (RxDataBuf start_time))) 0 (map fst [(B1, ?as), (B2, ?as')])"
    using B1(3,4) B2(3,4) len by simp
  moreover have "rx_ready four_sent (RxDataBuf start_time)"
    by (simp add: rx_ready_def RxDataBuf_inv four_sent_def PKT_SIZE_def)
      (simp add: RxDataBuf_def BasicBuf_def basic_buf.defs BUF_SIZE_def)
  ultimately obtain b' where "downlink_stream start_time [(B1, ?as), (B2, ?as')] (fresh_rcv d) BaseStationContext (RxDataBuf start_time)
      = ok (Some (map Some (concat (map (b_pkts \<circ> fst) [(B1, ?as), (B2, ?as')]))), b')"
    using downlink_stream_in_order [of "[(B1, ?as), (B2, ?as')]" four_sent "RxDataBuf start_time" 0 "fresh_rcv d" start_time BaseStationContext] d len
    by (auto simp: rx_last_def BUF_SIZE_def)
  then show ?thesis using B1(5) B2(5) by (intro exI [of _ B1] exI [of _ B2] exI [of _ d] exI [of _ b']) (simp add: two_pkts_def)
qed

text \<open>
  C22: a datagram of an earlier batch, or of the current one when it is decoded, calls nothing and
  leaves the decoder and the batch as they are: a batch is delivered once.
\<close>

theorem late_datagram_ignored:
  assumes "sendable B" "j < b_n B" "b_id B < batch_id s \<or> b_id B = batch_id s \<and> batch_done s"
  shows "\<exists>s'. RxRcvAth (b_client B) (b_radio B) now (datagram B raw j) (word_of_nat (length (datagram B raw j))) s bs
      = ok ([], s', set_bs_id (b_radio B) bs) \<and> decoder s' = decoder s \<and> batch_id s' = batch_id s \<and> batch_done s' = batch_done s"
  by (simp add: RxRcvAth_late [OF assms])

theorem late_datagram_ignored_witness:
  "\<exists>B d s'. sendable B \<and> before_batch 1 (fresh_rcv d)
    \<and> RxRcvAth 9 2 start_time (datagram B 5 3) (word_of_nat (length (datagram B 5 3)))
        ((fresh_rcv d)\<lparr>batch_id := 2\<rparr>) BaseStationContext = ok ([], s', set_bs_id 2 BaseStationContext) \<and> batch_id s' = 2"
proof -
  obtain B where B: "sendable B" "b_n B = 4" "b_id B = 1" "b_k B = 2" "b_client B = 9" "b_radio B = 2" "b_start B = 1" "b_pkts B = two_pkts"
    by (rule two_batch)
  obtain d where d: "before_batch 1 (fresh_rcv d)" by (rule fresh_receiver) blast
  let ?s = "(fresh_rcv d)\<lparr>batch_id := 2\<rparr>"
  have "3 < b_n B" "b_id B < batch_id ?s \<or> b_id B = batch_id ?s \<and> batch_done ?s" by (simp_all add: B)
  from late_datagram_ignored [OF B(1) this, of start_time 5 BaseStationContext]
  obtain s' where "RxRcvAth 9 2 start_time (datagram B 5 3) (word_of_nat (length (datagram B 5 3))) ?s BaseStationContext
      = ok ([], s', set_bs_id 2 BaseStationContext)" "batch_id s' = batch_id ?s" unfolding B(5,6) by blast
  then show ?thesis using B(1) d by (intro exI [of _ B] exI [of _ d] exI [of _ s']) simp
qed

text \<open>
  C23: a native packet that comes over the cellular link makes RxRcvCell call EnqueuePkt, on the
  buffer of the base station's radio, as RxRcvAth does for the same packet.
\<close>

theorem cell_duplicate:
  assumes "sendable B" "j < b_k B" "b_radio B \<in> set known"
  shows "\<exists>call pkt. RxRcvCell known (b_client B) (datagram B raw j) mem = ok (Some (b_radio B, call), pkt)
    \<and> call_of call = native_call (b_start B) (b_pkts B) j"
proof -
  let ?h = "batch_header B raw j" and ?pkt = "datagram B raw j @ drop (length (datagram B raw j)) mem"
  have jn: "j < b_n B" using sendable_bounds(2) [OF assms(1)] assms(2) by simp
  have batch: "coded_batch_of (b_n B) (b_pkts B) (b_size B) (b_lens B) (b_coded B)" using assms(1) by (simp add: sendable_def)
  note ph = parse_batch_header [OF assms(1) jn, of raw]
  have parts: "code_header_at ?pkt = ?h" "hdr_lens ?h ?pkt = ok (b_lens B)"
    "GetPayloadStart ?h ?pkt = map gf_byte (b_coded B j) @ drop (length (datagram B raw j)) mem"
    unfolding datagram_def by (rule code_packet_parts [OF ph(2,3)])+
  have "?pkt ! 0 = ah_type (code_header_at ?pkt)" by (simp add: code_header_at_def)
  then have type: "?pkt ! 0 = ATH_CODE" unfolding parts(1) by (simp add: batch_header_def)
  let ?call = "(b_start B + word_of_nat j, b_lens B ! j, map gf_byte (b_coded B j) @ drop (length (datagram B raw j)) mem)"
  have "RxRcvCell known (b_client B) (datagram B raw j) mem = ok (Some (b_radio B, ?call), ?pkt)"
    using type parts ph(1) assms(2,3) by (simp add: RxRcvCell_def Let_def parsed_of_def)
  moreover have "call_of ?call = native_call (b_start B) (b_pkts B) j"
  proof -
    note n = native_payload [OF batch assms(2)]
    have "take (length (b_pkts B ! j)) (map gf_byte (b_coded B j)) = b_pkts B ! j"
      using arg_cong [OF n(1), of "map gf_byte"] by (simp add: take_map comp_def)
    then show ?thesis
      using n(2-4) length_coded [OF batch jn] by (simp add: call_of_def native_call_def)
  qed
  ultimately show ?thesis by blast
qed

theorem cell_duplicate_witness:
  "\<exists>B call pkt. sendable B \<and> RxRcvCell [2] 9 (datagram B 5 1) (replicate 2000 0) = ok (Some (2, call), pkt)
    \<and> call_of call = (2, 2, [1, 2])"
proof -
  obtain B where B: "sendable B" "b_n B = 4" "b_id B = 1" "b_k B = 2" "b_client B = 9" "b_radio B = 2" "b_start B = 1" "b_pkts B = two_pkts"
    by (rule two_batch)
  have "\<exists>call pkt. RxRcvCell [2] (b_client B) (datagram B 5 1) (replicate 2000 0) = ok (Some (b_radio B, call), pkt)
    \<and> call_of call = native_call (b_start B) (b_pkts B) 1"
    by (rule cell_duplicate [OF B(1)]) (simp_all only: B(4,6), simp_all)
  then show ?thesis using B(1) unfolding B(5-8) by (auto simp: native_call_def two_pkts_def)
qed

text \<open>
  C24: the deadline of a batch. From the announcement that its packet ind arrived at time t, the
  batch counts as finished for the acknowledging thread exactly when the time on air of the n - ind
  - 1 packets still to come has passed. With the header's byte-sized fields and the twelve rates,
  none of the 32-bit products wraps.
\<close>

theorem batch_deadline:
  assumes "GetRate h = ok rate" "0 \<le> ind" "ind < n" "n \<le> 255"
  shows "\<exists>bi'. SetBatchInfo t bid seq False ind n (per_pkt_duration nread rate) bi = ok bi'
    \<and> fst (GetBatchInfo now bi') = (seq, time_minus now t > int (unat nread * 80 div unat rate + 73) * (n - ind - 1))
    \<and> GetBatchID bi' = bid"
proof -
  have "unat rate \<ge> 10" using GetRate_values [OF assms(1)] by auto
  then have "unat nread * 80 div unat rate \<le> unat nread * 80 div 10" by (intro div_le_mono2) simp_all
  also have "\<dots> < 524288" using unsigned_less [of nread] by simp
  finally have d: "unat nread * 80 div unat rate + 73 < 2 ^ 20" by simp
  moreover have "per_pkt_duration nread rate = word_of_nat (unat nread * 80 div unat rate + 73)" by (simp add: per_pkt_duration_def)
  ultimately have dur: "uint (per_pkt_duration nread rate) = int (unat nread * 80 div unat rate + 73)"
    by (simp only: uint_nat unat_of_nat) simp
  have "int (unat nread * 80 div unat rate + 73) * (n - ind - 1) \<le> 2 ^ 20 * 254"
    by (rule mult_mono) (use d assms(2-4) in \<open>auto simp del: of_nat_add\<close>)
  then have fit: "uint (per_pkt_duration nread rate) * (n - ind - 1) < 2 ^ 32" unfolding dur by simp
  obtain bi' where bi': "SetBatchInfo t bid seq False ind n (per_pkt_duration nread rate) bi = ok bi'"
    using assms(2,3) by (simp add: SetBatchInfo_def UpdateTimeLeft_def)
  then show ?thesis using SetBatchInfo_then_Get [OF assms(2,3) fit bi', of now] dur by (simp del: of_nat_add)
qed

theorem batch_deadline_witness:
  "\<exists>bi'. SetBatchInfo start_time 4 30 False 1 3 (per_pkt_duration 1500 60) (BatchInfo start_time 0) = ok bi'
    \<and> fst (GetBatchInfo \<lparr>tv_sec = 0, tv_usec = 2074\<rparr> bi') = (30, True)"
proof -
  have r: "GetRate \<lparr>ah_type = 2, raw_seq = 0, ah_rate = 0x0B, ah_bs_id = 0, ah_client_id = 0, is_good = True\<rparr> = ok 60"
    by (simp add: GetRate_def)
  show ?thesis
    using batch_deadline [OF r, of 1 3 start_time 4 30 1500 "BatchInfo start_time 0" "\<lparr>tv_sec = 0, tv_usec = 2074\<rparr>"]
    by (auto simp: time_minus_def start_time_def)
qed

section \<open>Acknowledgements\<close>

text \<open>
  C4: the data acknowledgement. A pass of RxCreateDataAck on an empty buffer whose batch was
  acknowledged before sends nothing and waits. Otherwise, and after the wait on what the thread finds
  then, it sends one datagram, which the other side reads as these numbers, when they are fewer than
  500. When the last batch is decoded or over its time: the open holes between the head and the tail,
  and what lies behind the tail up to the last number of the batch. Otherwise: the open holes up to the
  last number of the previous batch, and what lies behind the tail up to it; no number when there is no
  previous batch or all of it was received. An open hole is a slot without a packet that has not
  blocked for more than block_time. The numbers increase, none is of a packet the buffer holds, they go
  under the next acknowledgement number with the ids of the client and of the radio's base station, and
  no packet the buffer holds is lost. The buffer may be any well-formed one, the results of restarts
  over undelivered packets included; one that never got a packet is excluded when there is something to
  report, since the search then ends the process (find_nacks_assertion).
\<close>

theorem data_ack_exact:
  assumes "rx_ok stale sent b" "tail_pt b \<noteq> 0 \<or> \<not> d \<and> highest = 0" "unat (tail_pt b) + 1 < 2 ^ 32"
    and "GetBatchInfo now (the_batch_info r) = ((highest, d), bi')" "length (hole_numbers bt end_time b highest d) < 500"
    and "ack_inv a" "length mem = ACK_PKT_SIZE" "send_sane sys"
  shows "(FindNack_waits (the_batch_info r) prev b \<longrightarrow> RxCreateDataAck sys bt mem now end_time r prev b a t = ok None)
    \<and> (\<exists>a' prev' b' t' dg pn. RxCreateDataAck_wake sys bt mem now end_time r prev b a t
          = ok (Some (a', r\<lparr>the_batch_info := bi'\<rparr>, prev', b', t'))
      \<and> (\<not> FindNack_waits (the_batch_info r) prev b \<longrightarrow> RxCreateDataAck sys bt mem now end_time r prev b a t
          = ok (Some (a', r\<lparr>the_batch_info := bi'\<rparr>, prev', b', t')))
      \<and> outbox t' = outbox t @ [(kController, dg)] \<and> (\<forall>s. holds b s \<longrightarrow> holds b' s) \<and> parsed_ack dg = ok pn
      \<and> pn_seqs pn = map word_of_nat (hole_numbers bt end_time b highest d)
      \<and> pn_type pn = DATA_ACK \<and> pn_ack_seq pn = ack_seq (ack_hdr a) + 1
      \<and> pn_end_seq pn = (if d \<and> highest < tail_pt b then tail_pt b else highest)
      \<and> pn_client_id pn = tun_client_id t \<and> pn_bs_id pn = ctx_bs_id r
      \<and> sorted_wrt (<) (pn_seqs pn) \<and> (\<forall>s\<in>set (pn_seqs pn). \<not> holds b s))"
proof -
  have tail: "scans (head_pt b) (tail_pt b) highest d \<Longrightarrow> tail_pt b \<noteq> 0" using assms(2) by (auto simp: scans_def)
  have few: "length (hole_numbers bt end_time b highest d) < ACK_WINDOW" using assms(5) by (simp add: ACK_WINDOW_def)
  note words = hole_numbers_words [OF assms(1) tail assms(3) few]
  let ?seqs = "map word_of_nat (hole_numbers bt end_time b highest d) :: u32 list"
  let ?pn = "\<lambda>k. \<lparr>pn_type = DATA_ACK, pn_ack_seq = ack_seq (ack_hdr a) + 1, pn_num_nacks = k,
         pn_end_seq = (if d \<and> highest < tail_pt b then tail_pt b else highest),
         pn_client_id = tun_client_id t, pn_bs_id = ctx_bs_id r, pn_num_pkts = 0, pn_seqs = ?seqs\<rparr>"
  obtain a' prev' b' t' dg k where run: "RxCreateDataAck_wake sys bt mem now end_time r prev b a t
      = ok (Some (a', r\<lparr>the_batch_info := bi'\<rparr>, prev', b', t'))"
    "outbox t' = outbox t @ [(kController, dg)]" "\<forall>s. holds b s \<longrightarrow> holds b' s" "parsed_ack dg = ok (?pn k)"
    using data_ack_run [OF assms(1) tail assms(3,4) few assms(6-8), of prev t] by blast
  have "RxCreateDataAck sys bt mem now end_time r prev b a t = (if FindNack_waits (the_batch_info r) prev b then ok None
      else RxCreateDataAck_wake sys bt mem now end_time r prev b a t)"
    by (simp add: RxCreateDataAck_def RxCreateDataAck_wake_def FindNackSeqNum_def after_search_def)
  then show ?thesis using run words
    by (intro conjI exI [of _ a'] exI [of _ prev'] exI [of _ b'] exI [of _ t'] exI [of _ dg] exI [of _ "?pn k"]) simp_all
qed

text \<open>A buffer that holds packet 2 and waits for packet 1.\<close>

definition hole_buf :: rx_data_buf where
  "hole_buf = (RxDataBuf start_time)\<lparr>tail_pt := 2,
     book_keep_arr := (\<lambda>_. empty_book start_time)(1 := (empty_book start_time)\<lparr>bk_seq_num := 2, bk_status := kOccupiedNew, bk_len := 2\<rparr>),
     pkt_buf := (\<lambda>_. replicate PKT_SIZE 0)(1 := [1, 2] @ replicate 1470 0)\<rparr>"

lemma hole_buf_inv: "rx_inv two_sent hole_buf"
proof -
  have "enqueue 2 2 [1, 2] (RxDataBuf start_time) = ok hole_buf"
    by (simp add: enqueue_def BUF_SIZE_def store_in_slot_def Seq2Ind_def RxDataBuf_def BasicBuf_def basic_buf.defs empty_book_def
      StorePkt_def check_index_def UpdateBookKeeping_def PKT_SIZE_def advance_tail_def clear_if_read_def upt_rec
      hole_buf_def Let_def drop_replicate)
  moreover obtain b where "enqueue 2 2 [1, 2] (RxDataBuf start_time) = ok b" "rx_inv two_sent b"
    by (rule enqueue_window [OF RxDataBuf_inv [of two_sent], where seq = 2 and len = 2 and pkt = "[1, 2]" and now1 = start_time])
      (simp_all add: two_sent_def BUF_SIZE_def PKT_SIZE_def)
  ultimately show ?thesis by simp
qed

definition sample_radio :: "code_info \<Rightarrow> batch_info \<Rightarrow> raw_buf \<Rightarrow> radio_context" where
  "sample_radio d bi raw = \<lparr>raw_pkt_buf = raw, decoder = d, the_batch_info = bi, ctx_bs_id = 2\<rparr>"

lemma sample_radio_fields [simp]:
  "raw_pkt_buf (sample_radio d bi raw) = raw" "the_batch_info (sample_radio d bi raw) = bi" "ctx_bs_id (sample_radio d bi raw) = 2"
  "(sample_radio d bi raw)\<lparr>the_batch_info := bi'\<rparr> = sample_radio d bi' raw"
  "(sample_radio d bi raw)\<lparr>raw_pkt_buf := raw'\<rparr> = sample_radio d bi raw'"
  by (simp_all add: sample_radio_def)

lemma sample_radio_made:
  obtains d where "RadioContext zero_memory start_time 0 2 = ok (sample_radio d (BatchInfo start_time 0) RxRawBuf)"
proof -
  obtain d where "CodeInfo zero_memory kDecoder MAX_BATCH_SIZE TUN_PKT_SIZE = ok d" by (rule fresh_receiver)
  then have "RadioContext zero_memory start_time 0 2 = ok (sample_radio d (BatchInfo start_time 0) RxRawBuf)"
    by (simp add: RadioContext_def sample_radio_def)
  then show thesis by (rule that)
qed

definition done_info :: batch_info where
  "done_info = (BatchInfo start_time 0)\<lparr>bi_decoding_done := True\<rparr>"

theorem data_ack_exact_witness:
  "\<exists>d a' prev' b' t' dg pn. RadioContext zero_memory start_time 0 2 = ok (sample_radio d (BatchInfo start_time 0) RxRawBuf)
    \<and> RxCreateDataAck (sample_os (0, [])) 50 (replicate ACK_PKT_SIZE 0) start_time start_time
      (sample_radio d done_info RxRawBuf) 0 hole_buf (AckPkt 0 0 0) sample_tun
      = ok (Some (a', sample_radio d done_info RxRawBuf, prev', b', t'))
    \<and> outbox t' = [(kController, dg)] \<and> parsed_ack dg = ok pn \<and> pn_seqs pn = [1] \<and> pn_bs_id pn = 2"
proof -
  obtain d where d: "RadioContext zero_memory start_time 0 2 = ok (sample_radio d (BatchInfo start_time 0) RxRawBuf)" by (rule sample_radio_made)
  have pts: "head_pt hole_buf = 0" "tail_pt hole_buf = 2"
    by (simp_all add: hole_buf_def)
  have info: "GetBatchInfo start_time (the_batch_info (sample_radio d done_info RxRawBuf)) = ((0, True), done_info)"
    by (simp add: GetBatchInfo_def decoding_done_def done_info_def BatchInfo_def)
  have ps: "hole_numbers 50 start_time hole_buf 0 True = [1]"
    by (simp add: hole_numbers_def scans_def scan_last_def scan_end_def pts upt_rec open_hole_def)
      (simp add: hole_buf_def empty_book_def BUF_SIZE_def)
  have few: "length (hole_numbers 50 start_time hole_buf 0 True) < 500" by (simp add: ps)
  have pos: "tail_pt hole_buf \<noteq> 0 \<or> \<not> True \<and> (0 :: u32) = 0" "unat (tail_pt hole_buf) + 1 < 2 ^ 32" by (simp_all add: pts)
  have go: "\<not> FindNack_waits done_info 0 hole_buf" by (simp add: FindNack_waits_def IsEmpty_def pts)
  show ?thesis
    using data_ack_exact [OF rx_ok_mono [OF hole_buf_inv] pos info few AckPkt_inv [of 0 0 0],
      of "replicate ACK_PKT_SIZE 0" "sample_os (0, [])" 0 sample_tun] go d
    by (auto simp: sample_os_sends ps sample_tun_def Tun_def)
qed

text \<open>
  C9: the raw acknowledgement, for good packets only and a count of option -A from 1 to 131. One pass
  of RxCreateRawAck waits when fewer packets than it wants were recorded. Otherwise, with fewer than
  500 numbers pending, it sends one datagram, which the other side reads as exactly the pending
  numbers, with the last number seen, the count of packets and the ids of the client and of the
  radio's base station; with 500 or more, it ends the process. Without the option (count 1) fewer than
  500 are pending in every run, so that this exit is never taken.
\<close>

theorem raw_ack_exact:
  assumes "\<forall>s. Push_Event s False \<notin> set evs" "0 < mx" "mx \<le> 131" "raw_pkt_buf r = hist_buf (raw_run mx evs)"
    and "ack_inv a" "length mem = ACK_PKT_SIZE" "send_sane sys"
  shows "(pkt_cnt (raw_pkt_buf r) < min_pkts \<longrightarrow> RxCreateRawAck sys min_pkts mem r a t = ok None)
    \<and> (min_pkts \<le> pkt_cnt (raw_pkt_buf r) \<and> length (pending (raw_run mx evs)) < 500 \<longrightarrow>
        (\<exists>a' b' t' dg pn. RxCreateRawAck sys min_pkts mem r a t = ok (Some (a', r\<lparr>raw_pkt_buf := b'\<rparr>, t'))
          \<and> outbox t' = outbox t @ [(kController, dg)] \<and> parsed_ack dg = ok pn \<and> pn_type pn = RAW_ACK
          \<and> pn_seqs pn = pending (raw_run mx evs) \<and> pn_end_seq pn = rb_end_seq (raw_pkt_buf r)
          \<and> pn_num_pkts pn = ucast (pkt_cnt (raw_pkt_buf r)) \<and> pn_ack_seq pn = ack_seq (ack_hdr a) + 1
          \<and> pn_client_id pn = tun_client_id t \<and> pn_bs_id pn = ctx_bs_id r))
    \<and> (min_pkts \<le> pkt_cnt (raw_pkt_buf r) \<and> 500 \<le> length (pending (raw_run mx evs))
        \<longrightarrow> RxCreateRawAck sys min_pkts mem r a t = abort Perror_Exit)
    \<and> (mx = 1 \<longrightarrow> length (pending (raw_run mx evs)) < 500)"
proof -
  let ?b = "raw_pkt_buf r"
  have b: "raw_good ?b" "raw_span ?b" using good_run_span [OF assms(1)] assms(4) by simp_all
  have len: "length (pending (raw_run mx evs)) = length (nack_deq ?b)" using assms(4) by (simp add: pending_def)
  have count: "max_send_cnt ?b = mx" using assms(4) by (simp add: raw_run_max)
  have reports: "max_reports mx = unat mx" using assms(2) by (simp add: max_reports_def unat_sub word_le_nat_alt word_less_nat_alt Suc_le_eq)
  then have mx: "max_reports (max_send_cnt ?b) \<le> 131" using assms(3) count by (simp add: word_le_nat_alt)
  have one: "mx = 1 \<longrightarrow> length (nack_deq ?b) < 500" using raw_good_pending [OF b(1)] count reports by auto
  have waits: "pkt_cnt ?b < min_pkts \<longrightarrow> RxCreateRawAck sys min_pkts mem r a t = ok None"
    by (simp add: RxCreateRawAck_def PopPktStatus_def)
  have exits: "min_pkts \<le> pkt_cnt ?b \<and> 500 \<le> length (nack_deq ?b) \<longrightarrow> RxCreateRawAck sys min_pkts mem r a t = abort Perror_Exit"
    using raw_ack_exits [OF b mx _ assms(5)] by (simp add: ACK_WINDOW_def)
  let ?pn = "\<lambda>k. \<lparr>pn_type = RAW_ACK, pn_ack_seq = ack_seq (ack_hdr a) + 1, pn_num_nacks = k, pn_end_seq = rb_end_seq ?b,
         pn_client_id = tun_client_id t, pn_bs_id = ctx_bs_id r, pn_num_pkts = ucast (pkt_cnt ?b), pn_seqs = pending (raw_run mx evs)\<rparr>"
  have sends: "\<exists>a' b' t' dg k. RxCreateRawAck sys min_pkts mem r a t = ok (Some (a', r\<lparr>raw_pkt_buf := b'\<rparr>, t'))
      \<and> outbox t' = outbox t @ [(kController, dg)] \<and> parsed_ack dg = ok (?pn k)"
    if h: "min_pkts \<le> pkt_cnt ?b" "length (nack_deq ?b) < 500"
  proof -
    obtain b' where pop: "PopPktStatus min_pkts ?b = Some ((pending (raw_run mx evs), rb_end_seq ?b, ucast (pkt_cnt ?b)), b')"
      using pop_ready [OF h(1)] assms(4) by (auto simp: pending_def)
    have "length (nack_deq ?b) < ACK_WINDOW" using h(2) by (simp add: ACK_WINDOW_def)
    from raw_ack_run [OF b mx this assms(5-7) pop, of t] show ?thesis by blast
  qed
  show ?thesis using waits exits one sends unfolding len by force
qed

theorem raw_ack_exact_witness:
  "\<exists>d a' b' t' dg pn. RadioContext zero_memory start_time 0 2 = ok (sample_radio d (BatchInfo start_time 0) RxRawBuf)
    \<and> RxCreateRawAck (sample_os (0, [])) 1 (replicate ACK_PKT_SIZE 0)
      (sample_radio d done_info (hist_buf (raw_run 2 [Push_Event 3 True]))) (AckPkt 0 0 0) sample_tun
      = ok (Some (a', sample_radio d done_info b', t'))
    \<and> outbox t' = [(kController, dg)] \<and> parsed_ack dg = ok pn \<and> pn_seqs pn = [1, 2] \<and> pn_end_seq pn = 3 \<and> pn_bs_id pn = 2"
proof -
  obtain d where d: "RadioContext zero_memory start_time 0 2 = ok (sample_radio d (BatchInfo start_time 0) RxRawBuf)" by (rule sample_radio_made)
  let ?r = "sample_radio d done_info (hist_buf (raw_run 2 [Push_Event 3 True]))"
  have v: "pending (raw_run 2 [Push_Event 3 True]) = [1, 2]" "rb_end_seq (hist_buf (raw_run 2 [Push_Event 3 True])) = 3"
    "pkt_cnt (hist_buf (raw_run 2 [Push_Event 3 True])) = 3"
    by (simp_all add: raw_run_def raw_begin_def set_max_send_cnt_def raw_step_def PushPkts_def RxRawBuf_def
      Let_def kMaxBufSize_def gap_def pending_def upt_rec)
  have "raw_pkt_buf ?r = hist_buf (raw_run 2 [Push_Event 3 True])" by simp
  from raw_ack_exact [OF _ _ _ this AckPkt_inv [of 0 0 0], of "replicate ACK_PKT_SIZE 0" "sample_os (0, [])" 1 sample_tun]
  show ?thesis using d by (intro exI [of _ d]) (auto simp: v sample_os_sends sample_tun_def Tun_def)
qed

text \<open>
  C10: the exit is taken with option -A 2: after the good packet 500, a report and the good packet 1000,
  all in one burst loss, 998 numbers are pending, and the pass ends the process. The same for every
  count from 2 to 131.
\<close>

theorem raw_ack_full_exits:
  assumes "2 \<le> mx" "mx \<le> 131" "min_pkts \<le> 500" "ack_inv a"
    and "raw_pkt_buf r = hist_buf (raw_run mx [Push_Event 500 True, Pop_Event min_pkts, Push_Event 1000 True])"
  shows "length (nack_deq (raw_pkt_buf r)) = 998 \<and> RxCreateRawAck sys min_pkts mem r a t = abort Perror_Exit"
proof -
  let ?b0 = "hist_buf (raw_begin mx)"
  let ?b1 = "?b0\<lparr>nack_deq := map fresh_status (gap 0 500), pkt_cnt := 500, rb_end_seq := 500\<rparr>"
  let ?b2 = "?b1\<lparr>nack_deq := map count_send (map fresh_status (gap 0 500)), pkt_cnt := 0\<rparr>"
  let ?b3 = "?b2\<lparr>nack_deq := nack_deq ?b2 @ map fresh_status (gap 500 1000), pkt_cnt := 500, rb_end_seq := 1000\<rparr>"
  have b1: "PushPkts 500 True ?b0 = (True, ?b1)"
    using PushPkts_fits [of ?b0 500 True] by (simp add: raw_begin_fields kMaxBufSize_def)
  have "mx \<noteq> 1" using assms(1) by (auto simp: word_le_nat_alt)
  then have keep: "dropWhile (\<lambda>s. send_cnt s = mx) (map count_send (map fresh_status xs)) = map count_send (map fresh_status xs)" for xs
    by (cases xs) simp_all
  have b2: "PopPktStatus min_pkts ?b1 = Some ((gap 0 500, 500, 500), ?b2)"
    using assms(3) keep [of "gap 0 500"] by (simp add: PopPktStatus_def Let_def raw_begin_fields comp_def not_less [symmetric])
  have b3: "PushPkts 1000 True ?b2 = (True, ?b3)"
    using PushPkts_fits [of ?b2 1000 True] by (simp add: kMaxBufSize_def)
  have run: "raw_pkt_buf r = ?b3"
    unfolding assms(5) using b1 b2 b3 by (simp add: raw_run_def raw_step_def Let_def split: if_splits)
  have many: "length (nack_deq (raw_pkt_buf r)) = 998" unfolding run by (simp add: gap_def)
  have good: "raw_good (raw_pkt_buf r)" "raw_span (raw_pkt_buf r)" unfolding assms(5) by (rule conjunct1 [OF good_run_span] conjunct2 [OF good_run_span]; simp)+
  have mx: "max_reports (max_send_cnt (raw_pkt_buf r)) \<le> 131"
    unfolding assms(5) raw_run_max using assms(1,2) by (simp add: max_reports_def unat_sub word_le_nat_alt)
  have "min_pkts \<le> pkt_cnt (raw_pkt_buf r)" unfolding run using assms(3) by simp
  then show ?thesis using raw_ack_exits [OF good mx _ assms(4)] many by (simp add: ACK_WINDOW_def)
qed

theorem raw_ack_full_exits_witness:
  "\<exists>d. RadioContext zero_memory start_time 0 2 = ok (sample_radio d (BatchInfo start_time 0) RxRawBuf)
    \<and> RxCreateRawAck (sample_os (0, [])) 30 (replicate ACK_PKT_SIZE 0)
      (sample_radio d done_info (hist_buf (raw_run 2 [Push_Event 500 True, Pop_Event 30, Push_Event 1000 True]))) (AckPkt 0 0 0) sample_tun
    = abort Perror_Exit"
proof -
  obtain d where d: "RadioContext zero_memory start_time 0 2 = ok (sample_radio d (BatchInfo start_time 0) RxRawBuf)" by (rule sample_radio_made)
  have "ack_inv (AckPkt 0 0 0)" by (rule AckPkt_inv)
  then show ?thesis
    using raw_ack_full_exits [of 2 30 "AckPkt 0 0 0"
      "sample_radio d done_info (hist_buf (raw_run 2 [Push_Event 500 True, Pop_Event 30, Push_Event 1000 True]))"] d
    by auto
qed

section \<open>Writing to the tun device\<close>

text \<open>
  C8: the writing threads of all radios together. However they interleave between the test of the
  sequence number and the write, the tun device gets at most one packet for each original sequence
  number, and none above the highest number that passed.
\<close>

theorem tun_writes_once:
  assumes "tun_reachable my_client s"
  shows "distinct (map fst (tun_log s)) \<and> (\<forall>q\<in>set (map fst (tun_log s)). q \<le> max_seq (osc_ctx s))"
  using tun_reachable_inv [OF assms] by (simp add: tun_inv_def)

lemma tun_step_reach: "tun_reachable my_client s \<Longrightarrow> tun_step my_client s s' \<Longrightarrow> tun_reachable my_client s'"
  unfolding tun_reachable_def by (rule rtranclp.rtrancl_into_rtrancl)

text \<open>Two radios may write in the other order: thread 1 passes with 3, thread 2 with 5 and writes first.\<close>

theorem tun_writes_once_witness:
  "\<exists>s. tun_reachable 9 s \<and> map fst (tun_log s) = [5, 3] \<and> distinct (map fst (tun_log s)) \<and> max_seq (osc_ctx s) = 5"
proof -
  let ?pkt = "\<lambda>q. put_ctc_header \<lparr>ctc_type = CONTROLLER_TO_CLIENT, ctc_client_id = 9, o_seq = q\<rparr> (replicate 20 0)"
  have dec: "\<exists>buf n. write_decision 9 (?pkt q) 20 \<lparr>max_seq = m\<rparr> = (Some (q, buf, n), \<lparr>max_seq = q\<rparr>)" if "m < q" for q m
  proof -
    let ?h = "\<lparr>ctc_type = CONTROLLER_TO_CLIENT, ctc_client_id = 9, o_seq = q\<rparr>"
    have "ctc_header_at (?pkt q @ replicate (TUN_PKT_SIZE - length (?pkt q)) 0) = ?h"
      using ctc_header_at_put [of "replicate 20 0" ?h] by (simp add: ctc_header_at_def load_u32_def load_def nth_append)
    moreover have "(?pkt q @ replicate (TUN_PKT_SIZE - length (?pkt q)) 0) ! 0 = ctc_type (ctc_header_at (?pkt q))"
      by (simp add: ctc_header_at_def nth_append)
    ultimately show ?thesis
      using that ctc_header_at_put [of "replicate 20 0" ?h] by (simp add: write_decision_def need_update_def Let_def)
  qed
  obtain buf n where d3: "write_decision 9 (?pkt 3) 20 \<lparr>max_seq = 0\<rparr> = (Some (3, buf, n), \<lparr>max_seq = 3\<rparr>)"
    using dec [of 0 3] by auto
  obtain buf' n' where d5: "write_decision 9 (?pkt 5) 20 \<lparr>max_seq = 3\<rparr> = (Some (5, buf', n'), \<lparr>max_seq = 5\<rparr>)"
    using dec [of 3 5] by auto
  let ?w1 = "(\<lambda>_. Between)(1 := Writing 3 (take (unat n) buf))"
  let ?w2 = "?w1(2 := Writing 5 (take (unat n') buf'))"
  let ?s1 = "tun_init\<lparr>osc_ctx := \<lparr>max_seq = 3\<rparr>, writers := ?w1\<rparr>"
  let ?s2 = "?s1\<lparr>osc_ctx := \<lparr>max_seq = 5\<rparr>, writers := ?w2\<rparr>"
  let ?s3 = "?s2\<lparr>writers := ?w2(2 := Between), tun_log := [(5, take (unat n') buf')]\<rparr>"
  let ?s4 = "?s3\<lparr>writers := ?w2(2 := Between, 1 := Between), tun_log := [(5, take (unat n') buf'), (3, take (unat n) buf)]\<rparr>"
  have r0: "tun_reachable 9 tun_init" by (simp add: tun_reachable_def)
  have r1: "tun_reachable 9 ?s1"
    by (rule tun_step_reach [OF r0]) (use tun_step.pass_step [of tun_init 1 9 _ _ 3 buf n] d3 in \<open>simp add: tun_init_def OriginalSeqContext_def\<close>)
  have r2: "tun_reachable 9 ?s2"
    by (rule tun_step_reach [OF r1]) (use tun_step.pass_step [of ?s1 2 9 _ _ 5 buf' n'] d5 in simp)
  have r3: "tun_reachable 9 ?s3"
    by (rule tun_step_reach [OF r2]) (use tun_step.write_step [of ?s2 2 5 _ 9] in \<open>simp add: tun_init_def\<close>)
  have r4: "tun_reachable 9 ?s4"
    by (rule tun_step_reach [OF r3]) (use tun_step.write_step [of ?s3 1 3 _ 9] in simp)
  show ?thesis using tun_writes_once [OF r4] r4 by (intro exI [of _ ?s4]) simp
qed

section \<open>The uplink\<close>

text \<open>
  C34: what the tun device delivers goes to the controller unaltered, behind the type byte of
  cellular data: nothing of an earlier packet, and no byte lost.
\<close>

theorem uplink_forwards:
  assumes "recv_result sys (tun_fd t) 1999 = (int (length data), data)" "0 < length data" "length data \<le> 1999" "send_sane sys"
  shows "\<exists>pkt'. RxSendCell sys pkt t = ok (pkt', t\<lparr>outbox := outbox t @ [(kController, CELL_DATA # data)]\<rparr>)"
proof -
  let ?n = "word_of_nat (length data) :: u16"
  have n: "unat ?n = length data" using assms(3) by (simp add: unat_of_nat)
  have n1: "unat (?n + 1) = length data + 1" using n assms(3) unat_add_lem [of ?n 1] by simp
  have nz: "?n \<noteq> 0" using n assms(2) by force
  have read: "Tun_Read sys kTun (word_of_nat (TUN_PKT_SIZE - CELL_DATA_HEADER_SIZE)) 0 t = ok ((?n, data), t)"
    using assms(1) nz by (simp add: Tun_Read_def TUN_PKT_SIZE_def CELL_DATA_HEADER_SIZE_def word_gt_0)
  let ?pkt = "[CELL_DATA] @ data @ drop (1 + length data) pkt"
  have "?n + 1 > 0" using n1 by (simp add: word_less_nat_alt)
  then have "Tun_Write sys kController ?pkt (?n + 1) 0 t
      = ok (?n + 1, t\<lparr>outbox := outbox t @ [(kController, take (unat (?n + 1)) ?pkt)]\<rparr>)"
    by (intro Tun_Write_sent [OF assms(4)]) (simp_all add: n1)
  then show ?thesis using read n1 by (simp add: RxSendCell_def Let_def)
qed

theorem uplink_forwards_witness:
  "\<exists>pkt'. RxSendCell (sample_os (3, [10, 20, 30])) [] sample_tun
    = ok (pkt', sample_tun\<lparr>outbox := [(kController, [CELL_DATA, 10, 20, 30])]\<rparr>)"
  using uplink_forwards [of "sample_os (3, [10, 20, 30])" sample_tun "[10, 20, 30]" "[]"] sample_os_sends
  by (simp add: sample_os_def sample_tun_def Tun_def)

text \<open>
  C35: the length of a read is kept in 16 unsigned bits, so the check for an error never sees one: a
  failed read of the tun device counts as 65535 bytes, and the length RxSendCell then sends wraps
  to zero, which ends the process.
\<close>

theorem read_error_unnoticed:
  assumes "recv_result sys (tun_fd t) 1999 = (- 1, [])"
  shows "Tun_Read sys kTun 1999 0 t = ok ((65535, []), t) \<and> RxSendCell sys pkt t = abort Assert_Failed"
proof -
  have read: "Tun_Read sys kTun 1999 0 t = ok ((65535, []), t)"
    using assms by (simp add: Tun_Read_def Let_def word_gt_0)
  have "(word_of_nat (TUN_PKT_SIZE - CELL_DATA_HEADER_SIZE) :: u16) = 1999"
    by (simp add: TUN_PKT_SIZE_def CELL_DATA_HEADER_SIZE_def)
  then show ?thesis using read by (simp add: RxSendCell_def Let_def Tun_Write_def)
qed

theorem read_error_unnoticed_witness:
  "Tun_Read (sample_os (- 1, [])) kTun 1999 0 sample_tun = ok ((65535, []), sample_tun)
    \<and> RxSendCell (sample_os (- 1, [])) [] sample_tun = abort Assert_Failed"
  by (rule read_error_unnoticed) (simp add: sample_os_def)

text \<open>
  C36: on the socket of a radio a failed read is not noticed either: RxRcvAth handles what the packet
  buffer still holds once more. The last datagram of an unfinished batch is then taken for one of
  65535 bytes; nothing is enqueued, but the deadline of the batch is set for packets of that length.
\<close>

theorem failed_read_stretches_deadline:
  assumes "recv_result sys (uint sock) 2000 = (- 1, [])" "sock_fd_ath_tbl t (p_bs_id p) = Some sock"
    and "is_good (code_header_at (pkt_mem s))" "ParseHeader (code_header_at (pkt_mem s)) = ok p"
    and "GetRate (code_header_at (pkt_mem s)) = ok rate"
    and "batch_id s = p_batch_id p" "\<not> batch_done s" "IsIndExist (ci_inds (decoder s)) (cur_ind (decoder s)) (p_ind p)"
  shows "\<exists>s'. RxRcvAth_pass sys (p_client_id p) (p_bs_id p) now s bs t = ok ([], s', set_bs_id (p_bs_id p) bs, t)
    \<and> decoder s' = decoder s
    \<and> the_batch_info s' = (the_batch_info s)\<lparr>cur_recv_time := now,
         time_left := per_pkt_duration 65535 rate * word_of_int (int (p_n p) - int (p_ind p) - 1)\<rparr>"
proof -
  have read: "RcvDownlinkPkt sys (p_bs_id p) t = ok ((65535, []), t)"
    using assms(1,2) by (simp add: RcvDownlinkPkt_def Tun_Read_def TUN_PKT_SIZE_def word_gt_0)
  have "p_ind p < p_n p" using assms(4) by (auto simp: ParseHeader_def word_less_nat_alt split: if_splits)
  then show ?thesis
    using assms(3-8) read
    by (simp add: RxRcvAth_pass_def RxRcvAth_def decode_pkt_def join_batch_def current_batch_def UpdateTimeLeft_def Let_def)
qed

definition held_datagram :: "u8 list" where
  "held_datagram = [2,0,0,0, 5,0,0,0, 0x0B,0,0,0, 2,0,0,0, 9,0,0,0, 1,0,0,0, 1,0,0,0, 1,0,0,0, 0,2,4,0]"

lemma held_header: "code_header_at held_datagram = \<lparr>ah_type = 2, raw_seq = 5, ah_rate = 0x0B, ah_bs_id = 2, ah_client_id = 9,
    is_good = True, ch_batch_id = 1, ch_start_seq = 1, ch_ind = 0, ch_k = 2, ch_n = 4\<rparr>"
  by (simp add: code_header_at_def held_datagram_def load_u32_def load_u16_def load_def)

theorem failed_read_stretches_deadline_witness:
  "\<forall>d. \<exists>s'. RxRcvAth_pass (sample_os (- 1, [])) 9 2 start_time
      ((fresh_rcv d)\<lparr>pkt_mem := held_datagram, batch_id := 1, decoder := d\<lparr>ci_inds := [0], cur_ind := 1\<rparr>\<rparr>)
      BaseStationContext (sample_tun\<lparr>sock_fd_ath_tbl := [2 \<mapsto> 4]\<rparr>)
    = ok ([], s', set_bs_id 2 BaseStationContext, sample_tun\<lparr>sock_fd_ath_tbl := [2 \<mapsto> 4]\<rparr>)
    \<and> time_left (the_batch_info s') = 262359"
proof
  fix d
  let ?s = "(fresh_rcv d)\<lparr>pkt_mem := held_datagram, batch_id := 1, decoder := d\<lparr>ci_inds := [0], cur_ind := 1\<rparr>\<rparr>"
  let ?p = "\<lparr>p_batch_id = 1, p_start_seq = 1, p_ind = 0, p_k = 2, p_n = 4, p_bs_id = 2, p_client_id = 9\<rparr>"
  have parse: "ParseHeader (code_header_at (pkt_mem ?s)) = ok ?p" "GetRate (code_header_at (pkt_mem ?s)) = ok 60"
    by (simp_all add: held_header ParseHeader_def GetRate_def ATH_CODE_def MAX_BATCH_SIZE_def)
  have "\<exists>s'. RxRcvAth_pass (sample_os (- 1, [])) 9 2 start_time ?s BaseStationContext (sample_tun\<lparr>sock_fd_ath_tbl := [2 \<mapsto> 4]\<rparr>)
      = ok ([], s', set_bs_id 2 BaseStationContext, sample_tun\<lparr>sock_fd_ath_tbl := [2 \<mapsto> 4]\<rparr>)
    \<and> decoder s' = decoder ?s \<and> the_batch_info s' = (the_batch_info ?s)\<lparr>cur_recv_time := start_time,
         time_left := per_pkt_duration 65535 60 * word_of_int (int (p_n ?p) - int (p_ind ?p) - 1)\<rparr>"
    using failed_read_stretches_deadline [OF _ _ _ parse, of "sample_os (- 1, [])" 4 "sample_tun\<lparr>sock_fd_ath_tbl := [2 \<mapsto> 4]\<rparr>"
        start_time BaseStationContext]
    by (simp add: held_header sample_os_def fresh_rcv_def rcv_ath_start_def radio_context.defs IsIndExist_def)
  then show "\<exists>s'. RxRcvAth_pass (sample_os (- 1, [])) 9 2 start_time ?s BaseStationContext (sample_tun\<lparr>sock_fd_ath_tbl := [2 \<mapsto> 4]\<rparr>)
      = ok ([], s', set_bs_id 2 BaseStationContext, sample_tun\<lparr>sock_fd_ath_tbl := [2 \<mapsto> 4]\<rparr>)
    \<and> time_left (the_batch_info s') = 262359"
    by (auto simp: per_pkt_duration_def)
qed

text \<open>
  A stray datagram can end the process: whatever arrives at the port of a radio with the byte
  of the good flag set and another type than a coded packet fails the assertion of ParseHeader.
\<close>

theorem stray_datagram_aborts:
  assumes "36 \<le> length data" "data ! 20 \<noteq> 0" "data ! 0 \<noteq> ATH_CODE"
  shows "RxRcvAth my_client my_radio now data nread s bs = abort Assert_Failed"
proof -
  let ?pkt = "data @ drop (length data) (pkt_mem s)"
  have "code_header_at ?pkt = code_header_at data" by (rule code_header_at_append [OF assms(1)])
  then have "is_good (code_header_at ?pkt)" "ah_type (code_header_at ?pkt) \<noteq> ATH_CODE"
    using assms(2,3) by (simp_all add: code_header_at_def)
  then show ?thesis by (simp add: RxRcvAth_def ParseHeader_def Let_def)
qed

theorem stray_datagram_aborts_witness:
  "\<forall>d. RxRcvAth 9 2 start_time (replicate 40 1) 40 (fresh_rcv d) BaseStationContext = abort Assert_Failed"
  by (intro allI, rule stray_datagram_aborts) (simp_all add: ATH_CODE_def)

section \<open>GPS\<close>

text \<open>
  C37: SplitLine computes the fields of a line, as a single left-to-right pass defines them, except
  that it returns nothing when the line begins with a separator.
\<close>

theorem split_line_fields:
  "phrases (SplitLine line seps p) = (if line \<noteq> [] \<and> hd line \<in> set seps then [] else split_fields seps line)"
proof (cases line)
  case (Cons c cs)
  then show ?thesis
    using split_leading_separator [of c seps cs] split_from_fields [of 0 line seps] by (simp add: SplitLine_def)
qed (use split_from_fields [of 0 line seps] in \<open>simp add: SplitLine_def\<close>)

text \<open>
  ParseLine accepts a line exactly when its first field names the report class and each of the
  four keys has a value in some field, and then stores for each key the value of the first field
  that has one; otherwise the old readings stay.
\<close>

theorem parse_line_values:
  "ParseLine atof line p =
     (let p' = SplitLine line '','' p; ps = phrases p' in
      case (if IsValidLine p' then first_value atof ''time'' ps else None,
            first_value atof ''lat'' ps, first_value atof ''lon'' ps, first_value atof ''speed'' ps) of
        (Some t, Some a, Some l, Some v) \<Rightarrow> (True, p'\<lparr>gps_time := t, latitude := a, longitude := l, gps_speed := v\<rparr>)
      | _ \<Rightarrow> (False, p'))"
  by (simp add: ParseLine_def Let_def scan_phrases or_else_def split: option.split)

section \<open>Configuration\<close>

text \<open>
  C30: when the constructor accepts the options, whatever they are, there are one to three radios,
  every radio is a base station with a context of its own, every address belongs to a base station,
  and at least one base station has an address.
\<close>

theorem client_tables:
  assumes "WspaceClient sys popen_ok new_radio opts (client_start i j n (Tun fd sock a1 a2)) = ok c"
  shows "1 \<le> length (radio_ids (the_tun c)) \<and> length (radio_ids (the_tun c)) \<le> MAX_RADIO
    \<and> radio_ids (the_tun c) = bs_ids c \<and> dom (radio_context_tbl c) = set (bs_ids c)
    \<and> dom (bs_ip_tbl (the_tun c)) \<subseteq> set (bs_ids c) \<and> dom (bs_addr_tbl (the_tun c)) = dom (bs_ip_tbl (the_tun c))
    \<and> dom (bs_ip_tbl (the_tun c)) \<noteq> {} \<and> tun_client_id (the_tun c) \<noteq> 0"
proof -
  have opts: "apply_options sys popen_ok new_radio opts (client_start i j n (Tun fd sock a1 a2)) = ok c" and check: "check_conf c = ok c"
    using assms by (auto simp: WspaceClient_def and_then_eq_ok check_conf_def Let_def split: if_splits)
  have "conf_inv c" by (rule apply_options_inv [OF client_start_inv opts])
  moreover have "radio_ids (the_tun c) \<noteq> []" "length (radio_ids (the_tun c)) \<le> MAX_RADIO"
    "dom (bs_ip_tbl (the_tun c)) \<noteq> {}" "tun_client_id (the_tun c) \<noteq> 0"
    using check by (auto simp: check_conf_def Let_def split: if_splits)
  ultimately show ?thesis by (simp add: conf_inv_def Suc_le_eq)
qed

text \<open>\<open>-i tun0 -I 9 -C 10.0.0.1 -s 2,3 -S 10.0.0.2,10.0.0.3\<close>\<close>

theorem client_tables_witness:
  "\<exists>d c. WspaceClient (sample_os (0, [])) True (RadioContext zero_memory start_time 0)
      [(CHR ''i'', ''tun0''), (CHR ''I'', ''9''), (CHR ''C'', ''10.0.0.1''), (CHR ''s'', ''2,3''), (CHR ''S'', ''10.0.0.2,10.0.0.3'')]
      (client_start 0 0 0 sample_tun) = ok c
    \<and> CodeInfo zero_memory kDecoder MAX_BATCH_SIZE TUN_PKT_SIZE = ok d \<and> bs_ids c = [2, 3] \<and> dom (radio_context_tbl c) = {2, 3}"
proof -
  obtain d where d: "CodeInfo zero_memory kDecoder MAX_BATCH_SIZE TUN_PKT_SIZE = ok d" by (rule fresh_receiver)
  let ?r = "\<lambda>i. \<lparr>raw_pkt_buf = RxRawBuf, decoder = d, the_batch_info = BatchInfo start_time 0, ctx_bs_id = i\<rparr>"
  have r: "RadioContext zero_memory start_time 0 = (\<lambda>i. ok (?r i))" using d by (auto simp: RadioContext_def)
  have fields: "getline_fields ''2,3'' = [''2'', ''3'']"
    "getline_fields ''10.0.0.2,10.0.0.3'' = [''10.0.0.2'', ''10.0.0.3'']"
    by (simp_all add: getline_fields_def)
  have nums: "atoi ''2'' = 2" "atoi ''3'' = 3" "atoi ''9'' = 9"
    by (simp_all add: atoi_def is_digit_def digit_value_def)
  obtain c where c: "WspaceClient (sample_os (0, [])) True (\<lambda>i. ok (?r i))
      [(CHR ''i'', ''tun0''), (CHR ''I'', ''9''), (CHR ''C'', ''10.0.0.1''), (CHR ''s'', ''2,3''), (CHR ''S'', ''10.0.0.2,10.0.0.3'')]
      (client_start 0 0 0 sample_tun) = ok c" "bs_ids c = [2, 3]"
    by (simp add: WspaceClient_def apply_option_def Let_def fields nums ParseIP_def check_conf_def client_start_def sample_tun_def
      Tun_def MAX_RADIO_def)
  show ?thesis
    using client_tables [OF c(1) [unfolded sample_tun_def]] c d unfolding r by auto
qed

text \<open>
  Init gives the i-th radio, counted from 0, the port 55555 + i, and the socket that was opened
  for it, bound to that port.
\<close>

theorem radio_ports:
  assumes "distinct (radio_ids (the_tun c))" "\<forall>j\<le>length (radio_ids (the_tun c)). 0 \<le> socket_fd sys j"
  shows "\<exists>c'. client_Init sys c = ok c' \<and> (\<forall>j<length (radio_ids (the_tun c)).
      port_ath_tbl (the_tun c') (radio_ids (the_tun c) ! j) = Some (55555 + int j)
    \<and> sock_fd_ath_tbl (the_tun c') (radio_ids (the_tun c) ! j) = Some (word_of_int (socket_fd sys (j + 1)))
    \<and> client_addr_ath_tbl (the_tun c') (radio_ids (the_tun c) ! j) = Some (CreateAddr_any (55555 + int j)))"
proof -
  obtain fd name where alloc: "AllocTun sys (if_name (the_tun c)) = (fd, name)" by fastforce
  let ?sock = "word_of_int (socket_fd sys 0) :: u16" and ?addr = "CreateAddr_any (port_eth (the_tun c))"
  let ?t = "BindSocket (uint ?sock) ?addr ((the_tun c)\<lparr>tun_fd := fd, if_name := name, sock_fd_eth := ?sock, client_addr_eth := ?addr\<rparr>)"
  have ids: "radio_ids ?t = radio_ids (the_tun c)" by (simp add: BindSocket_def)
  have "\<forall>j<length (radio_ids (the_tun c)). 0 \<le> socket_fd sys (0 + 1 + j)" using assms(2) by simp
  from init_radios_tables [OF assms(1) this, of ?t]
  obtain t' where t': "init_radios sys 0 (radio_ids (the_tun c)) ?t = ok t'" "\<forall>j<length (radio_ids (the_tun c)).
      port_ath_tbl t' (radio_ids (the_tun c) ! j) = Some (PORT_ATH + int (0 + j))
    \<and> sock_fd_ath_tbl t' (radio_ids (the_tun c) ! j) = Some (word_of_int (socket_fd sys (0 + 1 + j)))
    \<and> client_addr_ath_tbl t' (radio_ids (the_tun c) ! j) = Some (CreateAddr_any (PORT_ATH + int (0 + j)))" by blast
  have "0 \<le> socket_fd sys 0" using assms(2) by simp
  then have "client_Init sys c = ok (c\<lparr>the_tun := t'\<lparr>controller_addr_eth := CreateAddr_ip (os_inet_addr sys) (controller_ip_eth t') (port_eth t')\<rparr>\<rparr>)"
    using alloc t'(1) ids by (simp add: client_Init_def InitSock_def CreateSock_def Let_def BindSocket_def)
  then show ?thesis using t'(2) by (simp add: PORT_ATH_def)
qed

theorem radio_ports_witness:
  "\<exists>c'. client_Init (sample_os (0, [])) (client_start 0 0 0 (sample_tun\<lparr>radio_ids := [2, 3]\<rparr>)) = ok c'
    \<and> port_ath_tbl (the_tun c') 3 = Some 55556 \<and> sock_fd_ath_tbl (the_tun c') 3 = Some 6"
  using radio_ports [of "client_start 0 0 0 (sample_tun\<lparr>radio_ids := [2, 3]\<rparr>)" "sample_os (0, [])"]
  by (force simp: client_start_def sample_os_def)

section \<open>The threads of the client\<close>

text \<open>
  C31: when \<open>main\<close> starts the threads and no radio was named twice, every thread is started once: three
  for the client, and for every radio one receiving, one writing and two acknowledging threads, on a
  context of its own. In general a radio has as many writing threads as the options name it.
\<close>

theorem main_starts_threads:
  assumes "main sys popen_ok new_radio opts (client_start i j n (Tun fd sock a1 a2)) = ok (c, ts)"
  shows "(distinct (radio_ids (the_tun c)) \<longrightarrow> distinct ts)
    \<and> set ts = {LaunchRxSendCell, LaunchRxRcvCell, LaunchRxParseGPS}
        \<union> (\<Union>r\<in>dom (radio_context_tbl c). {LaunchRxRcvAth r, LaunchRxWriteTun r, LaunchRxCreateRawAck r, LaunchRxCreateDataAck r})
    \<and> count_list ts (LaunchRxWriteTun r) = count_list (radio_ids (the_tun c)) r"
proof -
  note m = main_threads [OF assms]
  have "distinct (concat (map radio_threads rs))" if "distinct rs" for rs
    using that by (induction rs) (auto simp: radio_threads_def)
  then have "distinct (radio_ids (the_tun c)) \<longrightarrow> distinct ts" using m(1) by (auto simp: radio_threads_def)
  moreover have "set ts = {LaunchRxSendCell, LaunchRxRcvCell, LaunchRxParseGPS}
        \<union> (\<Union>r\<in>dom (radio_context_tbl c). {LaunchRxRcvAth r, LaunchRxWriteTun r, LaunchRxCreateRawAck r, LaunchRxCreateDataAck r})"
    using m by (auto simp: radio_threads_def)
  ultimately show ?thesis using main_writers [OF assms] by blast
qed

text \<open>Radio 2 is named twice: \<open>-i tun0 -I 9 -C 10.0.0.1 -s 2,2 -S 10.0.0.2\<close>. It gets two writing threads.\<close>

theorem main_starts_threads_witness:
  "\<exists>c ts. main (sample_os (0, [])) True (RadioContext zero_memory start_time 0)
      [(CHR ''i'', ''tun0''), (CHR ''I'', ''9''), (CHR ''C'', ''10.0.0.1''), (CHR ''s'', ''2,2''), (CHR ''S'', ''10.0.0.2'')]
      (client_start 0 0 0 sample_tun) = ok (c, ts) \<and> count_list ts (LaunchRxWriteTun 2) = 2"
proof -
  obtain d where d: "CodeInfo zero_memory kDecoder MAX_BATCH_SIZE TUN_PKT_SIZE = ok d" by (rule fresh_receiver)
  let ?r = "\<lambda>i. \<lparr>raw_pkt_buf = RxRawBuf, decoder = d, the_batch_info = BatchInfo start_time 0, ctx_bs_id = i\<rparr>"
  have r: "RadioContext zero_memory start_time 0 = (\<lambda>i. ok (?r i))" using d by (auto simp: RadioContext_def)
  have fields: "getline_fields ''2,2'' = [''2'', ''2'']" "getline_fields ''10.0.0.2'' = [''10.0.0.2'']"
    by (simp_all add: getline_fields_def)
  have nums: "atoi ''2'' = 2" "atoi ''9'' = 9"
    by (simp_all add: atoi_def is_digit_def digit_value_def)
  obtain c1 where c1: "WspaceClient (sample_os (0, [])) True (\<lambda>i. ok (?r i))
      [(CHR ''i'', ''tun0''), (CHR ''I'', ''9''), (CHR ''C'', ''10.0.0.1''), (CHR ''s'', ''2,2''), (CHR ''S'', ''10.0.0.2'')]
      (client_start 0 0 0 sample_tun) = ok c1" "radio_ids (the_tun c1) = [2, 2]" "radio_context_tbl c1 2 = Some (?r 2)"
    by (simp add: WspaceClient_def apply_option_def Let_def fields nums ParseIP_def check_conf_def client_start_def sample_tun_def
      Tun_def MAX_RADIO_def)
  obtain c2 where c2: "client_Init (sample_os (0, [])) c1 = ok c2"
    using c1(2) by (simp add: client_Init_def InitSock_def CreateSock_def BindSocket_def sample_os_def Let_def AllocTun_def)
  note i = client_Init_ids [OF c2]
  obtain ts where ts: "main (sample_os (0, [])) True (\<lambda>i. ok (?r i))
      [(CHR ''i'', ''tun0''), (CHR ''I'', ''9''), (CHR ''C'', ''10.0.0.1''), (CHR ''s'', ''2,2''), (CHR ''S'', ''10.0.0.2'')]
      (client_start 0 0 0 (Tun 3 0 no_addr no_addr)) = ok (c2, ts)"
    using c1 c2 i by (simp add: main_def sample_tun_def)
  have "count_list ts (LaunchRxWriteTun 2) = 2" using main_starts_threads [OF ts, of 2] i c1(2) by simp
  then show ?thesis using ts unfolding r sample_tun_def by blast
qed

end
