(* ===== verification/Udp_Socket.thy ===== *)
theory Udp_Socket
  imports Tun
begin

text \<open>
  Class \<open>UdpSocket\<close> of \<open>src/udp_socket.h\<close> and \<open>src/udp_socket.cc\<close>, a datagram socket with one
  address. The system calls are those of \<open>os\<close> in \<open>Tun\<close>; errors of \<open>bind\<close> and \<open>setsockopt\<close> are
  printed only, so that the calls are recorded, not their results.
\<close>

datatype socket_call = Bind int sockaddr_in | Reuse_Addr int | Close int

record udp_socket =
  sid :: int
  udp_addr :: sockaddr_in
  udp_calls :: "socket_call list"

definition UdpSocket :: "os \<Rightarrow> sockaddr_in \<Rightarrow> udp_socket outcome" where
  "UdpSocket sys junk_addr =
     (if \<not> socket_fd sys 0 \<noteq> - 1 then abort Assert_Failed
      else ok \<lparr>sid = socket_fd sys 0, udp_addr = junk_addr, udp_calls = []\<rparr>)"

definition SocketSetUp :: "os \<Rightarrow> string \<Rightarrow> int \<Rightarrow> bool \<Rightarrow> udp_socket \<Rightarrow> udp_socket" where
  "SocketSetUp sys ip port is_recv u =
     (let addr = (udp_addr u)\<lparr>sin_family := 2, sin_port := htons (word_of_int port)\<rparr> in
      if \<not> is_recv then u\<lparr>udp_addr := addr\<lparr>sin_addr := os_inet_addr sys ip\<rparr>\<rparr>
      else let addr = addr\<lparr>sin_addr := 0\<rparr>
           in u\<lparr>udp_addr := addr, udp_calls := udp_calls u @ [Bind (sid u) addr, Reuse_Addr (sid u)]\<rparr>)"

definition SendTo :: "os \<Rightarrow> u8 list \<Rightarrow> nat \<Rightarrow> udp_socket \<Rightarrow> int outcome" where
  "SendTo sys send_data send_len u =
     (if send_len > length send_data then abort Out_Of_Bounds
      else ok (send_result sys (sid u) (Some (udp_addr u)) (take send_len send_data)))"

definition RecvFrom :: "os \<Rightarrow> nat \<Rightarrow> udp_socket \<Rightarrow> int \<times> u8 list" where
  "RecvFrom sys recv_len u = recv_result sys (sid u) recv_len"

definition Udp_close :: "udp_socket \<Rightarrow> udp_socket" where
  "Udp_close u = u\<lparr>udp_calls := udp_calls u @ [Close (sid u)]\<rparr>"

text \<open>The addresses are those that \<open>CreateAddr\<close> makes for \<open>Tun\<close>, whatever the member held.\<close>

lemma SocketSetUp_addr:
  "udp_addr (SocketSetUp sys ip port is_recv u)
    = (if is_recv then CreateAddr_any port else CreateAddr_ip (os_inet_addr sys) ip port)"
  by (simp add: SocketSetUp_def Let_def CreateAddr_any_def CreateAddr_ip_def)

text \<open>Only a receiving socket is bound, and before the option that would let it share the port.\<close>

lemma SocketSetUp_calls:
  "udp_calls (SocketSetUp sys ip port is_recv u) = udp_calls u @
    (if is_recv then [Bind (sid u) (CreateAddr_any port), Reuse_Addr (sid u)] else [])"
  by (simp add: SocketSetUp_def Let_def CreateAddr_any_def)

text \<open>What one socket sends reaches the address that the other one bound, if the system accepts it.\<close>

lemma SendTo_sane: "send_sane sys \<Longrightarrow> n \<le> length buf \<Longrightarrow> SendTo sys buf n u = ok (int n)"
  by (simp add: SendTo_def send_sane_def)

end
