(* ===== verification/Time_Util.thy ===== *)
theory Time_Util
  imports Batch_Info
begin

text \<open>
  The rest of class \<open>TIME\<close> of \<open>src/time_util.h\<close> and \<open>src/time_util.cc\<close>: its constructors, the clock
  and the readable form. \<open>localtime\<close> with \<open>strftime\<close> is the parameter \<open>calendar\<close>, the text of the
  seconds.
\<close>

definition TIME_MAXSIZE :: nat where "TIME_MAXSIZE = 100"

definition TIME :: "int \<Rightarrow> int \<Rightarrow> time" where
  "TIME sec usec = \<lparr>tv_sec = sec, tv_usec = usec\<rparr>"

definition GetCurrTime :: "time \<Rightarrow> time \<Rightarrow> time" where
  "GetCurrTime now t = t\<lparr>tv_sec := tv_sec now, tv_usec := tv_usec now\<rparr>"

text \<open>\<open>%06ld\<close> of a number that is not negative.\<close>

definition digit :: "nat \<Rightarrow> char" where
  "digit d = char_of (48 + d)"

fun decimal :: "nat \<Rightarrow> string" where
  "decimal n = (if n < 10 then [digit n] else decimal (n div 10) @ [digit (n mod 10)])"

declare decimal.simps [simp del]

definition six_digits :: "nat \<Rightarrow> string" where
  "six_digits n = replicate (6 - length (decimal n)) (CHR ''0'') @ decimal n"

text \<open>\<open>snprintf\<close> keeps one byte for the end of the string.\<close>

definition CvtCurrTime :: "(int \<Rightarrow> string) \<Rightarrow> time \<Rightarrow> string" where
  "CvtCurrTime calendar t =
     take (TIME_MAXSIZE - 1) (calendar (tv_sec t) @ ''.'' @ six_digits (nat (tv_usec t)))"

section \<open>Reading the digits back\<close>

definition digit_value :: "char \<Rightarrow> nat" where
  "digit_value c = of_char c - 48"

definition digits_value :: "string \<Rightarrow> nat" where
  "digits_value s = foldl (\<lambda>n c. 10 * n + digit_value c) 0 s"

lemma digit_value_digit: "d < 10 \<Longrightarrow> digit_value (digit d) = d"
  by (simp add: digit_value_def digit_def)

lemma digits_value_decimal: "digits_value (decimal n) = n"
proof (induction n rule: decimal.induct)
  case (1 n)
  then show ?case
    by (cases "n < 10") (simp_all add: decimal.simps [of n] digits_value_def digit_value_digit)
qed

lemma length_decimal: "n < 10 ^ Suc k \<Longrightarrow> length (decimal n) \<le> Suc k"
proof (induction k arbitrary: n)
  case (Suc k)
  then have "n div 10 < 10 ^ Suc k" by (simp add: less_mult_imp_div_less)
  then show ?case using Suc.IH by (simp add: decimal.simps [of n])
qed (simp add: decimal.simps)

lemma six_digits_read:
  assumes "n < 1000000" shows "length (six_digits n) = 6 \<and> digits_value (six_digits n) = n"
proof -
  have "length (decimal n) \<le> 6" using length_decimal [of n 5] assms by simp
  moreover have "foldl (\<lambda>n c. 10 * n + digit_value c) 0 (replicate k (CHR ''0'')) = 0" for k
    by (induction k) (simp_all add: digit_value_def)
  ultimately show ?thesis
    using digits_value_decimal [of n] by (simp add: six_digits_def digits_value_def)
qed

text \<open>The text ends in the microseconds, with all their leading zeros, and nothing is cut off.\<close>

lemma CvtCurrTime_read:
  assumes "length (calendar (tv_sec t)) \<le> 92" "0 \<le> tv_usec t" "tv_usec t < 1000000"
  shows "\<exists>ds. CvtCurrTime calendar t = calendar (tv_sec t) @ ''.'' @ ds \<and> length ds = 6 \<and> int (digits_value ds) = tv_usec t"
  using six_digits_read [of "nat (tv_usec t)"] assms by (simp add: CvtCurrTime_def TIME_MAXSIZE_def)

lemma TIME_minus: "time_minus (TIME s1 u1) (TIME s0 u0) = (s1 - s0) * 1000000 + (u1 - u0)"
  by (simp add: time_minus_def TIME_def)

end
