(* ===== verification/Spec2Isabelle.thy ===== *)
theory Spec2Isabelle
  imports Fec_Properties Fec_Checks Rx_Properties Lock_Properties Monitor_Properties Client_Properties Udp_Socket Time_Util
begin

text \<open>
  Verification of the WhiteSpace client (\<open>src/wspace_client_scout.cc\<close> and the sources it uses).

  \<^bold>\<open>The program.\<close> The client receives packets from base stations over several radios. A base
  station cuts its stream in batches of \<open>k \<le> 10\<close> packets and sends \<open>n\<close> coded packets for each, any
  \<open>k\<close> of which restore the batch. For every radio four threads run: \<open>RxRcvAth\<close> receives the coded
  packets, decodes and puts the packets in the radio's receive buffer; \<open>RxWriteTun\<close> takes them out in
  order and writes them to the tun device; \<open>RxCreateDataAck\<close> reports the holes of the receive buffer
  and \<open>RxCreateRawAck\<close> the holes among the raw packets, both to the controller. Three more threads
  serve the cellular link (\<open>RxRcvCell\<close>, \<open>RxSendCell\<close>) and the GPS device (\<open>RxParseGPS\<close>).

  \<^bold>\<open>Theories and sources.\<close>
  \<^item> \<open>Prelude\<close>: machine integers, outcomes (\<open>ok\<close>, or \<open>abort\<close> for assertions, \<open>Perror\<close> and accesses
    out of bounds), counted loops. \<open>Byte_Layout\<close>: integers in packets, little-endian.
  \<^item> \<open>GF256\<close>, \<open>Gf_Linear\<close>, \<open>Fec_Matrix\<close>, \<open>Gauss_Jordan\<close>, \<open>Vandermonde\<close>, \<open>Fec_Code\<close>, \<open>Fec_Contract\<close>,
    \<open>Code_Info\<close> (\<open>src/fec.cc\<close>, \<open>src/fec.h\<close>): the field tables, \<open>addmul1\<close>, \<open>matmul\<close>, \<open>invert_mat\<close>,
    \<open>invert_vdm\<close>, \<open>fec_new\<close>, \<open>fec_encode\<close>, \<open>fec_decode\<close>, and class \<open>CodeInfo\<close>. The properties are in
    \<open>Fec_Properties\<close> and at the end of \<open>Code_Info\<close>. \<open>Fec_Checks\<close>: the magic number of \<open>fec_free\<close>,
    the multiplication over logarithms, and the self-tests.
  \<^item> \<open>Headers\<close>, \<open>Ack_Packet\<close>, \<open>Raw_Buf\<close>, \<open>Batch_Info\<close>, \<open>Basic_Buf\<close>, \<open>Rx_Data_Buf\<close>
    (\<open>src/wspace_asym_util.h\<close>, \<open>src/wspace_asym_util.cc\<close>, \<open>src/time_util.h\<close>): the packet headers as
    objects and as bytes, \<open>AckPkt\<close>, \<open>RxRawBuf\<close>, \<open>BatchInfo\<close>, \<open>BasicBuf\<close> with \<open>TxSendBuf\<close>, and \<open>RxDataBuf\<close>.
  \<^item> \<open>Rx_Run\<close>, \<open>Rx_Progress\<close>, \<open>Rx_Nacks\<close>, \<open>Rx_Blocking\<close>, \<open>Ring_Queue\<close>: lemmas on the buffers; the properties
    are in \<open>Rx_Properties\<close>.
  \<^item> \<open>Rx_Locks\<close>, \<open>Lock_Discipline\<close>, \<open>Lock_Delivery\<close>, \<open>Lock_Wakeups\<close>, \<open>Lock_Restart\<close>,
    \<open>Lock_Refine\<close> (\<open>RxDataBuf\<close> again, with \<open>src/pthread_wrapper.h\<close>): the receive buffer with its queue lock, slot locks and condition
    variables, every thread preempted at every lock operation; the properties are in \<open>Lock_Properties\<close>.
  \<^item> \<open>Monitor\<close>: an object with one lock and one condition, its calls interleaved statement by
    statement. \<open>Raw_Locks\<close> has \<open>RxRawBuf\<close> so, \<open>Object_Locks\<close> \<open>BatchInfo\<close>, \<open>OriginalSeqContext\<close> and
    \<open>BaseStationContext\<close>; the properties are in \<open>Monitor_Properties\<close>.
  \<^item> \<open>Tun\<close> (\<open>src/tun.h\<close>, \<open>src/tun.cc\<close>): tun device and sockets. \<open>Udp_Socket\<close> (\<open>src/udp_socket.cc\<close>).
    \<open>Time_Util\<close> (\<open>src/time_util.h\<close>, \<open>src/time_util.cc\<close>): the readable time. \<open>Gps\<close> (\<open>src/gps_parser.cc\<close>): \<open>GPSParser\<close>,
    \<open>GPSLogger\<close> and \<open>RxParseGPS\<close>.
  \<^item> \<open>Client_Rx\<close>, \<open>Client_Threads\<close>, \<open>Client_Options\<close>, \<open>Client_Main\<close> (\<open>src/wspace_client_scout.cc\<close>): the
    threads, the constructor and \<open>main\<close>. \<open>Client_Batch\<close>, \<open>Client_Deliver\<close>, \<open>Client_Downlink\<close>,
    \<open>Client_Stream\<close> and \<open>Client_Acks\<close> hold the lemmas
    that join them with the codec and the buffers; the properties are in \<open>Client_Properties\<close>.

  \<^bold>\<open>How the code is modelled.\<close> A class is a record, a member function a function of the record with
  the code's name (a suffix or a prefix where the name is taken). Integers have the width of the
  code and wrap. A thread's loop body is one function; what a blocking call does between two waits
  is one step: \<open>EnqueuePkt\<close> returns or waits (\<open>False\<close>), \<open>DequeuePkt\<close> returns or waits
  (\<open>Wait_Fill\<close>, \<open>Wait_Slot\<close>) and goes on with \<open>DequeuePkt_wake\<close>, \<open>FindNackSeqNum\<close> waits (\<open>Nack_Wait\<close>)
  and goes on with \<open>FindNackSeqNum_wake\<close>, \<open>PopPktStatus\<close> waits (\<open>None\<close>).
  \<open>rx_step\<close> interleaves the threads on a receive buffer in such steps; \<open>FindNackSeqNum\<close>, which holds
  only the lock of one slot at a time, is there one step per slot. \<open>lock_step\<close> does without the assumption
  that the steps are atomic: a thread is at a \<open>place\<close> of its operation, a \<open>segment\<close> runs from one lock
  operation to the next, a thread that wants a lock waits until it is free, and a signal wakes a thread
  that sleeps at that moment or is lost. \<open>abs_state\<close> maps the one model to the other, and \<open>Lock_Refine\<close>
  shows that an undisturbed thread does the same in both. A segment that clears
  a slot of a restarted window is one step for each slot; the words of a slot are not read half-written.
  The objects with one lock are modelled twice as well: a call as one function, and in \<open>monitor_step\<close> one
  statement after the other, with the lock and the condition; the locale \<open>monitor\<close> derives from a proof
  outline of the statements that the calls of any interleaving are those of a sequential run.
  \<open>tun_step\<close> interleaves the writing threads, which release their lock before they write. System
  calls, the clock, \<open>atof\<close>, memory that is not initialised, and the arithmetic of \<open>double\<close> in the
  GPS reader are parameters; the assumptions on them are \<open>recv_sane\<close> and \<open>send_sane\<close>.

  \<^bold>\<open>What is shown.\<close>
  \<^item> The codec: the bytes form a field under \<open>gf_mul\<close>, the matrix routines compute what they should,
    any \<open>k\<close> coded packets restore a batch, repeated ones are refused.
  \<^item> The receive buffer: in all interleavings delivery is in order (\<open>locked_delivery_in_order\<close>) and the
    buffer stays well formed (\<open>rx_buffer_well_formed\<close>); each packet is the one of its position, or, after a
    restart over an undelivered packet, an older one of its slot. Reordered packets come out complete
    (\<open>reorder_roundtrip\<close>). A missing packet does not block a full buffer (\<open>full_buffer_unblocks\<close>), the search for
    holes frees a thread that waits too long (\<open>blocked_head_times_out\<close>), and a report that does not fit gives up
    its numbers (\<open>overfull_report_gives_up\<close>).
  \<^item> The locks: exclusion, no deadlock (\<open>locks_follow_places\<close>, \<open>lock_waits_end\<close>), and no lost wake-up
    (\<open>slot_sleeper_misses_packet\<close>, \<open>fill_signal_passed_on\<close>) but for the one of a restart. The record of
    raw packets reports every missing number as often as option \<open>-A\<close> says and wakes its reader (\<open>raw_locked_reports\<close>,
    \<open>raw_report_not_missed\<close>), and a snapshot of the batch is never half written (\<open>batch_snapshot_of_last\<close>).
  \<^item> The threads: from coded datagrams to ordered packets (\<open>downlink_in_order\<close> for
    one batch, \<open>downlink_stream_in_order\<close> for a sequence of them), acknowledgements
    that read as the holes (\<open>data_ack_exact\<close>, \<open>raw_ack_exact\<close>), at most one write for each
    sequence number (\<open>tun_writes_once\<close>), and the uplink.
  \<^item> Where the code fails: theorems named by the failure (\<open>find_nacks_assertion\<close>,
    \<open>restart_delivers_stale_packet\<close>, \<open>restart_loses_wakeup\<close>, \<open>enqueue_overflows_slot\<close>,
    \<open>raw_ack_full_exits\<close>, \<open>read_error_unnoticed\<close>, \<open>failed_read_stretches_deadline\<close>, \<open>stray_datagram_aborts\<close>).

  \<^bold>\<open>What is assumed of the packets.\<close> The lemmas on \<open>EnqueuePkt\<close> assume that a packet carries the payload of
  its number, fits a slot and stays away from the end of \<open>uint32\<close> (\<open>fitting\<close>); the code checks neither
  (\<open>enqueue_overflows_slot\<close>). It does not rule out either that a restart of the window meets an undelivered
  packet (\<open>overruns\<close>, \<open>restart_delivers_stale_packet\<close>): \<open>any_fitting\<close> admits such restarts, \<open>no_overrun\<close>
  excludes them, and \<open>admissible stale\<close> stands for both. The locks need no assumption (\<open>any_packet\<close>).
  The record of raw packets starts with the value of \<open>max_send_cnt\<close> that the constructor or option \<open>-A\<close>
  leaves, which is set before the threads start (\<open>raw_run\<close>, \<open>raw_locked\<close>).

  \<^bold>\<open>Interfaces.\<close> The locales \<open>reorder_buffer\<close> (\<open>Rx_Progress\<close>), \<open>slot_queue\<close> (\<open>Ring_Queue\<close>), \<open>nack_codec\<close>
  (\<open>Ack_Packet\<close>), \<open>monotone_gate\<close> (\<open>Client_Threads\<close>), \<open>monitor\<close> with \<open>monitor_ends\<close> (\<open>Monitor\<close>) and those of
  the codec (\<open>Fec_Contract\<close>) state the contracts between the parts; each is interpreted on the code's
  definitions, \<open>monitor\<close> on four objects.

  \<^bold>\<open>Bounds.\<close> No fuel is used: every recursion is structural or has a measure. Sequence numbers are
  not followed past \<open>2\<^sup>3\<^sup>2\<close>: there the slots of neighbouring numbers collide, because 5000 does not
  divide \<open>2\<^sup>3\<^sup>2\<close>; lemmas that need it say so (\<open>rx_last\<close>).

  \<^bold>\<open>Not modelled.\<close> Release of memory, and the initialisation and destruction of mutexes and conditions,
  which only assert that the system call succeeds; \<open>Tun_close\<close> has the descriptors a \<open>Tun\<close> closes. The
  writes of \<open>TxSendBuf\<close>'s callers, which are not part of the client. The format of \<open>GPSLogger\<close>'s lines,
  which prints \<open>double\<close>s, and the other output. \<open>RxDataBuf::WaitWakeAck\<close> and \<open>SignalWakeAck\<close>, which
  nothing calls. The timing macros of the test build. \<open>src/c_lib.h\<close> and \<open>src/cpp_lib.h\<close>, which include
  the standard library.
\<close>

end
